(* ===== verification/Prelude.thy ===== *)
theory Prelude
  imports Main "HOL-Library.Word" "HOL-Library.Signed_Division" "HOL-Library.Monad_Syntax"
begin

text \<open>
  Machine-level vocabulary shared by every component: 32-bit addresses, byte-addressed memory,
  little-endian cells of one, two, four and eight bytes, and the calculus of disjoint address
  ranges by which a store at one place is shown not to be seen by a load at another.
\<close>

unbundle bit_operations_syntax

named_theorems mem_simps \<open>what a load sees after a store\<close>
named_theorems sep_simps \<open>disjointness of address ranges\<close>

type_synonym byte = "8 word"
type_synonym addr = "32 word"
type_synonym cint = "32 word"
type_synonym mem = "addr \<Rightarrow> byte"

section \<open>Disjoint address ranges\<close>

text \<open>
  \<open>sep a n b k\<close>: the \<open>n\<close> bytes from \<open>a\<close> and the \<open>k\<close> bytes from \<open>b\<close> do not overlap, where
  ranges may run over the top of the address space. \<open>inreg a n x\<close>: \<open>x\<close> is one of the \<open>n\<close>
  bytes from \<open>a\<close>.
\<close>

definition sep :: "addr \<Rightarrow> nat \<Rightarrow> addr \<Rightarrow> nat \<Rightarrow> bool" where
  "sep a n b k \<longleftrightarrow> n \<le> unat (b - a) \<and> k \<le> unat (a - b)"

definition inreg :: "addr \<Rightarrow> nat \<Rightarrow> addr \<Rightarrow> bool" where
  "inreg a n x \<longleftrightarrow> unat (x - a) < n"

lemma unat_less_4G: "unat (x :: addr) < 4294967296"
  using unsigned_less [of x] by simp

lemma unat_minus_nz: "(x :: addr) \<noteq> 0 \<Longrightarrow> unat (- x) = 4294967296 - unat x"
proof -
  assume nz: "x \<noteq> 0"
  have "- x = of_nat (4294967296 - unat x)"
    using unat_less_4G [of x] by (simp add: of_nat_diff)
  then have "unat (- x) = unat (of_nat (4294967296 - unat x) :: addr)"
    by (rule arg_cong)
  moreover have "0 < unat x" using nz by (simp add: unat_gt_0)
  ultimately show ?thesis
    by (simp add: unat_of_nat take_bit_eq_mod)
qed

lemma unat_diff_flip: "b \<noteq> (a :: addr) \<Longrightarrow> unat (a - b) = 4294967296 - unat (b - a)"
  using unat_minus_nz [of "b - a"] by simp

lemma sep_sym: "sep a n b k \<longleftrightarrow> sep b k a n"
  by (auto simp: sep_def)

lemma sep_iff:
  "0 < n \<Longrightarrow> 0 < k \<Longrightarrow> sep a n b k \<longleftrightarrow> n \<le> unat (b - a) \<and> unat (b - a) + k \<le> 4294967296"
proof -
  assume n: "0 < n" and k: "0 < k"
  show ?thesis
  proof (cases "a = b")
    case True
    then show ?thesis using n by (simp add: sep_def)
  next
    case False
    then have "unat (a - b) = 4294967296 - unat (b - a)" by (intro unat_diff_flip) simp
    then show ?thesis using unat_less_4G [of "b - a"] by (auto simp: sep_def)
  qed
qed

lemma unat_shifted:
  assumes "unat (i :: addr) \<le> unat d + unat j" and "unat d + unat j - unat i < 4294967296"
  shows "unat (d + j - i) = unat d + unat j - unat i"
proof -
  have "d + j - i = of_nat (unat d + unat j - unat i)"
    using assms(1) by (simp add: of_nat_diff)
  then show ?thesis using assms(2) by (simp add: unat_of_nat take_bit_eq_mod)
qed

lemma sep_sub:
  assumes s: "sep a n b k" and i: "unat i + n' \<le> n" and j: "unat j + k' \<le> k"
    and pos: "0 < n'" "0 < k'"
  shows "sep (a + i) n' (b + j) k'"
proof -
  have s': "n \<le> unat (b - a)" "unat (b - a) + k \<le> 4294967296"
    using s sep_iff [of n k a b] i j pos by auto
  have "unat ((b - a) + j - i) = unat (b - a) + unat j - unat i"
    by (rule unat_shifted) (use s' i j pos in auto)
  moreover have "b + j - (a + i) = (b - a) + j - i" by simp
  ultimately have "unat (b + j - (a + i)) = unat (b - a) + unat j - unat i" by metis
  then show ?thesis using s' i j pos by (subst sep_iff) auto
qed

lemma sep_shrink: "sep a n b k \<Longrightarrow> n' \<le> n \<Longrightarrow> k' \<le> k \<Longrightarrow> sep a n' b k'"
  by (auto simp: sep_def)

lemma sep_sub_left:
  "sep a n b k \<Longrightarrow> unat i + n' \<le> n \<Longrightarrow> k' \<le> k \<Longrightarrow> 0 < n' \<Longrightarrow> 0 < k' \<Longrightarrow> sep (a + i) n' b k'"
  using sep_sub [of a n b k i n' 0 k'] by simp

lemma sep_sub_right:
  "sep a n b k \<Longrightarrow> n' \<le> n \<Longrightarrow> unat j + k' \<le> k \<Longrightarrow> 0 < n' \<Longrightarrow> 0 < k' \<Longrightarrow> sep a n' (b + j) k'"
  using sep_sub [of a n b k 0 n' j k'] by simp

lemma sep_same_base [sep_simps]: "sep (a + i) n (a + j) k \<longleftrightarrow> sep i n j k"
  by (simp add: sep_def)

lemma sep_same_base_left [sep_simps]: "sep a n (a + j) k \<longleftrightarrow> sep 0 n j k"
  by (simp add: sep_def)

lemma sep_same_base_right [sep_simps]: "sep (a + i) n a k \<longleftrightarrow> sep i n 0 k"
  by (simp add: sep_def)

lemma sep_below: "unat a + n \<le> unat b \<Longrightarrow> unat b + k \<le> 4294967296 + unat a \<Longrightarrow> 0 < n \<Longrightarrow> 0 < k \<Longrightarrow> sep a n b k"
proof -
  assume le: "unat a + n \<le> unat b" "unat b + k \<le> 4294967296 + unat a" "0 < n" "0 < k"
  have "unat (b - a) = unat b - unat a"
    using le unat_shifted [of a b 0] unat_less_4G [of b] by simp
  then have "n \<le> unat (b - a)" "unat (b - a) + k \<le> 4294967296" using le by linarith+
  then show ?thesis using le by (simp add: sep_iff)
qed

lemma sep_notin: "sep a n b k \<Longrightarrow> inreg b k x \<Longrightarrow> \<not> inreg a n x"
proof
  assume s: "sep a n b k" and x: "inreg b k x" "inreg a n x"
  have eq: "unat (x - a) = unat (b - a) + unat (x - b) \<or>
    unat (x - a) + 4294967296 = unat (b - a) + unat (x - b)"
  proof -
    have "x - a = (b - a) + (x - b)" by simp
    then have "unat (x - a) = (unat (b - a) + unat (x - b)) mod 4294967296"
      using unat_word_ariths(1) [of "b - a" "x - b"] by simp
    then show ?thesis using unat_less_4G [of "b - a"] unat_less_4G [of "x - b"]
      by (auto simp: mod_if)
  qed
  then show False using s x unat_less_4G [of "x - a"] sep_iff [of n k a b]
    by (auto simp: inreg_def)
qed

lemma unat_add_le: "unat (x + y :: addr) \<le> unat x + unat y"
  by (simp add: unat_word_ariths)

lemma inreg_sub: "inreg (a + i) k x \<Longrightarrow> unat i + k \<le> n \<Longrightarrow> inreg a n x"
  using unat_add_le [of "x - (a + i)" i] by (simp add: inreg_def)

lemma inreg_mono: "inreg a k x \<Longrightarrow> k \<le> n \<Longrightarrow> inreg a n x"
  by (simp add: inreg_def)

text \<open>The same in the negative, to discharge side conditions from one fact about a whole struct.\<close>

lemma inreg_fields:
  assumes "\<not> inreg a n x"
  shows "unat i + k \<le> n \<Longrightarrow> \<not> inreg (a + i) k x" and "k \<le> n \<Longrightarrow> \<not> inreg a k x"
  using assms inreg_sub inreg_mono by blast+

lemma unat_minus_1 [simp]: "unat (- 1 :: addr) = 4294967295"
  using unat_minus_nz [of 1] by simp

lemma inreg_sep: "0 < n \<Longrightarrow> \<not> inreg a n x \<longleftrightarrow> sep a n x 1"
  using unat_less_4G [of "x - a"] by (auto simp: inreg_def sep_iff)

lemma sep_zero_numeral [sep_simps]:
  "sep 0 n (numeral j) k \<longleftrightarrow> n \<le> unat (numeral j :: addr) \<and> k \<le> unat (- numeral j :: addr)"
  "sep (numeral i) n 0 k \<longleftrightarrow> n \<le> unat (- numeral i :: addr) \<and> k \<le> unat (numeral i :: addr)"
  "sep 0 n 1 k \<longleftrightarrow> n \<le> 1 \<and> k \<le> 4294967295"
  "sep 1 n 0 k \<longleftrightarrow> n \<le> 4294967295 \<and> k \<le> 1"
  by (simp_all add: sep_def unat_minus_nz)

lemma sep_numerals [sep_simps]:
  "sep (numeral i) n (numeral j) k \<longleftrightarrow>
     n \<le> unat (numeral j - numeral i :: addr) \<and> k \<le> unat (numeral i - numeral j :: addr)"
  "sep 1 n (numeral j) k \<longleftrightarrow>
     n \<le> unat (numeral j - 1 :: addr) \<and> k \<le> unat (1 - numeral j :: addr)"
  "sep (numeral i) n 1 k \<longleftrightarrow>
     n \<le> unat (1 - numeral i :: addr) \<and> k \<le> unat (numeral i - 1 :: addr)"
  by (simp_all add: sep_def)

section \<open>Cells of memory\<close>

definition load8 :: "mem \<Rightarrow> addr \<Rightarrow> byte" where
  "load8 m a = m a"

definition store8 :: "mem \<Rightarrow> addr \<Rightarrow> byte \<Rightarrow> mem" where
  "store8 m a v = m(a := v)"

definition load16 :: "mem \<Rightarrow> addr \<Rightarrow> 16 word" where
  "load16 m a = push_bit 8 (ucast (m (a + 1))) OR ucast (m a)"

definition store16 :: "mem \<Rightarrow> addr \<Rightarrow> 16 word \<Rightarrow> mem" where
  "store16 m a v = m(a := ucast v, a + 1 := ucast (drop_bit 8 v))"

definition load32 :: "mem \<Rightarrow> addr \<Rightarrow> 32 word" where
  "load32 m a = push_bit 16 (ucast (load16 m (a + 2))) OR ucast (load16 m a)"

definition store32 :: "mem \<Rightarrow> addr \<Rightarrow> 32 word \<Rightarrow> mem" where
  "store32 m a v = store16 (store16 m a (ucast v)) (a + 2) (ucast (drop_bit 16 v))"

definition load64 :: "mem \<Rightarrow> addr \<Rightarrow> 64 word" where
  "load64 m a = push_bit 32 (ucast (load32 m (a + 4))) OR ucast (load32 m a)"

definition store64 :: "mem \<Rightarrow> addr \<Rightarrow> 64 word \<Rightarrow> mem" where
  "store64 m a v = store32 (store32 m a (ucast v)) (a + 4) (ucast (drop_bit 32 v))"

locale mem_cell =
  fixes ld :: "mem \<Rightarrow> addr \<Rightarrow> 'v"
    and st :: "mem \<Rightarrow> addr \<Rightarrow> 'v \<Rightarrow> mem"
    and width :: nat
  assumes ld_st: "ld (st m a v) a = v"
    and st_outside: "\<not> inreg a width x \<Longrightarrow> st m a v x = m x"
    and ld_local: "(\<And>x. inreg a width x \<Longrightarrow> m x = m' x) \<Longrightarrow> ld m a = ld m' a"
begin

lemma ld_frame:
  assumes "sep a n b width" and "\<And>x. \<not> inreg a n x \<Longrightarrow> m' x = m x"
  shows "ld m' b = ld m b"
  by (rule ld_local) (use assms sep_notin in blast)

lemma st_sep: "sep a width b n \<Longrightarrow> inreg b n x \<Longrightarrow> st m a v x = m x"
  by (rule st_outside) (rule sep_notin)

end

locale mem_cells = fst: mem_cell ld st width + snd: mem_cell ld' st' width'
  for ld :: "mem \<Rightarrow> addr \<Rightarrow> 'v" and st and width
    and ld' :: "mem \<Rightarrow> addr \<Rightarrow> 'w" and st' and width'
begin

lemma ld_other: "sep a width' b width \<Longrightarrow> ld (st' m a v) b = ld m b"
  by (rule fst.ld_frame) (auto simp: snd.st_outside)

lemma ld_other_right: "sep b width a width' \<Longrightarrow> ld (st' m a v) b = ld m b"
  by (rule ld_other) (simp add: sep_sym)

end

interpretation c8: mem_cell load8 store8 1
  by unfold_locales (auto simp: load8_def store8_def inreg_def)

text \<open>A cell made of two half cells, the low half first: what holds of the halves holds of it.\<close>

locale mem_double = mem_cell ld st width
  for ld :: "mem \<Rightarrow> addr \<Rightarrow> 'h::len word" and st and width +
  fixes ld2 :: "mem \<Rightarrow> addr \<Rightarrow> 'd::len word" and st2 :: "mem \<Rightarrow> addr \<Rightarrow> 'd word \<Rightarrow> mem"
  assumes ld2_eq: "ld2 m a = push_bit LENGTH('h) (ucast (ld m (a + of_nat width))) OR ucast (ld m a)"
    and st2_eq: "st2 m a v =
      st (st m a (ucast v)) (a + of_nat width) (ucast (drop_bit LENGTH('h) v))"
    and double: "LENGTH('d) = 2 * LENGTH('h)"
    and width_small: "width < 1024"
begin

lemma unat_width [simp]: "unat (of_nat width :: addr) = width"
  using width_small by (simp add: unat_of_nat take_bit_eq_mod)

lemma halves_sep: "sep a width (a + of_nat width) width"
proof (cases "width = 0")
  case True
  then show ?thesis by (simp add: sep_def)
next
  case False
  then show ?thesis using width_small by (simp add: sep_iff)
qed

lemma ld2_st2: "ld2 (st2 m a v) a = v"
proof -
  have lo: "ld (st2 m a v) a = ucast v"
    unfolding st2_eq
    by (subst ld_frame [where a = "a + of_nat width" and n = width and m = "st m a (ucast v)"])
      (use halves_sep [of a] in \<open>auto simp: sep_sym st_outside ld_st\<close>)
  have hi: "ld (st2 m a v) (a + of_nat width) = ucast (drop_bit LENGTH('h) v)"
    unfolding st2_eq by (rule ld_st)
  show ?thesis
    by (rule bit_eqI) (use double in \<open>auto simp: ld2_eq lo hi bit_simps\<close>)
qed

lemma st2_outside: "\<not> inreg a (2 * width) x \<Longrightarrow> st2 m a v x = m x"
proof -
  assume x: "\<not> inreg a (2 * width) x"
  have "\<not> inreg a width x" "\<not> inreg (a + of_nat width) width x"
    using x inreg_mono [of a width x "2 * width"] inreg_sub [of a "of_nat width" width x "2 * width"]
    by auto
  then show ?thesis by (simp add: st2_eq st_outside)
qed

lemma ld2_local: "(\<And>x. inreg a (2 * width) x \<Longrightarrow> m x = m' x) \<Longrightarrow> ld2 m a = ld2 m' a"
proof -
  assume eq: "\<And>x. inreg a (2 * width) x \<Longrightarrow> m x = m' x"
  have "ld m a = ld m' a"
    by (rule ld_local) (use eq inreg_mono [of a width _ "2 * width"] in auto)
  moreover have "ld m (a + of_nat width) = ld m' (a + of_nat width)"
    by (rule ld_local) (use eq inreg_sub [of a "of_nat width" width _ "2 * width"] in auto)
  ultimately show ?thesis by (simp add: ld2_eq)
qed

end

sublocale mem_double \<subseteq> dbl: mem_cell ld2 st2 "2 * width"
  by unfold_locales (auto simp: ld2_st2 st2_outside intro: ld2_local)

interpretation d16: mem_double load8 store8 1 load16 store16
  by unfold_locales (auto simp: load16_def store16_def load8_def store8_def)

interpretation c16: mem_cell load16 store16 2
  using d16.dbl.mem_cell_axioms by simp

interpretation d32: mem_double load16 store16 2 load32 store32
  by unfold_locales (auto simp: load32_def store32_def)

interpretation c32: mem_cell load32 store32 4
  using d32.dbl.mem_cell_axioms by simp

interpretation d64: mem_double load32 store32 4 load64 store64
  by unfold_locales (auto simp: load64_def store64_def)

interpretation c64: mem_cell load64 store64 8
  using d64.dbl.mem_cell_axioms by simp

interpretation c8_8: mem_cells load8 store8 1 load8 store8 1 ..

interpretation c8_16: mem_cells load8 store8 1 load16 store16 2 ..

interpretation c8_32: mem_cells load8 store8 1 load32 store32 4 ..

interpretation c8_64: mem_cells load8 store8 1 load64 store64 8 ..

interpretation c16_8: mem_cells load16 store16 2 load8 store8 1 ..

interpretation c16_16: mem_cells load16 store16 2 load16 store16 2 ..

interpretation c16_32: mem_cells load16 store16 2 load32 store32 4 ..

interpretation c16_64: mem_cells load16 store16 2 load64 store64 8 ..

interpretation c32_8: mem_cells load32 store32 4 load8 store8 1 ..

interpretation c32_16: mem_cells load32 store32 4 load16 store16 2 ..

interpretation c32_32: mem_cells load32 store32 4 load32 store32 4 ..

interpretation c32_64: mem_cells load32 store32 4 load64 store64 8 ..

interpretation c64_8: mem_cells load64 store64 8 load8 store8 1 ..

interpretation c64_16: mem_cells load64 store64 8 load16 store16 2 ..

interpretation c64_32: mem_cells load64 store64 8 load32 store32 4 ..

interpretation c64_64: mem_cells load64 store64 8 load64 store64 8 ..

lemmas load_store_same [mem_simps] = c8.ld_st c16.ld_st c32.ld_st c64.ld_st

lemmas load_store_other [mem_simps] =
  c8_8.ld_other c8_8.ld_other_right c8_16.ld_other c8_16.ld_other_right c8_32.ld_other c8_32.ld_other_right c8_64.ld_other c8_64.ld_other_right
  c16_8.ld_other c16_8.ld_other_right c16_16.ld_other c16_16.ld_other_right c16_32.ld_other c16_32.ld_other_right c16_64.ld_other c16_64.ld_other_right
  c32_8.ld_other c32_8.ld_other_right c32_16.ld_other c32_16.ld_other_right c32_32.ld_other c32_32.ld_other_right c32_64.ld_other c32_64.ld_other_right
  c64_8.ld_other c64_8.ld_other_right c64_16.ld_other c64_16.ld_other_right c64_32.ld_other c64_32.ld_other_right c64_64.ld_other c64_64.ld_other_right

text \<open>
  From the disjointness of two structs to that of their fields: instantiated with the fact that
  two ranges are disjoint, \<open>sep_fields\<close> decides every pair of sub-ranges.
\<close>

lemma sep_fields:
  assumes "sep a n b k"
  shows "unat i + n' \<le> n \<Longrightarrow> unat j + k' \<le> k \<Longrightarrow> 0 < n' \<Longrightarrow> 0 < k' \<Longrightarrow> sep (a + i) n' (b + j) k'"
    and "unat i + n' \<le> n \<Longrightarrow> k' \<le> k \<Longrightarrow> 0 < n' \<Longrightarrow> 0 < k' \<Longrightarrow> sep (a + i) n' b k'"
    and "n' \<le> n \<Longrightarrow> unat j + k' \<le> k \<Longrightarrow> 0 < n' \<Longrightarrow> 0 < k' \<Longrightarrow> sep a n' (b + j) k'"
    and "n' \<le> n \<Longrightarrow> k' \<le> k \<Longrightarrow> sep a n' b k'"
    and "unat i + n' \<le> n \<Longrightarrow> unat j + k' \<le> k \<Longrightarrow> 0 < n' \<Longrightarrow> 0 < k' \<Longrightarrow> sep (b + j) k' (a + i) n'"
    and "unat i + n' \<le> n \<Longrightarrow> k' \<le> k \<Longrightarrow> 0 < n' \<Longrightarrow> 0 < k' \<Longrightarrow> sep b k' (a + i) n'"
    and "n' \<le> n \<Longrightarrow> unat j + k' \<le> k \<Longrightarrow> 0 < n' \<Longrightarrow> 0 < k' \<Longrightarrow> sep (b + j) k' a n'"
    and "n' \<le> n \<Longrightarrow> k' \<le> k \<Longrightarrow> sep b k' a n'"
  using assms
  by (blast intro: sep_sub sep_sub_left sep_sub_right sep_shrink sep_sym [THEN iffD1])+

text \<open>Elements of an array.\<close>

lemma unat_of_small: "n < 4294967296 \<Longrightarrow> unat (of_nat n :: addr) = n"
  by (simp add: unat_of_nat take_bit_nat_eq_self)

lemma in_array: "inreg (a + of_nat (w * i)) w x \<Longrightarrow> i < n \<Longrightarrow> w * n < 4294967296 \<Longrightarrow> inreg a (w * n) x"
proof (rule inreg_sub)
  assume "i < n" and small: "w * n < 4294967296"
  then have "w * Suc i \<le> w * n" by (intro mult_le_mono2) simp
  then show "unat (of_nat (w * i) :: addr) + w \<le> w * n"
    using small unat_of_small [of "w * i"] by simp
qed

lemma array_sep_less:
  assumes "i < j" and "w * Suc j \<le> 4294967296" and "0 < w"
  shows "sep (a + of_nat (w * i)) w (a + of_nat (w * j)) w"
proof -
  have le: "w * Suc i \<le> w * j" using assms(1) by (intro mult_le_mono2) simp
  then have "w * i < 4294967296" "w * j < 4294967296" using assms(2,3) by simp_all
  note u = this [THEN unat_of_small]
  then have "sep (of_nat (w * i)) w (of_nat (w * j)) w"
    using assms le u by (intro sep_below) (simp_all del: of_nat_mult)
  then show ?thesis by (simp only: sep_same_base)
qed

lemma array_sep:
  assumes "i \<noteq> j" and "i < n" and "j < n" and "w * n < 4294967296" and "0 < w"
  shows "sep (a + of_nat (w * i)) w (a + of_nat (w * j)) w"
proof -
  have "w * Suc k \<le> 4294967296" if "k < n" for k
    using mult_le_mono2 [of "Suc k" n w] that assms(4) by simp
  then show ?thesis
    using assms array_sep_less [of i j w a] array_sep_less [of j i w a] sep_sym by (cases "i < j") auto
qed

section \<open>Masks\<close>

lemma mask_numerals:
  "(0xFFFF :: 32 word) = mask 16" "(0xFFFFF :: 32 word) = mask 20" "(0xFF :: 32 word) = mask 8"
  "(0x0F :: 32 word) = mask 4" "(0x0F :: byte) = mask 4" "(0xF0 :: byte) = push_bit 4 (mask 4)"
  "(0xFF :: 16 word) = mask 8" "(0x0F :: 16 word) = mask 4"
  by (simp_all add: mask_eq_exp_minus_1)

lemma unat_ucast_byte: "unat (ucast (b :: byte) :: 32 word) = unat b"
proof -
  have "unat b < 256" using unsigned_less [of b] by simp
  then show ?thesis by (simp add: unsigned_ucast_eq take_bit_nat_eq_self)
qed

section \<open>Counting on words\<close>

lemma unat_Suc_below: "(i :: addr) < n \<Longrightarrow> unat (i + 1) = Suc (unat i)"
proof -
  assume "i < n"
  then have "unat i + 1 < 4294967296"
    using unat_less_4G [of n] by (simp add: word_less_nat_alt)
  then show ?thesis by (simp add: unat_word_ariths)
qed

text \<open>Loops that count an index up to a bound, or down to zero, terminate.\<close>

lemma count_up [termination_simp]: "(i :: addr) < n \<Longrightarrow> unat n - unat (i + 1) < unat n - unat i"
  by (simp add: unat_Suc_below word_less_nat_alt)

lemma unat_pred: "(i :: addr) \<noteq> 0 \<Longrightarrow> unat (i - 1) = unat i - 1"
  by (simp add: unat_minus_one)

lemma count_down [termination_simp]: "(i :: addr) \<noteq> 0 \<Longrightarrow> unat (i - 1) < unat i"
  by (simp add: unat_pred unat_gt_0)

section \<open>C's integers\<close>

text \<open>\<open>int\<close> division and remainder truncate towards zero; \<open>byte_of\<close> is a character constant.\<close>

definition c_div :: "cint \<Rightarrow> cint \<Rightarrow> cint" where
  "c_div a b = word_of_int (sint a sdiv sint b)"

definition c_mod :: "cint \<Rightarrow> cint \<Rightarrow> cint" where
  "c_mod a b = word_of_int (sint a smod sint b)"

abbreviation bytes_of :: "string \<Rightarrow> byte list" where
  "bytes_of cs \<equiv> map of_char cs"

lemma sint_nonneg_unat:
  assumes "unat (a :: cint) < 2147483648"
  shows "sint a = int (unat a)"
proof -
  have "uint a < 2147483648" unfolding uint_nat using assms by linarith
  then have "signed_take_bit 31 (uint a) = uint a"
    using order_trans [of "- 2147483648" 0 "uint a"] by (intro signed_take_bit_int_eq_self) simp_all
  then show ?thesis by (simp add: sint_uint)
qed

lemma sint_pos_unat: "0 < sint (a :: cint) \<longleftrightarrow> 0 < unat a \<and> unat a < 2147483648"
proof (cases "unat a < 2147483648")
  case True
  then show ?thesis unfolding sint_nonneg_unat [OF True] by linarith
next
  case False
  then have "2147483648 \<le> uint a" unfolding uint_nat by linarith
  then have "signed_take_bit 31 (uint a) \<le> uint a - 4294967296"
    using signed_take_bit_int_less_eq [of 31 "uint a"] by simp
  moreover have "uint a < 4294967296" using uint_bounded [of a] by simp
  ultimately show ?thesis using False by (simp add: sint_uint)
qed

lemma sdiv_int_nat: "int n sdiv int k = int (n div k)"
  by (simp add: signed_divide_int_def sgn_if zdiv_int)

lemma smod_int_nat: "int n smod int k = int (n mod k)"
  by (cases "n = 0")
    (simp_all add: signed_modulo_int_def sdiv_int_nat minus_div_mult_eq_mod [symmetric] zdiv_int)

lemma unat_of_int_nat: "n < 4294967296 \<Longrightarrow> unat (word_of_int (int n) :: cint) = n"
  by (simp add: unat_of_nat take_bit_eq_mod)

lemma c_div_nonneg:
  assumes "unat a < 2147483648" and "unat b < 2147483648"
  shows "unat (c_div a b) = unat a div unat b"
  unfolding c_div_def sint_nonneg_unat [OF assms(1)] sint_nonneg_unat [OF assms(2)] sdiv_int_nat
  using assms div_le_dividend [of "unat a" "unat b"] by (intro unat_of_int_nat) linarith

lemma c_mod_nonneg:
  assumes "unat a < 2147483648" and "unat b < 2147483648"
  shows "unat (c_mod a b) = unat a mod unat b"
  unfolding c_mod_def sint_nonneg_unat [OF assms(1)] sint_nonneg_unat [OF assms(2)] smod_int_nat
  using assms mod_less_eq_dividend [of "unat a" "unat b"] by (intro unat_of_int_nat) linarith

section \<open>Strings in memory\<close>

text \<open>\<open>cstr_at m a cs\<close>: a NUL-terminated string with the characters \<open>cs\<close> starts at \<open>a\<close>.\<close>

fun cstr_at :: "mem \<Rightarrow> addr \<Rightarrow> byte list \<Rightarrow> bool" where
  "cstr_at m a [] \<longleftrightarrow> m a = 0"
| "cstr_at m a (c # cs) \<longleftrightarrow> m a = c \<and> c \<noteq> 0 \<and> cstr_at m (a + 1) cs"

lemma cstr_at_append:
  "cstr_at m a (cs @ ds) \<Longrightarrow> cstr_at m (a + of_nat (length cs)) ds"
  by (induction cs arbitrary: a) (auto simp: add.assoc [symmetric])

lemma cstr_at_frame:
  "cstr_at m a cs \<Longrightarrow> (\<And>x. inreg a (Suc (length cs)) x \<Longrightarrow> m' x = m x) \<Longrightarrow> cstr_at m' a cs"
proof (induction cs arbitrary: a)
  case Nil
  then show ?case by (simp add: inreg_def)
next
  case (Cons c cs)
  have "inreg a (Suc (length (c # cs))) x" if "inreg (a + 1) (Suc (length cs)) x" for x
    using inreg_sub [OF that, of "Suc (length (c # cs))"] by simp
  with Cons show ?case by (auto simp: inreg_def)
qed

text \<open>\<open>overlay m a bs\<close>: memory \<open>m\<close> with the bytes \<open>bs\<close> laid over it from address \<open>a\<close>.\<close>

definition overlay :: "mem \<Rightarrow> addr \<Rightarrow> byte list \<Rightarrow> mem" where
  "overlay m a bs = (\<lambda>x. if inreg a (length bs) x then bs ! unat (x - a) else m x)"

lemma overlay_Nil [simp]: "overlay m a [] = m"
  by (simp add: overlay_def inreg_def)

lemma at_offset: "x = a + i \<longleftrightarrow> unat (x - a) = unat (i :: addr)"
  by (metis add_diff_cancel_left' diff_add_cancel add.commute word_unat_eq_iff)

lemma overlay_snoc:
  "length bs < 4294967296 \<Longrightarrow>
     overlay (store8 m (a + of_nat (length bs)) b) a bs = overlay m a (bs @ [b])"
  by (rule ext)
    (auto simp: overlay_def inreg_def store8_def nth_append at_offset unat_of_nat take_bit_eq_mod)

lemma overlay_outside: "\<not> inreg a (length bs) x \<Longrightarrow> overlay m a bs x = m x"
  by (simp add: overlay_def)

lemma overlay_inside: "i < length bs \<Longrightarrow> length bs < 4294967296 \<Longrightarrow> overlay m a bs (a + of_nat i) = bs ! i"
  by (simp add: overlay_def inreg_def unat_of_nat take_bit_eq_mod)

lemma cstr_at_nth:
  "cstr_at m a cs \<longleftrightarrow> (\<forall>i < length cs. m (a + of_nat i) = cs ! i) \<and> 0 \<notin> set cs
     \<and> m (a + of_nat (length cs)) = 0"
proof (induction cs arbitrary: a)
  case Nil
  then show ?case by simp
next
  case (Cons c cs)
  then show ?case by (auto simp: less_Suc_eq_0_disj add.assoc [symmetric])
qed

lemma cstr_at_overlay:
  "length bs < 4294967295 \<Longrightarrow> 0 \<notin> set bs \<Longrightarrow> m (a + of_nat (length bs)) = 0 \<Longrightarrow>
     cstr_at (overlay m a bs) a bs"
  by (simp add: cstr_at_nth overlay_inside overlay_def inreg_def unat_of_nat take_bit_eq_mod)

section \<open>Computations\<close>

text \<open>
  A C function that may never return is an \<open>option\<close>: \<open>None\<close> is a loop that runs for ever.
  A run that leaves the program's control ends with \<open>Inl\<close> of the reason.
\<close>

definition bindc :: "('e + 'a) option \<Rightarrow> ('a \<Rightarrow> ('e + 'b) option) \<Rightarrow> ('e + 'b) option" where
  "bindc x f = (case x of None \<Rightarrow> None | Some (Inl e) \<Rightarrow> Some (Inl e) | Some (Inr a) \<Rightarrow> f a)"

abbreviation ret :: "'a \<Rightarrow> ('e + 'a) option" where
  "ret a \<equiv> Some (Inr a)"

lemma bindc_simps [simp]:
  "bindc None f = None" "bindc (Some (Inl e)) f = Some (Inl e)" "bindc (ret a) f = f a"
  by (simp_all add: bindc_def)

lemma bindc_assoc: "bindc (bindc x f) g = bindc x (\<lambda>a. bindc (f a) g)"
  by (auto simp: bindc_def split: option.splits sum.splits)

lemma bindc_cong: "x = y \<Longrightarrow> (\<And>a. y = ret a \<Longrightarrow> f a = g a) \<Longrightarrow> bindc x f = bindc y g"
  by (auto simp: bindc_def split: option.splits sum.splits)

lemma bindc_bind:
  "bindc x f = Option.bind x (\<lambda>r. case r of Inl e \<Rightarrow> Some (Inl e) | Inr a \<Rightarrow> f a)"
  by (cases x) (auto simp: bindc_def split: sum.splits)

lemma bindc_mono [partial_function_mono]:
  assumes "mono_option f" and "\<And>y. mono_option (\<lambda>x. g x y)"
  shows "mono_option (\<lambda>x. bindc (f x) (\<lambda>y. g x y))"
  unfolding bindc_bind
proof (rule bind_mono [OF assms(1)])
  show "mono_option (\<lambda>x. case y of Inl e \<Rightarrow> Some (Inl e) | Inr a \<Rightarrow> g x a)" for y
    by (cases y) (simp_all add: assms(2) option.const_mono)
qed

text \<open>A routine that may loop but cannot panic, run inside one that can.\<close>

definition lift_comp :: "'a option \<Rightarrow> ('e + 'a) option" where
  "lift_comp x = (case x of None \<Rightarrow> None | Some a \<Rightarrow> ret a)"

lemma lift_comp_simps [simp]: "lift_comp None = None" "lift_comp (Some a) = ret a"
  by (simp_all add: lift_comp_def)

end
