(* ===== verification/Machine.thy ===== *)
theory Machine
  imports Prelude
begin

text \<open>
  The state the kernel's C files share, its port input and output (\<^verbatim>\<open>io.c\<close>) and the raw memory
  routines of \<^verbatim>\<open>mem.c\<close>. Scalars and the terminal struct are record fields; whatever the code
  reaches through a pointer, or indexes without a bound, lives in \<open>ram\<close>, at the addresses the
  linker gave it (the record \<open>syms\<close>, a parameter).
\<close>

section \<open>State\<close>

datatype port_event = Out "16 word" byte | In "16 word" byte

text \<open>A device answers a port read according to the traffic so far.\<close>

type_synonym device = "port_event list \<Rightarrow> 16 word \<Rightarrow> byte"

record term_t =
  t_width :: "32 word"
  t_height :: "32 word"
  t_color :: byte
  xpos :: cint
  ypos :: cint
  t_buffer :: addr

record task_que_t =
  tq_tasks :: "32 word"
  tq_head :: addr
  tq_tail :: addr
  tq_current :: addr

record kstate =
  ram :: mem
  io :: "port_event list"
  tty0 :: term_t
  uptime :: cint
  t_hz :: cint
  kb_i :: cint
  kb_shifted :: cint
  kb_buffer_pending :: cint
  mem_size :: cint
  mm_heap_bottom :: "64 word"
  mm_heap_top :: "64 word"
  task_que :: task_que_t
  floppy_irq :: byte
  current_drive :: byte
  gdtr :: "16 word \<times> addr"
  idtr :: "16 word \<times> addr"
  code_seg :: "16 word"
  data_seg :: "16 word"

text \<open>Addresses of the globals, constant tables and functions, chosen by the linker.\<close>

record syms =
  s_mb_free :: addr
  s_used :: addr
  s_mm_free :: addr
  s_mm_used :: addr
  s_itoa_buf :: addr
  s_digits :: addr
  s_zero :: addr
  s_kbdus :: addr
  s_kb_buffer :: addr
  s_gdt :: addr
  s_gp :: addr
  s_idt :: addr
  s_idtp :: addr
  s_exception_messages :: addr
  s_irq_routines :: addr
  s_days_in_month :: addr
  s_vm_ops :: addr
  s_vm_pool :: addr
  s_literal :: "string \<Rightarrow> addr"
  s_proc_status_names :: addr
  f_isr :: "nat \<Rightarrow> addr"
  f_irq :: "nat \<Rightarrow> addr"
  f_timer_handler :: addr
  f_keyboard_handler :: addr
  f_vm_op :: "nat \<Rightarrow> addr"
  f_test_task_A :: addr
  f_test_task_B :: addr

text \<open>
  How a run leaves the program: \<open>kernel_panic\<close> (it prints, then spins for ever), or a call
  through a function pointer that points at none of the program's functions.
\<close>

datatype stop = Panic kstate | WildCall addr kstate

type_synonym 'a comp = "(stop + 'a) option"

abbreviation with_ram :: "(mem \<Rightarrow> mem) \<Rightarrow> kstate \<Rightarrow> kstate" where
  "with_ram f s \<equiv> s\<lparr>ram := f (ram s)\<rparr>"

section \<open>Port input and output (io.c)\<close>

definition outb :: "16 word \<Rightarrow> byte \<Rightarrow> kstate \<Rightarrow> kstate" where
  "outb port val s = s\<lparr>io := io s @ [Out port val]\<rparr>"

definition inb :: "device \<Rightarrow> 16 word \<Rightarrow> kstate \<Rightarrow> byte \<times> kstate" where
  "inb dev port s = (let v = dev (io s) port in (v, s\<lparr>io := io s @ [In port v]\<rparr>))"

definition io_wait :: "kstate \<Rightarrow> kstate" where
  "io_wait s = s"

text \<open>A sequence of writes, as the initialisation routines do them.\<close>

fun outbs :: "(16 word \<times> byte) list \<Rightarrow> kstate \<Rightarrow> kstate" where
  "outbs [] s = s"
| "outbs ((p, v) # ws) s = outbs ws (outb p v s)"

lemma outb_simps [simp]:
  "ram (outb p v s) = ram s" "io (outb p v s) = io s @ [Out p v]" "tty0 (outb p v s) = tty0 s"
  by (simp_all add: outb_def)

lemma outbs_eq: "outbs ws s = s\<lparr>io := io s @ map (\<lambda>(p, v). Out p v) ws\<rparr>"
  by (induction ws s rule: outbs.induct) (simp_all add: outb_def)

section \<open>Copying and filling memory (mem.c)\<close>

function mem_cpy_up :: "addr \<Rightarrow> addr \<Rightarrow> addr \<Rightarrow> addr \<Rightarrow> mem \<Rightarrow> mem" where
  "mem_cpy_up dst src sz i m =
     (if i < sz then mem_cpy_up dst src sz (i + 1) (store8 m (dst + i) (load8 m (src + i))) else m)"
  by pat_completeness auto
termination
  by (relation "measure (\<lambda>(dst, src, sz, i, m). unat sz - unat i)") (simp_all add: count_up)

function mem_cpy_down :: "addr \<Rightarrow> addr \<Rightarrow> addr \<Rightarrow> mem \<Rightarrow> mem" where
  "mem_cpy_down dst src i m =
     (if i \<noteq> 0 then mem_cpy_down dst src (i - 1) (store8 m (dst + (i - 1)) (load8 m (src + (i - 1))))
      else m)"
  by pat_completeness auto
termination
  by (relation "measure (\<lambda>(dst, src, i, m). unat i)") (simp_all add: count_down)

definition mem_cpy :: "addr \<Rightarrow> addr \<Rightarrow> addr \<Rightarrow> mem \<Rightarrow> mem" where
  "mem_cpy dst src sz m =
     (if dst < src then mem_cpy_up dst src sz 0 m else mem_cpy_down dst src sz m)"

function mem_set_from :: "addr \<Rightarrow> byte \<Rightarrow> addr \<Rightarrow> addr \<Rightarrow> mem \<Rightarrow> mem" where
  "mem_set_from dst val sz i m =
     (if i < sz then mem_set_from dst val sz (i + 1) (store8 m (dst + i) val) else m)"
  by pat_completeness auto
termination
  by (relation "measure (\<lambda>(dst, val, sz, i, m). unat sz - unat i)") (simp_all add: count_up)

definition mem_set :: "addr \<Rightarrow> byte \<Rightarrow> addr \<Rightarrow> mem \<Rightarrow> mem" where
  "mem_set dst val sz m = mem_set_from dst val sz 0 m"

declare mem_cpy_up.simps [simp del] mem_cpy_down.simps [simp del] mem_set_from.simps [simp del]

text \<open>What the copies are meant to do: every byte of the destination is the old byte of the source.\<close>

definition moved :: "addr \<Rightarrow> addr \<Rightarrow> nat \<Rightarrow> mem \<Rightarrow> mem" where
  "moved dst src n m = (\<lambda>x. if inreg dst n x then m (src + (x - dst)) else m x)"

definition filled :: "addr \<Rightarrow> byte \<Rightarrow> nat \<Rightarrow> mem \<Rightarrow> mem" where
  "filled dst val n m = (\<lambda>x. if inreg dst n x then val else m x)"

lemma store8_apply: "store8 m a v x = (if x = a then v else m x)"
  by (simp add: store8_def)

lemma mem_set_from_eq:
  "i \<le> sz \<Longrightarrow> mem_set_from dst val sz i m x =
     (if unat i \<le> unat (x - dst) \<and> unat (x - dst) < unat sz then val else m x)"
proof (induction dst val sz i m rule: mem_set_from.induct)
  case (1 dst val sz i m)
  show ?case
  proof (cases "i < sz")
    case True
    then have i1: "i + 1 \<le> sz" "unat (i + 1) = Suc (unat i)"
      by (simp_all add: unat_Suc_below word_le_nat_alt word_less_nat_alt)
    have "mem_set_from dst val sz i m x = mem_set_from dst val sz (i + 1) (store8 m (dst + i) val) x"
      using True by (subst mem_set_from.simps) simp
    then show ?thesis
      using 1(1) [OF True i1(1)] True i1
      by (auto simp: store8_apply at_offset word_less_nat_alt)
  next
    case False
    then show ?thesis
      by (subst mem_set_from.simps) (auto simp: word_less_nat_alt)
  qed
qed

lemma mem_set_filled: "mem_set dst val sz m = filled dst val (unat sz) m"
  by (rule ext) (simp add: mem_set_def filled_def inreg_def mem_set_from_eq)

lemma mem_cpy_up_eq:
  assumes "i \<le> sz" and "dst < src" and "unat src + unat sz \<le> 4294967296"
  shows "mem_cpy_up dst src sz i m x =
     (if unat i \<le> unat (x - dst) \<and> unat (x - dst) < unat sz then m (src + (x - dst)) else m x)"
  using assms
proof (induction dst src sz i m rule: mem_cpy_up.induct)
  case (1 dst src sz i m)
  show ?case
  proof (cases "i < sz")
    case True
    then have i1: "i + 1 \<le> sz" "unat (i + 1) = Suc (unat i)"
      by (simp_all add: unat_Suc_below word_le_nat_alt word_less_nat_alt)
    have src_ne: "src + (x - dst) \<noteq> dst + i"
      if "Suc (unat i) \<le> unat (x - dst)" "unat (x - dst) < unat sz"
    proof
      assume "src + (x - dst) = dst + i"
      then have "unat (src + (x - dst)) = unat (dst + i)" by (rule arg_cong)
      moreover have "unat (src + (x - dst)) = unat src + unat (x - dst)"
        using that 1(4) by (simp add: unat_word_ariths)
      ultimately show False
        using that 1(3) unat_add_le [of dst i] by (simp add: word_less_nat_alt)
    qed
    define m' where "m' = store8 m (dst + i) (load8 m (src + i))"
    have m': "m' y = (if y = dst + i then m (src + i) else m y)" for y
      by (simp add: m'_def store8_apply load8_def)
    have "mem_cpy_up dst src sz i m x = mem_cpy_up dst src sz (i + 1) m' x"
      using True by (subst mem_cpy_up.simps) (simp add: m'_def)
    moreover note 1(1) [OF True i1(1) 1(3,4), folded m'_def]
    ultimately show ?thesis
      using True i1 src_ne at_offset [of x dst i] by (auto simp: m' word_less_nat_alt)
  next
    case False
    then show ?thesis
      by (subst mem_cpy_up.simps) (auto simp: word_less_nat_alt)
  qed
qed

lemma mem_cpy_down_eq:
  assumes "src \<le> dst" and "unat dst + unat i \<le> 4294967296"
  shows "mem_cpy_down dst src i m x =
     (if unat (x - dst) < unat i then m (src + (x - dst)) else m x)"
  using assms
proof (induction dst src i m rule: mem_cpy_down.induct)
  case (1 dst src i m)
  show ?case
  proof (cases "i = 0")
    case True
    then show ?thesis by (subst mem_cpy_down.simps) simp
  next
    case False
    then have i1: "unat (i - 1) = unat i - 1" "0 < unat i" by (simp_all add: unat_pred unat_gt_0)
    have src_ne: "src + (x - dst) \<noteq> dst + (i - 1)" if "unat (x - dst) < unat i - 1"
    proof
      assume "src + (x - dst) = dst + (i - 1)"
      then have "unat (src + (x - dst)) = unat (dst + (i - 1))" by (rule arg_cong)
      moreover have "unat (dst + (i - 1)) = unat dst + (unat i - 1)"
        using 1(3) i1 by (simp add: unat_word_ariths)
      ultimately show False
        using that 1(2) unat_add_le [of src "x - dst"] by (simp add: word_le_nat_alt)
    qed
    define m' where "m' = store8 m (dst + (i - 1)) (load8 m (src + (i - 1)))"
    have m': "m' y = (if y = dst + (i - 1) then m (src + (i - 1)) else m y)" for y
      by (simp add: m'_def store8_apply load8_def)
    have "mem_cpy_down dst src i m x = mem_cpy_down dst src (i - 1) m' x"
      using False by (subst mem_cpy_down.simps) (simp add: m'_def)
    moreover have "unat dst + unat (i - 1) \<le> 4294967296" using 1(3) i1 by simp
    moreover note 1(1) [OF False 1(2) this, folded m'_def]
    ultimately show ?thesis
      using i1 src_ne at_offset [of x dst "i - 1"] by (auto simp: m')
  qed
qed

lemma mem_cpy_moved:
  assumes "unat dst + unat sz \<le> 4294967296" and "unat src + unat sz \<le> 4294967296"
  shows "mem_cpy dst src sz m = moved dst src (unat sz) m"
  using assms mem_cpy_up_eq [of 0 sz dst src] mem_cpy_down_eq [of src dst sz]
  by (auto simp: fun_eq_iff mem_cpy_def moved_def inreg_def not_less)

lemma load16_moved: "unat k + 2 \<le> n \<Longrightarrow> load16 (moved dst src n m) (dst + k) = load16 m (src + k)"
  using unat_add_le [of k 1]
  by (simp add: load16_def moved_def inreg_def add.assoc)

lemma moved_outside: "\<not> inreg dst n x \<Longrightarrow> moved dst src n m x = m x"
  by (simp add: moved_def)

text \<open>Whatever the arguments, nothing but the destination is written.\<close>

lemma inreg_at: "i < n \<Longrightarrow> inreg a (unat n) (a + i)"
  by (simp add: inreg_def word_less_nat_alt)

lemma store8_outside: "\<not> inreg a n x \<Longrightarrow> inreg a n b \<Longrightarrow> store8 m b v x = m x"
  by (auto simp: store8_def)

lemma mem_cpy_up_outside: "\<not> inreg dst (unat sz) x \<Longrightarrow> mem_cpy_up dst src sz i m x = m x"
proof (induction dst src sz i m rule: mem_cpy_up.induct)
  case (1 dst src sz i m)
  show ?case
  proof (cases "i < sz")
    case True
    then show ?thesis
      using 1 store8_outside [OF 1(2) inreg_at [OF True]] by (subst mem_cpy_up.simps) simp
  qed (subst mem_cpy_up.simps, simp)
qed

lemma mem_cpy_down_outside:
  "i \<le> sz \<Longrightarrow> \<not> inreg dst (unat sz) x \<Longrightarrow> mem_cpy_down dst src i m x = m x"
proof (induction dst src i m rule: mem_cpy_down.induct)
  case (1 dst src i m)
  show ?case
  proof (cases "i = 0")
    case True
    then show ?thesis by (subst mem_cpy_down.simps) simp
  next
    case False
    then have lt: "i - 1 < sz"
      using 1(2) count_down [of i] by (simp add: word_less_nat_alt word_le_nat_alt)
    then have "i - 1 \<le> sz" by simp
    with 1 False store8_outside [OF 1(3) inreg_at [OF lt]] show ?thesis
      by (subst mem_cpy_down.simps) simp
  qed
qed

lemma mem_cpy_outside: "\<not> inreg dst (unat sz) x \<Longrightarrow> mem_cpy dst src sz m x = m x"
  using mem_cpy_up_outside mem_cpy_down_outside [of sz sz] by (simp add: mem_cpy_def)

end
