(* ===== verification/Samples.thy ===== *)
theory Samples
  imports Machine
begin

text \<open>
  A concrete link map and a concrete state, at which the properties of the components are
  instantiated. The addresses are those of a kernel loaded at 1 MiB with its screen at 0xB8000.
\<close>

text \<open>Literals lie 64 bytes apart; \<open>sample_rodata\<close> is a memory with these literals and nothing else.\<close>

definition sample_literals :: "string list" where
  "sample_literals = [''hlt'', ''mov'', ''push'', ''pop'', ''cmp'', ''r0'', ''r1'', ''r2'', ''r3'', ''ip'', ''sp'', ''bp'',
     ''risbp'', ''0123456789'', ''test'']"

definition sample_literal :: "string \<Rightarrow> addr" where
  "sample_literal cs = 0x107000 + 64 * of_nat (length (takeWhile (\<lambda>x. x \<noteq> cs) sample_literals))"

definition sample_rodata :: mem where
  "sample_rodata x =
     (let k = unat (x - 0x107000) div 64; j = unat (x - 0x107000) mod 64
      in if k < length sample_literals \<and> j < length (sample_literals ! k)
         then of_char (sample_literals ! k ! j) else 0)"

definition sample_syms :: syms where
  "sample_syms = \<lparr>s_mb_free = 0x101000, s_used = 0x101100, s_mm_free = 0x101200, s_mm_used = 0x101210,
     s_itoa_buf = 0x101300, s_digits = 0x101400, s_zero = 0x101420, s_kbdus = 0x101500,
     s_kb_buffer = 0x101600, s_gdt = 0x101800, s_gp = 0x101820, s_idt = 0x102000, s_idtp = 0x102800,
     s_exception_messages = 0x102900, s_irq_routines = 0x102A00, s_days_in_month = 0x102B00,
     s_vm_ops = 0x103000, s_vm_pool = 0x103800, s_literal = sample_literal,
     s_proc_status_names = 0x104C40, f_isr = (\<lambda>k. 0x104000 + 16 * of_nat k),
     f_irq = (\<lambda>k. 0x104800 + 16 * of_nat k), f_timer_handler = 0x105000,
     f_keyboard_handler = 0x105100, f_vm_op = (\<lambda>k. 0x106000 + 16 * of_nat k),
     f_test_task_A = 0x106100, f_test_task_B = 0x106200\<rparr>"

lemma sample_syms_simps [simp]:
  "s_mb_free sample_syms = 0x101000" "s_used sample_syms = 0x101100"
  "s_mm_free sample_syms = 0x101200" "s_mm_used sample_syms = 0x101210"
  "s_itoa_buf sample_syms = 0x101300" "s_digits sample_syms = 0x101400"
  "s_zero sample_syms = 0x101420" "s_kbdus sample_syms = 0x101500"
  "s_kb_buffer sample_syms = 0x101600" "s_gdt sample_syms = 0x101800"
  "s_gp sample_syms = 0x101820" "s_idt sample_syms = 0x102000" "s_idtp sample_syms = 0x102800"
  "s_exception_messages sample_syms = 0x102900" "s_irq_routines sample_syms = 0x102A00"
  "s_days_in_month sample_syms = 0x102B00" "s_vm_ops sample_syms = 0x103000"
  "s_vm_pool sample_syms = 0x103800" "f_vm_op sample_syms k = 0x106000 + 16 * of_nat k"
  "f_timer_handler sample_syms = 0x105000"
  "f_keyboard_handler sample_syms = 0x105100" "s_literal sample_syms = sample_literal"
  by (simp_all add: sample_syms_def)

definition sample_term :: term_t where
  "sample_term = \<lparr>t_width = 80, t_height = 25, t_color = 7, xpos = 0, ypos = 0, t_buffer = 0xB8000\<rparr>"

lemma sample_term_simps [simp]:
  "t_width sample_term = 80" "t_height sample_term = 25" "t_color sample_term = 7"
  "xpos sample_term = 0" "ypos sample_term = 0" "t_buffer sample_term = 0xB8000"
  by (simp_all add: sample_term_def)

definition sample_state :: kstate where
  "sample_state = \<lparr>ram = (\<lambda>_. 0), io = [], tty0 = sample_term, uptime = 0, t_hz = 100, kb_i = 0,
     kb_shifted = 0, kb_buffer_pending = 0, mem_size = 0, mm_heap_bottom = 0, mm_heap_top = 0,
     task_que = \<lparr>tq_tasks = 0, tq_head = 0, tq_tail = 0, tq_current = 0\<rparr>, floppy_irq = 0,
     current_drive = 0, gdtr = (0, 0), idtr = (0, 0), code_seg = 8, data_seg = 16\<rparr>"

lemma sample_state_simps [simp]:
  "ram sample_state = (\<lambda>_. 0)" "io sample_state = []" "tty0 sample_state = sample_term"
  "uptime sample_state = 0" "t_hz sample_state = 100" "kb_i sample_state = 0"
  "kb_shifted sample_state = 0" "kb_buffer_pending sample_state = 0"
  "floppy_irq sample_state = 0" "current_drive sample_state = 0"
  by (simp_all add: sample_state_def)

lemma loads_of_zero [simp]:
  "load8 (\<lambda>_. 0) a = 0" "load16 (\<lambda>_. 0) a = 0" "load32 (\<lambda>_. 0) a = 0"
  by (simp_all add: load8_def load16_def load32_def)

end
