(* ===== verification/Str.thy ===== *)
theory Str
  imports Samples
begin

text \<open>
  The string library of \<^verbatim>\<open>str.c\<close> and \<open>strlen\<close> of \<^verbatim>\<open>term.c\<close>. Strings are read where they lie in
  memory; a scan that meets no NUL does not return (\<open>None\<close>).
\<close>

section \<open>Definitions\<close>

partial_function (option) strlen_from :: "mem \<Rightarrow> addr \<Rightarrow> addr \<Rightarrow> addr option" where
  "strlen_from m str r = (if load8 m (str + r) \<noteq> 0 then strlen_from m str (r + 1) else Some r)"

definition strlen :: "mem \<Rightarrow> addr \<Rightarrow> addr option" where
  "strlen m str = strlen_from m str 0"

partial_function (option) strcmp :: "mem \<Rightarrow> addr \<Rightarrow> addr \<Rightarrow> cint option" where
  "strcmp m p1 p2 =
     (if load8 m p1 \<noteq> 0 then
        (if load8 m p2 = 0 then Some 0
         else if load8 m p1 < load8 m p2 then Some 0
         else if load8 m p2 < load8 m p1 then Some 0
         else strcmp m (p1 + 1) (p2 + 1))
      else if load8 m p2 \<noteq> 0 then Some 0
      else Some 1)"

partial_function (option) strchr :: "mem \<Rightarrow> addr \<Rightarrow> byte \<Rightarrow> addr option" where
  "strchr m s c =
     (if load8 m s \<noteq> c then (if load8 m s = 0 then Some 0 else strchr m (s + 1) c) else Some s)"

partial_function (option) atoi_from :: "mem \<Rightarrow> addr \<Rightarrow> cint \<Rightarrow> cint \<Rightarrow> cint option" where
  "atoi_from m str i res =
     (if load8 m (str + i) \<noteq> 0
      then atoi_from m str (i + 1) (res * 10 + scast (load8 m (str + i)) - 48)
      else Some res)"

definition atoi :: "mem \<Rightarrow> addr \<Rightarrow> cint option" where
  "atoi m str = atoi_from m str 0 0"

definition itoa_digits :: "byte list" where
  "itoa_digits = bytes_of ''0123456789abcdef''"

definition itoa_digit :: "syms \<Rightarrow> mem \<Rightarrow> cint \<Rightarrow> byte" where
  "itoa_digit L m k = (if unat k < 16 then itoa_digits ! unat k else load8 m (s_digits L + k))"

function itoa_loop :: "syms \<Rightarrow> cint \<Rightarrow> cint \<Rightarrow> cint \<Rightarrow> mem \<Rightarrow> cint \<times> mem" where
  "itoa_loop L base val i m =
     (if val \<noteq> 0 \<and> i \<noteq> 0
      then itoa_loop L base (c_div val base) (i - 1)
             (store8 m (s_itoa_buf L + i) (itoa_digit L m (c_mod val base)))
      else (i, m))"
  by pat_completeness auto
termination
  by (relation "measure (\<lambda>(L, base, val, i, m). unat i)") (simp_all add: count_down)

declare itoa_loop.simps [simp del]

text \<open>The pointer returned, with the memory: the digits are written into a static buffer.\<close>

definition itoa :: "syms \<Rightarrow> cint \<Rightarrow> cint \<Rightarrow> mem \<Rightarrow> (addr \<times> mem) option" where
  "itoa L val base m =
     (if val = 0 then Some (s_zero L, m)
      else if base = 0 then None
      else let (i, m') = itoa_loop L base val 64 m in Some (s_itoa_buf L + (i + 1), m'))"

section \<open>Properties\<close>

lemma strlen_from_cstr:
  "cstr_at m (str + r) cs \<Longrightarrow> strlen_from m str r = Some (r + of_nat (length cs))"
proof (induction cs arbitrary: r)
  case Nil
  then show ?case by (simp add: strlen_from.simps [of m str r] load8_def)
next
  case (Cons c cs)
  then show ?case
    by (simp add: strlen_from.simps [of m str r] load8_def add.assoc)
qed

lemma strlen_cstr: "cstr_at m str cs \<Longrightarrow> strlen m str = Some (of_nat (length cs))"
  using strlen_from_cstr [of m str 0 cs] by (simp add: strlen_def)

lemma strcmp_cstr:
  "cstr_at m p cs \<Longrightarrow> cstr_at m q ds \<Longrightarrow> strcmp m p q = Some (if cs = ds then 1 else 0)"
proof (induction cs arbitrary: p q ds)
  case Nil
  then show ?case
    by (cases ds) (auto simp: strcmp.simps [of m p q] load8_def)
next
  case (Cons c cs)
  then show ?case
    by (cases ds) (auto simp: strcmp.simps [of m p q] load8_def)
qed

lemma strchr_cstr:
  "cstr_at m s cs \<Longrightarrow> c \<noteq> 0 \<Longrightarrow>
     strchr m s c = Some (if c \<in> set cs then s + of_nat (length (takeWhile (\<lambda>x. x \<noteq> c) cs)) else 0)"
proof (induction cs arbitrary: s)
  case Nil
  then show ?case by (simp add: strchr.simps [of m s c] load8_def)
next
  case (Cons d cs)
  then show ?case by (auto simp: strchr.simps [of m s c] load8_def add.assoc)
qed

lemma strchr_nul: "cstr_at m s cs \<Longrightarrow> strchr m s 0 = Some (s + of_nat (length cs))"
proof (induction cs arbitrary: s)
  case Nil
  then show ?case by (simp add: strchr.simps [of m s 0] load8_def)
next
  case (Cons d cs)
  then show ?case by (simp add: strchr.simps [of m s 0] load8_def add.assoc)
qed

text \<open>Decimal value of a digit string, as the loop folds it.\<close>

definition dec_value :: "cint \<Rightarrow> byte list \<Rightarrow> cint" where
  "dec_value r cs = foldl (\<lambda>r c. r * 10 + scast c - 48) r cs"

lemma atoi_from_cstr:
  "cstr_at m (str + i) cs \<Longrightarrow> atoi_from m str i r = Some (dec_value r cs)"
proof (induction cs arbitrary: i r)
  case Nil
  then show ?case by (simp add: atoi_from.simps [of m str i] load8_def dec_value_def)
next
  case (Cons c cs)
  then show ?case
    by (simp add: atoi_from.simps [of m str i] load8_def dec_value_def add.assoc)
qed

lemma atoi_cstr: "cstr_at m str cs \<Longrightarrow> atoi m str = Some (dec_value 0 cs)"
  using atoi_from_cstr [of m str 0 cs] by (simp add: atoi_def)

subsection \<open>Decimal and hexadecimal output\<close>

fun digits_of :: "nat \<Rightarrow> nat \<Rightarrow> nat list" where
  "digits_of b n = (if n = 0 \<or> b < 2 then [] else digits_of b (n div b) @ [n mod b])"

declare digits_of.simps [simp del]

definition itoa_chars :: "nat \<Rightarrow> nat \<Rightarrow> byte list" where
  "itoa_chars b n = map (\<lambda>d. itoa_digits ! d) (digits_of b n)"

lemma length_digits_of: "n < 2 ^ k \<Longrightarrow> length (digits_of b n) \<le> k"
proof (induction k arbitrary: n)
  case 0
  then show ?case by (simp add: digits_of.simps)
next
  case (Suc k)
  show ?case
  proof (cases "n = 0 \<or> b < 2")
    case True
    then show ?thesis by (auto simp: digits_of.simps [of b n])
  next
    case False
    then have "n div b \<le> n div 2" by (simp add: div_le_mono2)
    also have "\<dots> < 2 ^ k" using Suc.prems by simp
    finally show ?thesis using False Suc.IH by (simp add: digits_of.simps [of b n])
  qed
qed

lemma digits_of_less: "d \<in> set (digits_of b n) \<Longrightarrow> d < b"
  by (induction b n rule: digits_of.induct) (subst (asm) digits_of.simps, auto split: if_splits)

lemma digits_of_nonempty: "0 < n \<Longrightarrow> 2 \<le> b \<Longrightarrow> digits_of b n \<noteq> []"
  by (simp add: digits_of.simps [of b n])

lemma itoa_digit_small: "unat k < 16 \<Longrightarrow> itoa_digit L m k = itoa_digits ! unat k"
  by (simp add: itoa_digit_def)

lemma itoa_loop_overlay:
  assumes "unat val < 2147483648" and "2 \<le> unat base" and "unat base \<le> 16"
    and "length (digits_of (unat base) (unat val)) \<le> unat i"
  shows "itoa_loop L base val i m =
    (i - of_nat (length (digits_of (unat base) (unat val))),
     overlay m (s_itoa_buf L + (i - of_nat (length (digits_of (unat base) (unat val))) + 1))
       (itoa_chars (unat base) (unat val)))"
  using assms
proof (induction L base val i m rule: itoa_loop.induct)
  case (1 L base val i m)
  let ?b = "unat base" and ?v = "unat val"
  show ?case
  proof (cases "val = 0")
    case True
    then show ?thesis
      by (simp add: itoa_loop.simps [of L base 0] digits_of.simps [of ?b 0] itoa_chars_def)
  next
    case False
    let ?ds = "digits_of ?b (?v div ?b)"
    have ds: "digits_of ?b ?v = ?ds @ [?v mod ?b]"
      using False 1(3) by (subst digits_of.simps) (simp add: unat_gt_0)
    have i: "i \<noteq> 0" using 1(5) ds by auto
    then have i1: "unat (i - 1) = unat i - 1" by (rule unat_pred)
    have q: "unat (c_div val base) = ?v div ?b" and r: "unat (c_mod val base) = ?v mod ?b"
      using 1(2,4) by (simp_all add: c_div_nonneg c_mod_nonneg)
    have q31: "?v div ?b < 2147483648" using 1(2) div_le_dividend [of ?v ?b] by linarith
    have r16: "?v mod ?b < 16" using 1(3,4) mod_less_divisor [of ?b ?v] by linarith
    have len: "length ?ds < 4294967296" using length_digits_of [of "?v div ?b" 31 ?b] q31 by simp
    have "itoa_loop L base val i m =
        itoa_loop L base (c_div val base) (i - 1)
          (store8 m (s_itoa_buf L + i) (itoa_digits ! (?v mod ?b)))"
      using False i r r16 by (subst itoa_loop.simps) (simp add: itoa_digit_small)
    also have "\<dots> = (i - 1 - of_nat (length ?ds),
        overlay (store8 m (s_itoa_buf L + i) (itoa_digits ! (?v mod ?b)))
          (s_itoa_buf L + (i - 1 - of_nat (length ?ds) + 1)) (itoa_chars ?b (?v div ?b)))"
      using 1(1) [of] False i 1(3,4,5) q q31 i1 ds r r16 by (simp add: itoa_digit_small)
    finally show ?thesis
      using len overlay_snoc [of "itoa_chars ?b (?v div ?b)" m
          "s_itoa_buf L + (i - of_nat (length ?ds))" "itoa_digits ! (?v mod ?b)"]
      by (simp add: ds itoa_chars_def algebra_simps)
  qed
qed

lemma itoa_overlay:
  assumes "0 < unat val" and "unat val < 2147483648" and "2 \<le> unat base" and "unat base \<le> 16"
  defines "k \<equiv> length (digits_of (unat base) (unat val))"
  shows "itoa L val base m =
    Some (s_itoa_buf L + (65 - of_nat k),
          overlay m (s_itoa_buf L + (65 - of_nat k)) (itoa_chars (unat base) (unat val)))"
proof -
  have "k \<le> 31" unfolding k_def using assms(2) by (intro length_digits_of) simp
  then have "itoa_loop L base val 64 m =
    (64 - of_nat k, overlay m (s_itoa_buf L + (64 - of_nat k + 1)) (itoa_chars (unat base) (unat val)))"
    unfolding k_def using assms by (intro itoa_loop_overlay) simp_all
  moreover have "val \<noteq> 0" "base \<noteq> 0" using assms by auto
  ultimately show ?thesis by (simp add: itoa_def algebra_simps)
qed

lemma dec_value_snoc: "dec_value r (cs @ [c]) = dec_value r cs * 10 + scast c - 48"
  by (simp add: dec_value_def)

lemma itoa_digits_less_10: "d < 10 \<Longrightarrow> scast (itoa_digits ! d) = (48 + of_nat d :: cint)"
  by (auto simp: itoa_digits_def less_Suc_eq numeral_eq_Suc)

lemma dec_value_itoa_chars: "dec_value 0 (itoa_chars 10 n) = of_nat n"
proof (induction n rule: less_induct)
  case (less n)
  show ?case
  proof (cases "n = 0")
    case True
    then show ?thesis by (simp add: itoa_chars_def digits_of.simps dec_value_def)
  next
    case False
    then have "itoa_chars 10 n = itoa_chars 10 (n div 10) @ [itoa_digits ! (n mod 10)]"
      by (simp add: itoa_chars_def digits_of.simps [of 10 n])
    then have "dec_value 0 (itoa_chars 10 n) = of_nat (n div 10) * 10 + of_nat (n mod 10)"
      using less [of "n div 10"] False by (simp add: dec_value_snoc itoa_digits_less_10)
    also have "\<dots> = of_nat (n div 10 * 10 + n mod 10)"
      by (simp only: of_nat_add of_nat_mult of_nat_numeral)
    also have "\<dots> = of_nat n"
      by simp
    finally show ?thesis .
  qed
qed

lemma itoa_chars_nonzero: "b \<le> 16 \<Longrightarrow> 0 \<notin> set (itoa_chars b n)"
proof -
  assume b: "b \<le> 16"
  have "0 \<notin> set itoa_digits" and len: "length itoa_digits = 16"
    by (simp_all add: itoa_digits_def)
  then have "itoa_digits ! d \<noteq> 0" if "d < 16" for d
    using that by (metis nth_mem)
  then show ?thesis using b digits_of_less [of _ b n] by (fastforce simp: itoa_chars_def)
qed

subsection \<open>Correctness\<close>

lemma itoa_region:
  assumes "length bs = k" and "k \<le> 64" and "\<not> inreg (b + 1) 64 x"
  shows "overlay m (b + (65 - of_nat k)) bs x = m x"
proof -
  have u: "unat (64 - of_nat k :: addr) = 64 - k"
    using assms(2) by (simp add: unat_sub unat_of_nat take_bit_eq_mod word_le_nat_alt)
  have "\<not> inreg (b + 1 + (64 - of_nat k)) k x"
    by (rule inreg_fields(1) [OF assms(3)]) (use u assms(2) in simp)
  moreover have "b + 1 + (64 - of_nat k) = b + (65 - of_nat k)" by simp
  ultimately have "\<not> inreg (b + (65 - of_nat k)) (length bs) x"
    using assms(1) by simp
  then show ?thesis by (simp add: overlay_def)
qed

text \<open>C26. A positive \<open>int\<close> printed in decimal reads back as itself, provided the byte 65 past
  the start of the digit buffer, which is outside it, is NUL; the printing writes bytes 1 to 64 from the
  start of the buffer and nothing else.\<close>

theorem itoa_atoi:
  assumes "0 < sint val" and "m (s_itoa_buf L + 65) = 0"
  shows "\<exists>p m'. itoa L val 10 m = Some (p, m') \<and> atoi m' p = Some val
    \<and> (\<forall>x. inreg (s_itoa_buf L + 1) 64 x \<or> m' x = m x)"
proof -
  let ?k = "length (digits_of 10 (unat val))" and ?cs = "itoa_chars 10 (unat val)"
  let ?p = "s_itoa_buf L + (65 - of_nat ?k)" and ?m = "overlay m (s_itoa_buf L + (65 - of_nat ?k)) ?cs"
  have v: "0 < unat val" "unat val < 2147483648"
    using assms(1) by (simp_all add: sint_pos_unat)
  then have it: "itoa L val 10 m = Some (?p, ?m)"
    using itoa_overlay [of val 10 L m] by simp
  have k: "?k \<le> 31" using v(2) by (intro length_digits_of) simp
  have len: "length ?cs = ?k" by (simp add: itoa_chars_def)
  have "m (?p + of_nat (length ?cs)) = 0"
    using assms(2) len by simp
  then have "cstr_at ?m ?p ?cs"
    using k len by (intro cstr_at_overlay) (simp_all add: itoa_chars_nonzero)
  from atoi_cstr [OF this] have "atoi ?m ?p = Some val"
    by (simp add: dec_value_itoa_chars)
  moreover have "inreg (s_itoa_buf L + 1) 64 x \<or> ?m x = m x" for x
    using itoa_region [OF len, of "s_itoa_buf L" x m] k by auto
  ultimately show ?thesis using it by blast
qed

lemma itoa_atoi_witness:
  "\<exists>p m'. itoa sample_syms 1234567 10 (\<lambda>_. 0) = Some (p, m') \<and> atoi m' p = Some 1234567"
proof -
  have "0 < sint (1234567 :: cint)" by simp
  from itoa_atoi [OF this, of "\<lambda>_. 0" sample_syms] show ?thesis by auto
qed

text \<open>Printing a positive number writes its last digit one byte past the end of the
  64-byte buffer.\<close>

theorem itoa_overruns:
  assumes "0 < sint val" and "2 \<le> unat base" and "unat base \<le> 16"
  shows "\<exists>p m'. itoa L val base m = Some (p, m')
    \<and> m' (s_itoa_buf L + 64) = itoa_digits ! (unat val mod unat base)"
proof -
  let ?b = "unat base" and ?cs = "itoa_chars (unat base) (unat val)"
  let ?k = "length (digits_of (unat base) (unat val))"
  let ?p = "s_itoa_buf L + (65 - of_nat ?k)"
  have v: "0 < unat val" "unat val < 2147483648"
    using assms(1) by (simp_all add: sint_pos_unat)
  then have it: "itoa L val base m = Some (?p, overlay m ?p ?cs)"
    using assms by (intro itoa_overlay) simp_all
  have ds: "digits_of ?b (unat val) = digits_of ?b (unat val div ?b) @ [unat val mod ?b]"
    using v(1) assms(2) by (subst digits_of.simps) simp
  have k: "?k \<le> 31" using v(2) by (intro length_digits_of) simp
  let ?i = "length (digits_of ?b (unat val div ?b))"
  have "overlay m ?p ?cs (?p + of_nat ?i) = ?cs ! ?i"
    using k by (intro overlay_inside) (simp_all add: itoa_chars_def ds)
  moreover have "?p + of_nat ?i = s_itoa_buf L + 64" by (simp add: ds)
  moreover have "?cs ! ?i = itoa_digits ! (unat val mod ?b)"
    by (simp add: itoa_chars_def ds nth_append)
  ultimately show ?thesis using it by auto
qed

lemma itoa_overruns_witness:
  "\<exists>p m'. itoa sample_syms 255 16 (\<lambda>_. 0) = Some (p, m') \<and> m' 0x101340 = 102"
proof -
  have "0 < sint (255 :: cint)" by simp
  moreover have "itoa_digits ! 15 = 102" by (simp add: itoa_digits_def)
  ultimately show ?thesis
    using itoa_overruns [of 255 16 sample_syms "\<lambda>_. 0"] by auto
qed

text \<open>On two terminated strings \<open>strcmp\<close> returns, and returns 1 exactly when they
  are equal, else 0 (the opposite of the C library's convention).\<close>

theorem strcmp_decides:
  assumes "cstr_at m p cs" and "cstr_at m q ds"
  shows "strcmp m p q = Some (if cs = ds then 1 else 0)"
  using assms by (rule strcmp_cstr)

lemma strcmp_decides_witness:
  "strcmp ((\<lambda>_. 0)(16 := 104, 17 := 105, 32 := 104, 33 := 106)) 16 32 = Some 0"
  using strcmp_decides [of "(\<lambda>_. 0)(16 := 104, 17 := 105, 32 := 104, 33 := 106)" 16 "[104, 105]"
      32 "[104, 106]"]
  by simp

section \<open>mem\_cpy\<close>

text \<open>C18. On ranges that do not run over the top of memory \<open>mem_cpy\<close> leaves in the
  destination what the source held before, whether or not the two overlap and whichever is lower,
  and writes nothing else.\<close>

theorem mem_cpy_overlap:
  assumes "unat dst + unat sz \<le> 4294967296" and "unat src + unat sz \<le> 4294967296"
  shows "(\<forall>i < unat sz. mem_cpy dst src sz m (dst + of_nat i) = m (src + of_nat i))
    \<and> (\<forall>x. inreg dst (unat sz) x \<or> mem_cpy dst src sz m x = m x)"
proof (intro conjI allI impI)
  show "mem_cpy dst src sz m (dst + of_nat i) = m (src + of_nat i)" if "i < unat sz" for i
  proof -
    have "i < 4294967296" using that unat_less_4G [of sz] by linarith
    then show ?thesis
      using that by (simp add: mem_cpy_moved [OF assms] moved_def inreg_def unat_of_nat take_bit_eq_mod)
  qed
  show "inreg dst (unat sz) x \<or> mem_cpy dst src sz m x = m x" for x
    using mem_cpy_outside by blast
qed

lemma mem_cpy_overlap_witness:
  "mem_cpy 0x1001 0x1000 3 ((\<lambda>_. 0)(0x1000 := 7, 0x1001 := 8, 0x1002 := 9)) 0x1003 = 9"
proof -
  let ?m = "(\<lambda>_. 0)(0x1000 := 7, 0x1001 := 8, 0x1002 := (9 :: byte))"
  have "unat (0x1001 :: addr) + unat (3 :: addr) \<le> 4294967296"
    "unat (0x1000 :: addr) + unat (3 :: addr) \<le> 4294967296" by simp_all
  from mem_cpy_overlap [OF this, of ?m, THEN conjunct1, rule_format, of 2]
  show ?thesis by simp
qed

end
