(* ===== verification/Term.thy ===== *)
theory Term
  imports Str
begin

text \<open>
  The text terminal of \<^verbatim>\<open>term.c\<close>: the terminal struct is the field \<open>tty0\<close> (every caller passes
  \<^verbatim>\<open>&tty0\<close>), the frame buffer is memory at \<open>t_buffer\<close>, the hardware cursor is port output.
\<close>

section \<open>Colours and cells\<close>

datatype vga_color = COLOR_BLACK | COLOR_BLUE | COLOR_GREEN | COLOR_CYAN | COLOR_RED
  | COLOR_MAGENTA | COLOR_BROWN | COLOR_LIGHT_GREY | COLOR_DARK_GREY | COLOR_LIGHT_BLUE
  | COLOR_LIGHT_GREEN | COLOR_LIGHT_CYAN | COLOR_LIGHT_RED | COLOR_LIGHT_MAGENTA
  | COLOR_LIGHT_BROWN | COLOR_WHITE

primrec vga_code :: "vga_color \<Rightarrow> cint" where
  "vga_code COLOR_BLACK = 0"
| "vga_code COLOR_BLUE = 1"
| "vga_code COLOR_GREEN = 2"
| "vga_code COLOR_CYAN = 3"
| "vga_code COLOR_RED = 4"
| "vga_code COLOR_MAGENTA = 5"
| "vga_code COLOR_BROWN = 6"
| "vga_code COLOR_LIGHT_GREY = 7"
| "vga_code COLOR_DARK_GREY = 8"
| "vga_code COLOR_LIGHT_BLUE = 9"
| "vga_code COLOR_LIGHT_GREEN = 10"
| "vga_code COLOR_LIGHT_CYAN = 11"
| "vga_code COLOR_LIGHT_RED = 12"
| "vga_code COLOR_LIGHT_MAGENTA = 13"
| "vga_code COLOR_LIGHT_BROWN = 14"
| "vga_code COLOR_WHITE = 15"

definition make_color :: "vga_color \<Rightarrow> vga_color \<Rightarrow> byte" where
  "make_color fg bg = ucast (vga_code fg OR push_bit 4 (vga_code bg))"

text \<open>\<open>char\<close> is signed here: storing it in an unsigned 16-bit variable extends the sign.\<close>

definition make_vgaentry :: "byte \<Rightarrow> byte \<Rightarrow> 16 word" where
  "make_vgaentry color c = scast c OR push_bit 8 (ucast color)"

section \<open>Operations\<close>

definition cell_addr :: "term_t \<Rightarrow> addr \<Rightarrow> addr" where
  "cell_addr t index = t_buffer t + 2 * index"

definition term_putcell :: "byte \<Rightarrow> addr \<Rightarrow> kstate \<Rightarrow> kstate" where
  "term_putcell c index s =
     with_ram (\<lambda>m. store16 m (cell_addr (tty0 s) index) (make_vgaentry (t_color (tty0 s)) c)) s"

definition term_putentryat :: "byte \<Rightarrow> addr \<Rightarrow> addr \<Rightarrow> kstate \<Rightarrow> kstate" where
  "term_putentryat c x y s = term_putcell c (y * t_width (tty0 s) + x) s"

function term_clear_row :: "byte \<Rightarrow> addr \<Rightarrow> addr \<Rightarrow> kstate \<Rightarrow> kstate" where
  "term_clear_row c y x s =
     (if x < t_width (tty0 s)
      then term_clear_row c y (x + 1) (term_putcell c (y * t_width (tty0 s) + x) s) else s)"
  by pat_completeness auto
termination
  by (relation "measure (\<lambda>(c, y, x, s). unat (t_width (tty0 s)) - unat x)") (simp_all add: term_putcell_def count_up)

declare term_clear_row.simps [simp del]

lemma tty0_term_clear_row [simp]: "tty0 (term_clear_row c y x s) = tty0 s"
  by (induction c y x s rule: term_clear_row.induct)
    (subst term_clear_row.simps, simp add: term_putcell_def)

function term_clear_from :: "byte \<Rightarrow> addr \<Rightarrow> kstate \<Rightarrow> kstate" where
  "term_clear_from c y s =
     (if y < t_height (tty0 s) then term_clear_from c (y + 1) (term_clear_row c y 0 s) else s)"
  by pat_completeness auto
termination
  by (relation "measure (\<lambda>(c, y, s). unat (t_height (tty0 s)) - unat y)") (simp_all add: count_up)

declare term_clear_from.simps [simp del]

definition term_clear :: "byte \<Rightarrow> kstate \<Rightarrow> kstate" where
  "term_clear c s = term_clear_from c 0 s"

definition term_init ::
  "32 word \<Rightarrow> 32 word \<Rightarrow> vga_color \<Rightarrow> vga_color \<Rightarrow> addr \<Rightarrow> kstate \<Rightarrow> kstate" where
  "term_init w h fg bg buf s =
     term_clear 32 (s\<lparr>tty0 := \<lparr>t_width = w, t_height = h, t_color = make_color fg bg,
       xpos = 0, ypos = 0, t_buffer = buf\<rparr>\<rparr>)"

definition term_setcolor :: "byte \<Rightarrow> kstate \<Rightarrow> kstate" where
  "term_setcolor c s = s\<lparr>tty0 := (tty0 s)\<lparr>t_color := c\<rparr>\<rparr>"

definition term_scroll :: "kstate \<Rightarrow> kstate" where
  "term_scroll s = (let t = tty0 s in
     with_ram (mem_cpy (t_buffer t) (t_buffer t + 2 * t_width t) (t_width t * t_height t * 2)) s)"

definition update_cursor :: "cint \<Rightarrow> cint \<Rightarrow> kstate \<Rightarrow> kstate" where
  "update_cursor row col s =
     (let position = ucast (row * 80 + col) :: 16 word in
      outbs [(0x3D4, 0x0F), (0x3D5, ucast (position AND 0xFF)),
             (0x3D4, 0x0E), (0x3D5, ucast (drop_bit 8 position AND 0xFF))] s)"

abbreviation move_to :: "cint \<Rightarrow> cint \<Rightarrow> kstate \<Rightarrow> kstate" where
  "move_to x y s \<equiv> s\<lparr>tty0 := (tty0 s)\<lparr>xpos := x, ypos := y\<rparr>\<rparr>"

text \<open>The three stages before the character is drawn: control characters, wrap, scroll.\<close>

definition putchar_control :: "byte \<Rightarrow> kstate \<Rightarrow> kstate" where
  "putchar_control c s = (let t = tty0 s in
     if c = 10 then move_to 0 (ypos t + 1) s
     else if c = 8 then
       (if 0 < sint (xpos t)
        then term_putentryat 32 (xpos t - 1) (ypos t) (move_to (xpos t - 1) (ypos t) s) else s)
     else s)"

definition putchar_wrap :: "kstate \<Rightarrow> kstate" where
  "putchar_wrap s = (let t = tty0 s in
     if t_width t \<le> xpos t + 1 then move_to 0 (ypos t + 1) s else s)"

definition putchar_scroll :: "kstate \<Rightarrow> kstate" where
  "putchar_scroll s = (let t = tty0 s in
     if t_height t \<le> ypos t then (let s' = term_scroll s in move_to (xpos t) (ypos t - 1) s') else s)"

definition putchar_draw :: "byte \<Rightarrow> kstate \<Rightarrow> kstate" where
  "putchar_draw c s =
     (if c \<noteq> 10 \<and> c \<noteq> 8 then
        (let t = tty0 s; s' = term_putentryat c (xpos t) (ypos t) s in
         if xpos t < t_width t then move_to (xpos t + 1) (ypos t) s' else s')
      else s)"

definition term_putchar :: "byte \<Rightarrow> kstate \<Rightarrow> kstate" where
  "term_putchar c s =
     (let s' = putchar_draw c (putchar_scroll (putchar_wrap (putchar_control c s)))
      in update_cursor (ypos (tty0 s')) (xpos (tty0 s')) s')"

function term_write_from :: "addr \<Rightarrow> addr \<Rightarrow> addr \<Rightarrow> kstate \<Rightarrow> kstate" where
  "term_write_from data datalen i s =
     (if i < datalen
      then term_write_from data datalen (i + 1) (term_putchar (load8 (ram s) (data + i)) s) else s)"
  by pat_completeness auto
termination
  by (relation "measure (\<lambda>(data, datalen, i, s). unat datalen - unat i)") (simp_all add: count_up)

declare term_write_from.simps [simp del]

definition term_writestring :: "addr \<Rightarrow> kstate \<Rightarrow> kstate option" where
  "term_writestring data s =
     (case strlen (ram s) data of None \<Rightarrow> None | Some n \<Rightarrow> Some (term_write_from data n 0 s))"

text \<open>The same for a string literal, which the program keeps in read-only memory.\<close>

definition term_writelit :: "string \<Rightarrow> kstate \<Rightarrow> kstate" where
  "term_writelit cs s = fold term_putchar (bytes_of cs) s"

text \<open>\<open>kernel_panic\<close> (kernel.c) prints in grey on red, then spins: it does not return.\<close>

definition kernel_panic :: "string \<Rightarrow> kstate \<Rightarrow> 'a comp" where
  "kernel_panic c s =
     (let s1 = term_setcolor (make_color COLOR_LIGHT_GREY COLOR_RED) s;
          s2 = term_writelit ''\<newline>**KERNEL PANIC**:\<newline>     '' s1
      in Some (Inl (Panic (term_writelit c s2))))"

text \<open>The same with a message in memory; the message is scanned before it is printed.\<close>

definition kernel_panic_at :: "addr \<Rightarrow> kstate \<Rightarrow> 'a comp" where
  "kernel_panic_at c s =
     (let s1 = term_setcolor (make_color COLOR_LIGHT_GREY COLOR_RED) s;
          s2 = term_writelit ''\<newline>**KERNEL PANIC**:\<newline>     '' s1
      in case term_writestring c s2 of None \<Rightarrow> None | Some s3 \<Rightarrow> Some (Inl (Panic s3)))"

section \<open>Well-formed terminals and their frame\<close>

text \<open>
  \<open>geometry_ok\<close>: a screen of at least two columns whose cells fit in memory (the kernel's is 80 by
  25). \<open>cursor_ok\<close>: the cursor is on the screen. \<open>term_frame s s'\<close>: between the two states only
  cells of the frame buffer, the cursor and the port log have changed.
\<close>

definition geometry_ok :: "term_t \<Rightarrow> bool" where
  "geometry_ok t \<longleftrightarrow> 2 \<le> unat (t_width t) \<and> unat (t_width t) \<le> 4096
     \<and> 1 \<le> unat (t_height t) \<and> unat (t_height t) \<le> 4096"

definition cursor_ok :: "term_t \<Rightarrow> bool" where
  "cursor_ok t \<longleftrightarrow> xpos t < t_width t \<and> ypos t < t_height t"

definition frame_bytes :: "term_t \<Rightarrow> nat" where
  "frame_bytes t = 2 * (unat (t_width t) * unat (t_height t))"

definition in_frame :: "term_t \<Rightarrow> addr \<Rightarrow> bool" where
  "in_frame t a \<longleftrightarrow> inreg (t_buffer t) (frame_bytes t) a"

definition same_geometry :: "term_t \<Rightarrow> term_t \<Rightarrow> bool" where
  "same_geometry t u \<longleftrightarrow> t_width u = t_width t \<and> t_height u = t_height t
     \<and> t_color u = t_color t \<and> t_buffer u = t_buffer t"

text \<open>The part of the state no terminal routine touches.\<close>

definition rest :: "kstate \<Rightarrow> _" where
  "rest s = (uptime s, t_hz s, kb_i s, kb_shifted s, kb_buffer_pending s, mem_size s,
     mm_heap_bottom s, mm_heap_top s, task_que s, floppy_irq s, current_drive s,
     gdtr s, idtr s, code_seg s, data_seg s)"

lemma rest_simps [simp]:
  "rest (s\<lparr>ram := m\<rparr>) = rest s" "rest (s\<lparr>io := l\<rparr>) = rest s" "rest (s\<lparr>tty0 := t\<rparr>) = rest s"
  by (simp_all add: rest_def)

definition term_frame :: "kstate \<Rightarrow> kstate \<Rightarrow> bool" where
  "term_frame s s' \<longleftrightarrow> same_geometry (tty0 s) (tty0 s')
     \<and> (\<forall>a. \<not> in_frame (tty0 s) a \<longrightarrow> ram s' a = ram s a)
     \<and> rest s' = rest s"

lemma same_geometry_frame: "same_geometry t u \<Longrightarrow> in_frame u a = in_frame t a"
  by (simp add: same_geometry_def in_frame_def frame_bytes_def)

lemma same_geometry_ok: "same_geometry t u \<Longrightarrow> geometry_ok t \<Longrightarrow> geometry_ok u"
  by (simp add: same_geometry_def geometry_ok_def)

lemma term_frame_refl [simp]: "term_frame s s"
  by (simp add: term_frame_def same_geometry_def)

lemma term_frame_trans [trans]: "term_frame s t \<Longrightarrow> term_frame t u \<Longrightarrow> term_frame s u"
  using same_geometry_frame [of "tty0 s" "tty0 t"]
  by (auto simp: term_frame_def same_geometry_def)

lemma term_frame_geometry: "term_frame s s' \<Longrightarrow> geometry_ok (tty0 s) \<Longrightarrow> geometry_ok (tty0 s')"
  using same_geometry_ok by (auto simp: term_frame_def)

lemma cell_index:
  assumes "geometry_ok t" and "x < t_width t" and "y < t_height t"
  shows "unat (y * t_width t + x) = unat y * unat (t_width t) + unat x"
    and "unat y * unat (t_width t) + unat x < unat (t_width t) * unat (t_height t)"
    and "unat (2 * (y * t_width t + x)) = 2 * (unat y * unat (t_width t) + unat x)"
proof -
  let ?w = "unat (t_width t)" and ?h = "unat (t_height t)"
  have x: "unat x < ?w" and y: "unat y < ?h" using assms by (simp_all add: word_less_nat_alt)
  have "unat y * ?w + unat x < (unat y + 1) * ?w" using x by simp
  also have "\<dots> \<le> ?h * ?w" using y by (intro mult_right_mono) simp_all
  finally show lt: "unat y * ?w + unat x < ?w * ?h" by (simp add: mult.commute)
  have "?w * ?h \<le> 4096 * 4096"
    using assms(1) by (intro mult_mono) (auto simp: geometry_ok_def)
  then show "unat (y * t_width t + x) = unat y * ?w + unat x"
    and "unat (2 * (y * t_width t + x)) = 2 * (unat y * ?w + unat x)"
    using lt by (simp_all add: unat_word_ariths)
qed

lemma cell_in_frame:
  assumes "geometry_ok t" and "x < t_width t" and "y < t_height t"
    and "inreg (cell_addr t (y * t_width t + x)) 2 a"
  shows "in_frame t a"
  using assms(4) cell_index [OF assms(1-3)]
  unfolding in_frame_def frame_bytes_def cell_addr_def by (elim inreg_sub) simp

lemma frame_move_to [simp]: "term_frame s (move_to x y s)"
  by (simp add: term_frame_def same_geometry_def)

lemma frame_tty0: "term_frame s s' \<Longrightarrow> same_geometry (tty0 s') t \<Longrightarrow> term_frame s (s'\<lparr>tty0 := t\<rparr>)"
  by (auto simp: term_frame_def same_geometry_def)

lemma same_geometry_cursor [simp]:
  "same_geometry t t" "same_geometry t (t\<lparr>xpos := x\<rparr>)" "same_geometry t (t\<lparr>ypos := y\<rparr>)"
  "same_geometry t (t\<lparr>xpos := x, ypos := y\<rparr>)"
  by (simp_all add: same_geometry_def)

lemma frame_putentryat:
  assumes "geometry_ok (tty0 s)" and "x < t_width (tty0 s)" and "y < t_height (tty0 s)"
  shows "term_frame s (term_putentryat c x y s)"
  using assms cell_in_frame [OF assms]
  by (auto simp: term_frame_def same_geometry_def term_putentryat_def term_putcell_def
      intro!: c16.st_outside)

lemma frame_clear_row:
  "geometry_ok (tty0 s) \<Longrightarrow> y < t_height (tty0 s) \<Longrightarrow> term_frame s (term_clear_row c y x s)"
proof (induction c y x s rule: term_clear_row.induct)
  case (1 c y x s)
  show ?case
  proof (cases "x < t_width (tty0 s)")
    case True
    let ?s = "term_putcell c (y * t_width (tty0 s) + x) s"
    have f: "term_frame s ?s" and t: "tty0 ?s = tty0 s"
      using frame_putentryat [OF 1(2) True 1(3), of c] by (simp_all add: term_putentryat_def term_putcell_def)
    then have "term_frame ?s (term_clear_row c y (x + 1) ?s)" using 1 True by simp
    with f have "term_frame s (term_clear_row c y (x + 1) ?s)" by (rule term_frame_trans)
    then show ?thesis using True by (subst term_clear_row.simps) simp
  next
    case False
    then show ?thesis by (subst term_clear_row.simps) simp
  qed
qed

lemma frame_clear_from: "geometry_ok (tty0 s) \<Longrightarrow> term_frame s (term_clear_from c y s) \<and> tty0 (term_clear_from c y s) = tty0 s"
proof (induction c y s rule: term_clear_from.induct)
  case (1 c y s)
  show ?case
  proof (cases "y < t_height (tty0 s)")
    case True
    then show ?thesis
      using 1 frame_clear_row [OF 1(2) True, of c 0] term_frame_trans by (subst (1 2) term_clear_from.simps) simp
  next
    case False
    then show ?thesis by (subst (1 2) term_clear_from.simps) simp
  qed
qed

lemma tty0_putentryat [simp]: "tty0 (term_putentryat c x y s) = tty0 s"
  by (simp add: term_putentryat_def term_putcell_def)

lemma frame_unat:
  "geometry_ok t \<Longrightarrow> unat (t_width t * t_height t * 2) = frame_bytes t"
  "geometry_ok t \<Longrightarrow> frame_bytes t \<le> 33554432"
proof -
  assume g: "geometry_ok t"
  have "unat (t_width t) * unat (t_height t) \<le> 4096 * 4096"
    using g by (intro mult_mono) (auto simp: geometry_ok_def)
  then obtain p where p: "unat (t_width t) * unat (t_height t) = p" "p \<le> 16777216" by simp
  then have "unat (t_width t * t_height t) = p"
    by (simp add: unat_word_ariths)
  then show "unat (t_width t * t_height t * 2) = frame_bytes t"
    using p by (simp add: frame_bytes_def unat_word_ariths(2) [of "t_width t * t_height t"])
  show "frame_bytes t \<le> 33554432"
    using p by (simp add: frame_bytes_def)
qed

lemma frame_scroll: "geometry_ok (tty0 s) \<Longrightarrow> term_frame s (term_scroll s)"
  by (auto simp: term_frame_def same_geometry_def term_scroll_def Let_def in_frame_def
      frame_unat intro!: mem_cpy_outside)

lemma tty0_scroll [simp]: "tty0 (term_scroll s) = tty0 s"
  by (simp add: term_scroll_def Let_def)

lemma frame_update_cursor [simp]:
  "term_frame s (update_cursor r c s)" "tty0 (update_cursor r c s) = tty0 s"
  "ram (update_cursor r c s) = ram s"
  by (simp_all add: update_cursor_def outbs_eq term_frame_def same_geometry_def Let_def)

section \<open>term\_putchar keeps the cursor on the screen and writes only the screen\<close>

text \<open>What holds between the stages: the column may touch the right edge, the row the bottom one.\<close>

definition cursor_near :: "term_t \<Rightarrow> bool" where
  "cursor_near t \<longleftrightarrow> xpos t < t_width t \<and> ypos t \<le> t_height t
     \<and> (ypos t = t_height t \<longrightarrow> xpos t = 0)"

lemma control_stage:
  assumes g: "geometry_ok (tty0 s)" and c: "cursor_ok (tty0 s)"
  shows "term_frame s (putchar_control c s) \<and> cursor_near (tty0 (putchar_control c s))"
proof -
  let ?t = "tty0 s"
  have y: "ypos ?t + 1 \<le> t_height ?t"
    using c by (simp add: cursor_ok_def inc_le)
  have w: "0 < t_width ?t"
    using g by (auto simp: geometry_ok_def word_less_nat_alt)
  have near: "cursor_near ?t"
    using c by (auto simp: cursor_ok_def cursor_near_def)
  show ?thesis
  proof (cases "c = 8 \<and> 0 < sint (xpos ?t)")
    case True
    then have nz: "xpos ?t \<noteq> 0" by auto
    then have x: "xpos ?t - 1 < t_width ?t"
      using c count_down [OF nz] by (simp add: cursor_ok_def word_less_nat_alt)
    let ?s = "move_to (xpos ?t - 1) (ypos ?t) s"
    have "term_frame ?s (term_putentryat 32 (xpos ?t - 1) (ypos ?t) ?s)"
      using g c x by (intro frame_putentryat) (simp_all add: geometry_ok_def cursor_ok_def)
    from term_frame_trans [OF frame_move_to this] show ?thesis
      using True c x by (auto simp: putchar_control_def Let_def cursor_near_def cursor_ok_def)
  next
    case False
    then show ?thesis
      using near y w by (auto simp: putchar_control_def Let_def cursor_near_def)
  qed
qed

lemma wrap_stage:
  assumes g: "geometry_ok (tty0 s)" and c: "cursor_near (tty0 s)"
  shows "term_frame s (putchar_wrap s) \<and> cursor_near (tty0 (putchar_wrap s))
     \<and> xpos (tty0 (putchar_wrap s)) + 1 < t_width (tty0 s)"
proof -
  let ?t = "tty0 s"
  have w: "1 < t_width ?t"
    using g by (auto simp: geometry_ok_def word_less_nat_alt)
  then have w0: "0 < t_width ?t" "\<not> t_width ?t \<le> 1"
    by (auto simp: word_less_nat_alt word_le_nat_alt)
  show ?thesis
  proof (cases "t_width ?t \<le> xpos ?t + 1")
    case True
    then have "ypos ?t < t_height ?t"
      using c w0 by (auto simp: cursor_near_def)
    then show ?thesis
      using True w w0 by (simp add: putchar_wrap_def Let_def cursor_near_def inc_le)
  next
    case False
    then show ?thesis using c by (simp add: putchar_wrap_def Let_def)
  qed
qed

lemma scroll_stage:
  assumes g: "geometry_ok (tty0 s)" and c: "cursor_near (tty0 s)"
  shows "term_frame s (putchar_scroll s) \<and> cursor_ok (tty0 (putchar_scroll s))
     \<and> xpos (tty0 (putchar_scroll s)) = xpos (tty0 s)"
proof (cases "t_height (tty0 s) \<le> ypos (tty0 s)")
  case True
  let ?t = "tty0 s"
  have y: "ypos ?t = t_height ?t" and x: "xpos ?t < t_width ?t"
    using True c by (auto simp: cursor_near_def)
  have "t_height ?t \<noteq> 0" using g by (auto simp: geometry_ok_def)
  then have "t_height ?t - 1 < t_height ?t"
    using count_down by (simp add: word_less_nat_alt)
  then show ?thesis
    using True x y frame_scroll [OF g]
    by (simp add: putchar_scroll_def Let_def cursor_ok_def frame_tty0)
next
  case False
  then show ?thesis
    using c by (auto simp: putchar_scroll_def Let_def cursor_ok_def cursor_near_def)
qed

lemma draw_stage:
  assumes g: "geometry_ok (tty0 s)" and c: "cursor_ok (tty0 s)"
    and x: "xpos (tty0 s) + 1 < t_width (tty0 s)"
  shows "term_frame s (putchar_draw c s) \<and> cursor_ok (tty0 (putchar_draw c s))"
proof -
  let ?t = "tty0 s"
  have "term_frame s (term_putentryat c (xpos ?t) (ypos ?t) s)"
    using g c by (intro frame_putentryat) (simp_all add: cursor_ok_def)
  then show ?thesis
    using c x by (auto simp: putchar_draw_def Let_def cursor_ok_def frame_tty0)
qed

text \<open>
  The contract of a routine that prints one character. Clients that print more are verified
  against it.
\<close>

locale printer =
  fixes put :: "byte \<Rightarrow> kstate \<Rightarrow> kstate"
  assumes put_frame: "geometry_ok (tty0 s) \<Longrightarrow> cursor_ok (tty0 s) \<Longrightarrow> term_frame s (put c s)"
    and put_cursor: "geometry_ok (tty0 s) \<Longrightarrow> cursor_ok (tty0 s) \<Longrightarrow> cursor_ok (tty0 (put c s))"
begin

lemma put_geometry:
  "geometry_ok (tty0 s) \<Longrightarrow> cursor_ok (tty0 s) \<Longrightarrow> geometry_ok (tty0 (put c s))"
  using put_frame term_frame_geometry by blast

lemma fold_put:
  "geometry_ok (tty0 s) \<Longrightarrow> cursor_ok (tty0 s) \<Longrightarrow>
     term_frame s (fold put cs s) \<and> cursor_ok (tty0 (fold put cs s))"
proof (induction cs arbitrary: s)
  case Nil
  then show ?case by simp
next
  case (Cons c cs)
  then have "term_frame (put c s) (fold put cs (put c s)) \<and> cursor_ok (tty0 (fold put cs (put c s)))"
    using put_geometry put_cursor by blast
  then show ?case
    using Cons.prems put_frame term_frame_trans by (metis fold_simps(2))
qed

end

interpretation tp: printer term_putchar
proof
  fix s :: kstate and c :: byte
  assume g: "geometry_ok (tty0 s)" and c: "cursor_ok (tty0 s)"
  define s1 where "s1 = putchar_control c s"
  define s2 where "s2 = putchar_wrap s1"
  define s3 where "s3 = putchar_scroll s2"
  define s4 where "s4 = putchar_draw c s3"
  have f1: "term_frame s s1" "cursor_near (tty0 s1)"
    using control_stage [OF g c] by (simp_all add: s1_def)
  have f2: "term_frame s1 s2" "cursor_near (tty0 s2)" "xpos (tty0 s2) + 1 < t_width (tty0 s1)"
    using wrap_stage [OF term_frame_geometry [OF f1(1) g] f1(2)] by (simp_all add: s2_def)
  have t2: "term_frame s s2" using f1(1) f2(1) by (rule term_frame_trans)
  have f3: "term_frame s2 s3" "cursor_ok (tty0 s3)" "xpos (tty0 s3) = xpos (tty0 s2)"
    using scroll_stage [OF term_frame_geometry [OF t2 g] f2(2)] by (simp_all add: s3_def)
  have t3: "term_frame s s3" using t2 f3(1) by (rule term_frame_trans)
  have "xpos (tty0 s3) + 1 < t_width (tty0 s3)"
    using f2 f3 by (simp add: term_frame_def same_geometry_def)
  then have f4: "term_frame s3 s4" "cursor_ok (tty0 s4)"
    using draw_stage [OF term_frame_geometry [OF t3 g] f3(2)] by (simp_all add: s4_def)
  have "term_putchar c s = update_cursor (ypos (tty0 s4)) (xpos (tty0 s4)) s4"
    by (simp add: term_putchar_def s4_def s3_def s2_def s1_def Let_def)
  moreover have "term_frame s s4" using t3 f4(1) by (rule term_frame_trans)
  ultimately show "term_frame s (term_putchar c s)" and "cursor_ok (tty0 (term_putchar c s))"
    using f4(2) term_frame_trans [OF _ frame_update_cursor(1)] by simp_all
qed

lemma writelit_frame:
  "geometry_ok (tty0 s) \<Longrightarrow> cursor_ok (tty0 s) \<Longrightarrow>
     term_frame s (term_writelit cs s) \<and> cursor_ok (tty0 (term_writelit cs s))"
  unfolding term_writelit_def by (rule tp.fold_put)

text \<open>Writing a string that lies outside the screen prints exactly its characters.\<close>

lemma term_write_from_fold:
  assumes "cstr_at (ram s) (data + i) cs" and "geometry_ok (tty0 s)" and "cursor_ok (tty0 s)"
    and "\<And>x. inreg (data + i) (Suc (length cs)) x \<Longrightarrow> \<not> in_frame (tty0 s) x"
    and "unat i + length cs < 4294967296"
  shows "term_write_from data (i + of_nat (length cs)) i s = fold term_putchar cs s"
  using assms
proof (induction cs arbitrary: i s)
  case Nil
  then show ?case by (simp add: term_write_from.simps [of data i])
next
  case (Cons c cs)
  let ?s = "term_putchar c s"
  have f: "term_frame s ?s" "cursor_ok (tty0 ?s)" "geometry_ok (tty0 ?s)"
    using Cons.prems tp.put_frame tp.put_cursor tp.put_geometry by blast+
  have sub: "inreg (data + i) (Suc (length (c # cs))) x"
    if "inreg (data + (i + 1)) (Suc (length cs)) x" for x
    using that inreg_sub [of "data + i" 1 "Suc (length cs)" x "Suc (length (c # cs))"]
    by (simp add: add.assoc)
  have out: "\<not> in_frame (tty0 s) x" if "inreg (data + (i + 1)) (Suc (length cs)) x" for x
    using Cons.prems(4) sub [OF that] by blast
  have "cstr_at (ram s) (data + (i + 1)) cs"
    using Cons.prems(1) by (simp add: add.assoc)
  then have "cstr_at (ram ?s) (data + (i + 1)) cs"
    using f(1) out by (elim cstr_at_frame) (auto simp: term_frame_def)
  moreover have "\<not> in_frame (tty0 ?s) x" if "inreg (data + (i + 1)) (Suc (length cs)) x" for x
    using out [OF that] f(1) same_geometry_frame by (auto simp: term_frame_def)
  moreover have i1: "unat (i + 1) = Suc (unat i)"
    using Cons.prems(5) by (simp add: unat_word_ariths)
  ultimately have "term_write_from data (i + 1 + of_nat (length cs)) (i + 1) ?s = fold term_putchar cs ?s"
    using Cons.prems(5) f by (intro Cons.IH) simp_all
  moreover have "i < i + of_nat (length (c # cs))"
    using Cons.prems(5) by (simp add: word_less_nat_alt unat_word_ariths unat_of_nat take_bit_eq_mod)
  ultimately show ?case
    using Cons.prems(1)
    by (simp add: term_write_from.simps [of data _ i s] load8_def add.assoc)
qed

lemma term_writestring_fold:
  assumes "cstr_at (ram s) data cs" and "length cs < 4294967296"
    and "geometry_ok (tty0 s)" and "cursor_ok (tty0 s)"
    and "\<And>x. inreg data (Suc (length cs)) x \<Longrightarrow> \<not> in_frame (tty0 s) x"
  shows "term_writestring data s = Some (fold term_putchar cs s)"
  using assms term_write_from_fold [of s data 0 cs]
  by (simp add: term_writestring_def strlen_cstr)

lemma kernel_panic_frame:
  assumes "geometry_ok (tty0 s)" and "cursor_ok (tty0 s)"
  shows "\<exists>s'. kernel_panic c s = Some (Inl (Panic s')) \<and> rest s' = rest s
    \<and> (\<forall>a. \<not> in_frame (tty0 s) a \<longrightarrow> ram s' a = ram s a)"
proof -
  let ?s1 = "term_setcolor (make_color COLOR_LIGHT_GREY COLOR_RED) s"
  let ?s2 = "term_writelit ''\<newline>**KERNEL PANIC**:\<newline>     '' ?s1"
  let ?s3 = "term_writelit c ?s2"
  have s1: "geometry_ok (tty0 ?s1)" "cursor_ok (tty0 ?s1)" "in_frame (tty0 ?s1) = in_frame (tty0 s)"
    "rest ?s1 = rest s" "ram ?s1 = ram s"
    using assms
    by (simp_all add: term_setcolor_def geometry_ok_def cursor_ok_def fun_eq_iff in_frame_def frame_bytes_def)
  have s2: "term_frame ?s1 ?s2" "cursor_ok (tty0 ?s2)" using writelit_frame [OF s1(1,2)] by blast+
  have "term_frame ?s2 ?s3"
    using writelit_frame [OF term_frame_geometry [OF s2(1) s1(1)] s2(2)] by blast
  then have "term_frame ?s1 ?s3" by (rule term_frame_trans [OF s2(1)])
  then show ?thesis
    using s1 by (auto simp: kernel_panic_def Let_def term_frame_def)
qed

section \<open>Properties\<close>

text \<open>Any character leaves the cursor on the screen, and besides cells of the frame
  buffer and the cursor nothing changes.\<close>

theorem putchar_safe:
  assumes "geometry_ok (tty0 s)" and "cursor_ok (tty0 s)"
  shows "cursor_ok (tty0 (term_putchar c s)) \<and> same_geometry (tty0 s) (tty0 (term_putchar c s))
    \<and> (\<forall>a. in_frame (tty0 s) a \<or> ram (term_putchar c s) a = ram s a)
    \<and> rest (term_putchar c s) = rest s"
  using tp.put_frame [OF assms, of c] tp.put_cursor [OF assms, of c] by (auto simp: term_frame_def)

lemma sample_screen: "geometry_ok (tty0 sample_state)" "cursor_ok (tty0 sample_state)"
  by (simp_all add: geometry_ok_def cursor_ok_def word_less_nat_alt)

lemma putchar_safe_witness:
  "cursor_ok (tty0 (term_putchar 10 sample_state)) \<and> ram (term_putchar 10 sample_state) 0x100000 = 0"
  using putchar_safe [OF sample_screen, of 10]
  by (auto simp: in_frame_def inreg_def frame_bytes_def dest: spec [of _ "0x100000"])

lemma entry_low: "(ucast (make_vgaentry col c) :: byte) = c"
  by (rule bit_eqI) (auto simp: make_vgaentry_def bit_simps)

lemma entry_high: "bit (ucast (drop_bit 8 (make_vgaentry col c)) :: byte) n \<longleftrightarrow>
    n < 8 \<and> (bit c 7 \<or> bit col n)"
  by (auto simp: make_vgaentry_def bit_simps)

text \<open>The cell of a character below 128 holds it in the low byte and the colour in the
  high byte; from 128 on \<^verbatim>\<open>char\<close> is negative and the colour is overwritten by its sign.\<close>

theorem vga_entry:
  "(ucast (make_vgaentry col c) :: byte) = c
   \<and> (ucast (drop_bit 8 (make_vgaentry col c)) :: byte) = (if bit c 7 then 0xFF else col)"
proof (rule conjI [OF entry_low])
  have "bit (0xFF :: byte) n \<longleftrightarrow> n < 8" for n
  proof -
    have "(0xFF :: byte) = - 1" by simp
    then show ?thesis by (simp only: bit_minus_1_iff) simp
  qed
  then show "(ucast (drop_bit 8 (make_vgaentry col c)) :: byte) = (if bit c 7 then 0xFF else col)"
    by (intro bit_eqI) (auto simp: entry_high)
qed

text \<open>Every character ends with the hardware cursor set to the position of the
  terminal's cursor, 80 columns to the row, low byte first.\<close>

theorem cursor_ports:
  "\<exists>es. io (term_putchar c s) = es @ [Out 0x3D4 0x0F,
     Out 0x3D5 (ucast (ypos (tty0 (term_putchar c s)) * 80 + xpos (tty0 (term_putchar c s)))),
     Out 0x3D4 0x0E,
     Out 0x3D5 (ucast (drop_bit 8 (ypos (tty0 (term_putchar c s)) * 80 + xpos (tty0 (term_putchar c s)))))]"
proof -
  have lo: "(ucast ((ucast p :: 16 word) AND 0xFF) :: byte) = ucast p" for p :: "32 word"
    unfolding mask_numerals by (rule bit_eqI) (auto simp: bit_simps)
  have hi: "(ucast (drop_bit 8 (ucast p :: 16 word) AND 0xFF) :: byte) = ucast (drop_bit 8 p)"
    for p :: "32 word"
    unfolding mask_numerals by (rule bit_eqI) (auto simp: bit_simps)
  show ?thesis
    by (simp add: term_putchar_def Let_def update_cursor_def outbs_eq lo hi)
qed

end
