(* ===== verification/Term_Spec.thy ===== *)
theory Term_Spec
  imports Term
begin

text \<open>
  What the terminal promises, on a grid of cells indexed by row and column, and the proof that
  \<^verbatim>\<open>term.c\<close> implements it byte for byte. Row \<open>h\<close> of the grid is the memory just below the screen,
  which \<open>term_scroll\<close> reads.
\<close>

section \<open>The abstract screen\<close>

record view =
  v_cells :: "nat \<Rightarrow> nat \<Rightarrow> 16 word"
  v_x :: nat
  v_y :: nat

definition v_put :: "nat \<Rightarrow> nat \<Rightarrow> 16 word \<Rightarrow> view \<Rightarrow> view" where
  "v_put y x e v = v\<lparr>v_cells := (v_cells v)(y := (v_cells v y)(x := e))\<rparr>"

definition v_control :: "byte \<Rightarrow> byte \<Rightarrow> view \<Rightarrow> view" where
  "v_control color c v =
     (if c = 10 then v\<lparr>v_x := 0, v_y := v_y v + 1\<rparr>
      else if c = 8 \<and> 0 < v_x v
      then v_put (v_y v) (v_x v - 1) (make_vgaentry color 32) (v\<lparr>v_x := v_x v - 1\<rparr>)
      else v)"

definition v_wrap :: "nat \<Rightarrow> view \<Rightarrow> view" where
  "v_wrap w v = (if w \<le> v_x v + 1 then v\<lparr>v_x := 0, v_y := v_y v + 1\<rparr> else v)"

definition v_scroll :: "nat \<Rightarrow> view \<Rightarrow> view" where
  "v_scroll h v =
     (if h \<le> v_y v
      then v\<lparr>v_cells := (\<lambda>y. if y < h then v_cells v (y + 1) else v_cells v y), v_y := v_y v - 1\<rparr>
      else v)"

definition v_draw :: "byte \<Rightarrow> byte \<Rightarrow> view \<Rightarrow> view" where
  "v_draw color c v =
     (if c = 10 \<or> c = 8 then v
      else v_put (v_y v) (v_x v) (make_vgaentry color c) (v\<lparr>v_x := v_x v + 1\<rparr>))"

definition v_putchar :: "nat \<Rightarrow> nat \<Rightarrow> byte \<Rightarrow> byte \<Rightarrow> view \<Rightarrow> view" where
  "v_putchar w h color c v = v_draw color c (v_scroll h (v_wrap w (v_control color c v)))"

section \<open>Abstraction\<close>

definition grid_off :: "term_t \<Rightarrow> nat \<Rightarrow> nat \<Rightarrow> addr" where
  "grid_off t y x = 2 * of_nat (y * unat (t_width t) + x)"

definition view_of :: "kstate \<Rightarrow> view" where
  "view_of s = (let t = tty0 s in
     \<lparr>v_cells = (\<lambda>y x. if y \<le> unat (t_height t) \<and> x < unat (t_width t)
        then load16 (ram s) (t_buffer t + grid_off t y x) else 0),
      v_x = unat (xpos t), v_y = unat (ypos t)\<rparr>)"

text \<open>The screen and the row below it do not run over the top of memory.\<close>

definition buffer_ok :: "term_t \<Rightarrow> bool" where
  "buffer_ok t \<longleftrightarrow>
     unat (t_buffer t) + frame_bytes t + 2 * unat (t_width t) \<le> 4294967296"

definition screen_ok :: "kstate \<Rightarrow> bool" where
  "screen_ok s \<longleftrightarrow> geometry_ok (tty0 s) \<and> buffer_ok (tty0 s)"

lemma frame_screen_ok: "term_frame s s' \<Longrightarrow> screen_ok s \<Longrightarrow> screen_ok s'"
  by (auto simp: term_frame_def same_geometry_def screen_ok_def buffer_ok_def geometry_ok_def
      frame_bytes_def)

lemma grid_bounds:
  assumes "geometry_ok t" and "x < unat (t_width t)" and "y \<le> unat (t_height t)"
  shows "2 * (y * unat (t_width t) + x) + 2 \<le> frame_bytes t + 2 * unat (t_width t)"
    and "frame_bytes t + 2 * unat (t_width t) \<le> 67108864"
    and "y < unat (t_height t) \<Longrightarrow> 2 * (y * unat (t_width t) + x) + 2 \<le> frame_bytes t"
proof -
  let ?w = "unat (t_width t)" and ?h = "unat (t_height t)"
  have below: "2 * (k * ?w + x) + 2 \<le> 2 * (l * ?w)" if "k < l" for k l
  proof -
    have "k * ?w + x + 1 \<le> (k + 1) * ?w" using assms(2) by simp
    also have "\<dots> \<le> l * ?w" using that by (intro mult_right_mono) simp_all
    finally show ?thesis by simp
  qed
  show "2 * (y * ?w + x) + 2 \<le> frame_bytes t + 2 * ?w"
    using below [of y "?h + 1"] assms(3) by (simp add: frame_bytes_def mult.commute add.commute)
  show "y < ?h \<Longrightarrow> 2 * (y * ?w + x) + 2 \<le> frame_bytes t"
    using below [of y ?h] by (simp add: frame_bytes_def mult.commute)
  show "frame_bytes t + 2 * ?w \<le> 67108864"
    using frame_unat(2) [OF assms(1)] assms(1) by (simp add: geometry_ok_def)
qed

lemma unat_grid_off:
  assumes "geometry_ok t" and "x < unat (t_width t)" and "y \<le> unat (t_height t)"
  shows "unat (grid_off t y x) = 2 * (y * unat (t_width t) + x)"
proof -
  define i where "i = y * unat (t_width t) + x"
  have "2 * i + 2 \<le> 67108864"
    using grid_bounds(1,2) [OF assms] by (simp add: i_def)
  then have "unat (of_nat (2 * i) :: addr) = 2 * i"
    by (simp add: unat_of_nat take_bit_eq_mod del: of_nat_mult of_nat_add)
  then show ?thesis by (simp add: i_def grid_off_def)
qed

lemma grid_off_Suc: "grid_off t (Suc y) x = 2 * t_width t + grid_off t y x"
  by (simp add: grid_off_def algebra_simps)

lemma grid_off_cursor [simp]:
  "grid_off (t\<lparr>xpos := a\<rparr>) = grid_off t" "grid_off (t\<lparr>ypos := b\<rparr>) = grid_off t"
  by (simp_all add: grid_off_def fun_eq_iff)

lemma cell_addr_grid: "cell_addr t (y * t_width t + x) = t_buffer t + grid_off t (unat y) (unat x)"
  by (simp add: cell_addr_def grid_off_def)

lemma grid_inj:
  fixes w :: nat
  assumes "y * w + x = y' * w + x'" and "x < w" and "x' < w"
  shows "y = y' \<and> x = x'"
proof -
  have "(y * w + x) div w = y" "(y' * w + x') div w = y'" using assms(2,3) by simp_all
  with assms show ?thesis by simp
qed

lemma grid_sep:
  assumes g: "geometry_ok t" and a: "x < unat (t_width t)" "y \<le> unat (t_height t)"
    and b: "x' < unat (t_width t)" "y' \<le> unat (t_height t)" and ne: "y \<noteq> y' \<or> x \<noteq> x'"
  shows "sep (t_buffer t + grid_off t y x) 2 (t_buffer t + grid_off t y' x') 2"
proof -
  let ?i = "grid_off t y x" and ?j = "grid_off t y' x'"
  have "y * unat (t_width t) + x \<noteq> y' * unat (t_width t) + x'"
    using ne grid_inj [OF _ a(1) b(1)] by blast
  moreover have "a + 2 \<le> b \<or> b + 2 \<le> a" if "p \<noteq> q" "a = 2 * p" "b = 2 * q" for a b p q :: nat
    using that by arith
  ultimately have "unat ?i + 2 \<le> unat ?j \<or> unat ?j + 2 \<le> unat ?i"
    using unat_grid_off [OF g a] unat_grid_off [OF g b] by blast
  moreover have "unat ?i + 2 \<le> 67108864" "unat ?j + 2 \<le> 67108864"
    using unat_grid_off [OF g a] unat_grid_off [OF g b] grid_bounds [OF g a] grid_bounds [OF g b]
    by linarith+
  ultimately have "sep ?i 2 ?j 2 \<or> sep ?j 2 ?i 2"
    by (auto intro: sep_below)
  then show ?thesis by (auto simp: sep_simps sep_sym)
qed

lemma view_put:
  assumes s: "screen_ok s" and x: "x < t_width (tty0 s)" and y: "y < t_height (tty0 s)"
  shows "view_of (term_putentryat c x y s) =
    v_put (unat y) (unat x) (make_vgaentry (t_color (tty0 s)) c) (view_of s)"
proof -
  let ?t = "tty0 s" and ?e = "make_vgaentry (t_color (tty0 s)) c"
  have g: "geometry_ok ?t" using s by (simp add: screen_ok_def)
  have xy: "unat x < unat (t_width ?t)" "unat y \<le> unat (t_height ?t)"
    using x y by (simp_all add: word_less_nat_alt)
  have ram: "ram (term_putentryat c x y s) = store16 (ram s) (t_buffer ?t + grid_off ?t (unat y) (unat x)) ?e"
    by (simp add: term_putentryat_def term_putcell_def cell_addr_grid)
  have "load16 (ram (term_putentryat c x y s)) (t_buffer ?t + grid_off ?t y' x') =
      (if y' = unat y \<and> x' = unat x then ?e else load16 (ram s) (t_buffer ?t + grid_off ?t y' x'))"
    if r: "y' \<le> unat (t_height ?t)" "x' < unat (t_width ?t)" for y' x'
    using grid_sep [OF g xy r(2,1)] by (auto simp: ram c16.ld_st c16_16.ld_other)
  then show ?thesis
    using xy by (auto simp: view_of_def Let_def v_put_def fun_eq_iff)
qed

lemma view_scroll:
  assumes s: "screen_ok s"
  shows "view_of (term_scroll s) = (view_of s)\<lparr>v_cells :=
    (\<lambda>y. if y < unat (t_height (tty0 s)) then v_cells (view_of s) (y + 1) else v_cells (view_of s) y)\<rparr>"
proof -
  let ?t = "tty0 s" and ?w = "unat (t_width (tty0 s))" and ?h = "unat (t_height (tty0 s))"
  let ?b = "t_buffer (tty0 s)" and ?n = "frame_bytes (tty0 s)"
  have g: "geometry_ok ?t" and b: "unat ?b + ?n + 2 * ?w \<le> 4294967296"
    using s by (simp_all add: screen_ok_def buffer_ok_def)
  have w: "?w \<le> 4096" "0 < ?n" using g by (auto simp: geometry_ok_def frame_bytes_def)
  have w2: "unat (2 * t_width ?t) = 2 * ?w" using w by (simp add: unat_word_ariths)
  have "unat (?b + 2 * t_width ?t) = unat ?b + 2 * ?w"
    using b w w2 by (simp add: unat_word_ariths)
  then have ram: "ram (term_scroll s) = moved ?b (?b + 2 * t_width ?t) ?n (ram s)"
    using b frame_unat(1) [OF g]
    by (simp add: term_scroll_def Let_def mem_cpy_moved)
  have cell: "load16 (ram (term_scroll s)) (?b + grid_off ?t y x) =
      load16 (ram s) (?b + grid_off ?t (if y < ?h then y + 1 else y) x)"
    if r: "y \<le> ?h" "x < ?w" for y x
  proof (cases "y < ?h")
    case True
    then have "unat (grid_off ?t y x) + 2 \<le> ?n"
      using unat_grid_off [OF g r(2,1)] grid_bounds(3) [OF g r(2,1)] by simp
    from load16_moved [OF this] show ?thesis
      using True by (simp add: ram grid_off_Suc add.assoc)
  next
    case False
    then have y: "y = ?h" using r by simp
    have u: "unat (grid_off ?t y x) = 2 * (y * ?w + x)" by (rule unat_grid_off [OF g r(2,1)])
    have "sep 0 ?n (grid_off ?t y x) 2"
      using w y u grid_bounds(1,2) [OF g r(2,1)]
      by (intro sep_below) (simp_all add: frame_bytes_def mult.commute)
    then have "sep ?b ?n (?b + grid_off ?t y x) 2"
      by (simp add: sep_simps)
    then have "load16 (moved ?b (?b + 2 * t_width ?t) ?n (ram s)) (?b + grid_off ?t y x) =
        load16 (ram s) (?b + grid_off ?t y x)"
      by (rule c16.ld_frame) (rule moved_outside)
    then show ?thesis using False by (simp add: ram)
  qed
  show ?thesis
    by (simp add: view_of_def Let_def fun_eq_iff) (auto simp: cell)
qed

lemma view_tty0 [simp]:
  "same_geometry (tty0 s) t \<Longrightarrow>
     view_of (s\<lparr>tty0 := t\<rparr>) = (view_of s)\<lparr>v_x := unat (xpos t), v_y := unat (ypos t)\<rparr>"
  by (simp add: view_of_def Let_def fun_eq_iff same_geometry_def grid_off_def)

lemma v_same [simp]:
  "(view_of s)\<lparr>v_x := unat (xpos (tty0 s)), v_y := y\<rparr> = (view_of s)\<lparr>v_y := y\<rparr>"
  "(view_of s)\<lparr>v_x := x, v_y := unat (ypos (tty0 s))\<rparr> = (view_of s)\<lparr>v_x := x\<rparr>"
  by (simp_all add: view_of_def Let_def)

section \<open>The stages refine their specifications\<close>

lemma view_xy [simp]: "v_x (view_of s) = unat (xpos (tty0 s))" "v_y (view_of s) = unat (ypos (tty0 s))"
  by (simp_all add: view_of_def Let_def)

lemma unat_Suc_cursor:
  assumes "geometry_ok t" and "cursor_near t"
  shows "unat (xpos t + 1) = unat (xpos t) + 1" and "unat (ypos t + 1) = unat (ypos t) + 1"
    and "0 < sint (xpos t) \<longleftrightarrow> 0 < unat (xpos t)"
proof -
  have b: "unat (xpos t) < 4096" "unat (ypos t) \<le> 4096"
    using assms by (auto simp: geometry_ok_def cursor_near_def word_less_nat_alt word_le_nat_alt)
  then show "unat (xpos t + 1) = unat (xpos t) + 1" and "unat (ypos t + 1) = unat (ypos t) + 1"
    by (simp_all add: unat_word_ariths)
  show "0 < sint (xpos t) \<longleftrightarrow> 0 < unat (xpos t)"
    using b sint_nonneg_unat [of "xpos t"] by linarith
qed

lemma cursor_ok_near: "cursor_ok t \<Longrightarrow> cursor_near t"
  by (auto simp: cursor_ok_def cursor_near_def)

lemma view_control:
  assumes s: "screen_ok s" and c: "cursor_ok (tty0 s)"
  shows "view_of (putchar_control c s) = v_control (t_color (tty0 s)) c (view_of s)"
proof -
  let ?t = "tty0 s"
  have g: "geometry_ok ?t" using s by (simp add: screen_ok_def)
  note u = unat_Suc_cursor [OF g cursor_ok_near [OF c]]
  show ?thesis
  proof (cases "c = 8 \<and> 0 < unat (xpos ?t)")
    case True
    then have nz: "xpos ?t \<noteq> 0" by auto
    then have x: "xpos ?t - 1 < t_width ?t"
      using c count_down [OF nz] by (simp add: cursor_ok_def word_less_nat_alt)
    let ?s = "move_to (xpos ?t - 1) (ypos ?t) s"
    have "screen_ok ?s" by (rule frame_screen_ok [OF frame_move_to s])
    then have "view_of (term_putentryat 32 (xpos ?t - 1) (ypos ?t) ?s) =
        v_put (unat (ypos ?t)) (unat (xpos ?t - 1)) (make_vgaentry (t_color ?t) 32) (view_of ?s)"
      using c x view_put [of ?s "xpos ?t - 1" "ypos ?t" 32] by (simp add: cursor_ok_def)
    then show ?thesis
      using True u nz by (simp add: putchar_control_def v_control_def Let_def unat_pred v_put_def)
  next
    case False
    then show ?thesis
      using u by (auto simp: putchar_control_def v_control_def Let_def)
  qed
qed

lemma view_wrap:
  assumes "screen_ok s" and "cursor_near (tty0 s)"
  shows "view_of (putchar_wrap s) = v_wrap (unat (t_width (tty0 s))) (view_of s)"
  using assms unat_Suc_cursor [of "tty0 s"]
  by (simp add: putchar_wrap_def v_wrap_def Let_def screen_ok_def word_le_nat_alt)

lemma view_putchar_scroll:
  assumes s: "screen_ok s" and c: "cursor_near (tty0 s)"
  shows "view_of (putchar_scroll s) = v_scroll (unat (t_height (tty0 s))) (view_of s)"
proof (cases "t_height (tty0 s) \<le> ypos (tty0 s)")
  case True
  let ?t = "tty0 s"
  have "t_height ?t \<noteq> 0" using s by (auto simp: screen_ok_def geometry_ok_def)
  then have "unat (ypos ?t - 1) = unat (ypos ?t) - 1"
    using True by (intro unat_pred) auto
  then show ?thesis
    using True view_scroll [OF s]
    by (simp add: putchar_scroll_def v_scroll_def Let_def word_le_nat_alt)
next
  case False
  then show ?thesis
    by (simp add: putchar_scroll_def v_scroll_def Let_def word_le_nat_alt)
qed

lemma view_draw:
  assumes s: "screen_ok s" and c: "cursor_ok (tty0 s)" and x: "xpos (tty0 s) + 1 < t_width (tty0 s)"
  shows "view_of (putchar_draw c s) = v_draw (t_color (tty0 s)) c (view_of s)"
proof -
  let ?t = "tty0 s" and ?s = "term_putentryat c (xpos (tty0 s)) (ypos (tty0 s)) s"
  have g: "geometry_ok ?t" using s by (simp add: screen_ok_def)
  note u = unat_Suc_cursor [OF g cursor_ok_near [OF c]]
  have "view_of ?s = v_put (unat (ypos ?t)) (unat (xpos ?t)) (make_vgaentry (t_color ?t) c) (view_of s)"
    using c by (intro view_put s) (simp_all add: cursor_ok_def)
  then show ?thesis
    using c u by (simp add: putchar_draw_def v_draw_def Let_def cursor_ok_def v_put_def)
qed

lemma view_update_cursor [simp]: "view_of (update_cursor r c s) = view_of s"
  by (simp add: view_of_def Let_def fun_eq_iff)

lemma putchar_view:
  assumes s: "screen_ok s" and c: "cursor_ok (tty0 s)"
  shows "view_of (term_putchar ch s) =
    v_putchar (unat (t_width (tty0 s))) (unat (t_height (tty0 s))) (t_color (tty0 s)) ch (view_of s)"
proof -
  have g: "geometry_ok (tty0 s)" using s by (simp add: screen_ok_def)
  define s1 where "s1 = putchar_control ch s"
  define s2 where "s2 = putchar_wrap s1"
  define s3 where "s3 = putchar_scroll s2"
  note f1 = control_stage [OF g c, of ch, folded s1_def]
  have ok1: "screen_ok s1" using f1 frame_screen_ok [OF _ s] by blast
  then have g1: "geometry_ok (tty0 s1)" by (simp add: screen_ok_def)
  note f2 = wrap_stage [OF g1 conjunct2 [OF f1], folded s2_def]
  have ok2: "screen_ok s2" using f2 frame_screen_ok [OF _ ok1] by blast
  then have g2: "geometry_ok (tty0 s2)" by (simp add: screen_ok_def)
  note f3 = scroll_stage [OF g2 f2 [THEN conjunct2, THEN conjunct1], folded s3_def]
  have ok3: "screen_ok s3" using f3 frame_screen_ok [OF _ ok2] by blast
  have geo: "same_geometry (tty0 s) (tty0 s1)" "same_geometry (tty0 s1) (tty0 s2)"
    "same_geometry (tty0 s2) (tty0 s3)"
    using f1 f2 f3 by (simp_all add: term_frame_def)
  have "view_of s1 = v_control (t_color (tty0 s)) ch (view_of s)"
    unfolding s1_def by (rule view_control [OF s c])
  moreover have "view_of s2 = v_wrap (unat (t_width (tty0 s))) (view_of s1)"
    using view_wrap [OF ok1] f1 geo by (simp add: s2_def same_geometry_def)
  moreover have "view_of s3 = v_scroll (unat (t_height (tty0 s))) (view_of s2)"
    using view_putchar_scroll [OF ok2] f2 geo by (simp add: s3_def same_geometry_def)
  moreover have "view_of (putchar_draw ch s3) = v_draw (t_color (tty0 s)) ch (view_of s3)"
    using view_draw [OF ok3, of ch] f2 f3 geo by (simp add: same_geometry_def)
  ultimately show ?thesis
    by (simp add: term_putchar_def v_putchar_def Let_def s1_def s2_def s3_def)
qed

text \<open>C5. Printing a character, byte for byte in the frame buffer, is printing it on the
  grid: control characters, wrapping at the right edge, scrolling at the bottom and the cell drawn
  are those of the specification.\<close>

theorem putchar_refines:
  assumes "screen_ok s" and "cursor_ok (tty0 s)"
  shows "view_of (term_putchar ch s) =
    v_putchar (unat (t_width (tty0 s))) (unat (t_height (tty0 s))) (t_color (tty0 s)) ch (view_of s)"
  by (rule putchar_view [OF assms])

lemma putchar_refines_witness:
  "view_of (term_putchar 65 sample_state) = v_putchar 80 25 7 65 (view_of sample_state)"
  using putchar_refines [of sample_state 65]
  by (simp add: screen_ok_def buffer_ok_def geometry_ok_def cursor_ok_def frame_bytes_def
      word_less_nat_alt)

section \<open>Strings\<close>

lemma fold_view:
  assumes "screen_ok s" and "cursor_ok (tty0 s)"
  shows "view_of (fold term_putchar cs s) =
    fold (v_putchar (unat (t_width (tty0 s))) (unat (t_height (tty0 s))) (t_color (tty0 s))) cs (view_of s)"
  using assms
proof (induction cs arbitrary: s)
  case (Cons c cs)
  have g: "geometry_ok (tty0 s)" using Cons.prems by (simp add: screen_ok_def)
  have f: "term_frame s (term_putchar c s)" "cursor_ok (tty0 (term_putchar c s))"
    using tp.put_frame [OF g Cons.prems(2)] tp.put_cursor [OF g Cons.prems(2)] .
  then show ?case
    using Cons.IH [OF frame_screen_ok [OF f(1) Cons.prems(1)] f(2)] putchar_view [OF Cons.prems]
    by (simp add: term_frame_def same_geometry_def)
qed simp

text \<open>C21. Printing a terminated string that does not lie in the frame buffer
  returns, and prints exactly its characters in order on the abstract screen.\<close>

theorem writestring_refines:
  assumes "cstr_at (ram s) data cs" and "length cs < 4294967296"
    and "screen_ok s" and "cursor_ok (tty0 s)"
    and "\<forall>x. inreg data (Suc (length cs)) x \<longrightarrow> \<not> in_frame (tty0 s) x"
  shows "\<exists>s'. term_writestring data s = Some s'
    \<and> view_of s' = fold (v_putchar (unat (t_width (tty0 s))) (unat (t_height (tty0 s))) (t_color (tty0 s)))
        cs (view_of s)
    \<and> cursor_ok (tty0 s')"
proof -
  have g: "geometry_ok (tty0 s)" using assms(3) by (simp add: screen_ok_def)
  show ?thesis
    using term_writestring_fold [OF assms(1,2) g assms(4)] assms(5) fold_view [OF assms(3,4)]
      tp.fold_put [OF g assms(4)]
    by auto
qed

lemma writestring_refines_witness:
  "\<exists>s'. term_writestring 0x100000 (sample_state\<lparr>ram := (\<lambda>_. 0)(0x100000 := 72, 0x100001 := 105)\<rparr>) = Some s'
    \<and> cursor_ok (tty0 s')"
proof -
  let ?s = "sample_state\<lparr>ram := (\<lambda>_. 0)(0x100000 := 72, 0x100001 := (105 :: byte))\<rparr>"
  have "cstr_at (ram ?s) 0x100000 [72, 105]" by simp
  moreover have "sep (t_buffer (tty0 ?s)) (frame_bytes (tty0 ?s)) 0x100000 3"
    by (simp add: frame_bytes_def sep_simps)
  then have "\<forall>x. inreg 0x100000 (Suc (length [72, 105 :: byte])) x \<longrightarrow> \<not> in_frame (tty0 ?s) x"
    using sep_notin [of "t_buffer (tty0 ?s)" "frame_bytes (tty0 ?s)" "0x100000" 3]
    by (simp add: in_frame_def eval_nat_numeral)
  ultimately show ?thesis
    using writestring_refines [of ?s "0x100000" "[72, 105]"] sample_screen
    by (auto simp: screen_ok_def buffer_ok_def frame_bytes_def)
qed

end
