(* ===== verification/Multiboot.thy ===== *)
theory Multiboot
  imports Samples
begin

text \<open>
  What the boot loader hands to the kernel (\<^verbatim>\<open>multiboot.h\<close>): the information structure and the entries of
  the memory map, as records read from memory at the offsets of their fields. Only the allocator
  looks at them.
\<close>

text \<open>The two readings of the union \<open>u\<close>: the symbol table of a.out and the section headers of ELF.\<close>

record multiboot_aout_symbol_table =
  aout_tabsize :: "32 word"
  aout_strsize :: "32 word"
  aout_addr :: "32 word"
  aout_reserved :: "32 word"

record multiboot_elf_section_header_table =
  elf_num :: "32 word"
  elf_size :: "32 word"
  elf_addr :: "32 word"
  elf_shndx :: "32 word"

definition aout_sym_at :: "mem \<Rightarrow> addr \<Rightarrow> multiboot_aout_symbol_table" where
  "aout_sym_at m p = \<lparr>aout_tabsize = load32 m p, aout_strsize = load32 m (p + 4), aout_addr = load32 m (p + 8),
     aout_reserved = load32 m (p + 12)\<rparr>"

definition elf_sec_at :: "mem \<Rightarrow> addr \<Rightarrow> multiboot_elf_section_header_table" where
  "elf_sec_at m p = \<lparr>elf_num = load32 m p, elf_size = load32 m (p + 4), elf_addr = load32 m (p + 8),
     elf_shndx = load32 m (p + 12)\<rparr>"

record multiboot_info =
  mi_flags :: "32 word"
  mi_mem_lower :: "32 word"
  mi_mem_upper :: "32 word"
  mi_boot_device :: "32 word"
  mi_cmdline :: "32 word"
  mi_mods_count :: "32 word"
  mi_mods_addr :: "32 word"
  mi_aout_sym :: multiboot_aout_symbol_table
  mi_elf_sec :: multiboot_elf_section_header_table
  mi_mmap_length :: "32 word"
  mi_mmap_addr :: "32 word"
  mi_drives_length :: "32 word"
  mi_drives_addr :: "32 word"
  mi_config_table :: "32 word"
  mi_boot_loader_name :: "32 word"
  mi_apm_table :: "32 word"
  mi_vbe_control_info :: "32 word"
  mi_vbe_mode_info :: "32 word"
  mi_vbe_mode :: "16 word"
  mi_vbe_interface_seg :: "16 word"
  mi_vbe_interface_off :: "16 word"
  mi_vbe_interface_len :: "16 word"

definition multiboot_info_at :: "mem \<Rightarrow> addr \<Rightarrow> multiboot_info" where
  "multiboot_info_at m b = \<lparr>
     mi_flags = load32 m b, mi_mem_lower = load32 m (b + 4), mi_mem_upper = load32 m (b + 8),
     mi_boot_device = load32 m (b + 12), mi_cmdline = load32 m (b + 16),
     mi_mods_count = load32 m (b + 20), mi_mods_addr = load32 m (b + 24),
     mi_aout_sym = aout_sym_at m (b + 28), mi_elf_sec = elf_sec_at m (b + 28),
     mi_mmap_length = load32 m (b + 44), mi_mmap_addr = load32 m (b + 48),
     mi_drives_length = load32 m (b + 52), mi_drives_addr = load32 m (b + 56),
     mi_config_table = load32 m (b + 60), mi_boot_loader_name = load32 m (b + 64),
     mi_apm_table = load32 m (b + 68), mi_vbe_control_info = load32 m (b + 72),
     mi_vbe_mode_info = load32 m (b + 76), mi_vbe_mode = load16 m (b + 80),
     mi_vbe_interface_seg = load16 m (b + 82), mi_vbe_interface_off = load16 m (b + 84),
     mi_vbe_interface_len = load16 m (b + 86)\<rparr>"

text \<open>An entry of the memory map is packed; its size does not count itself.\<close>

record multiboot_mmap_entry =
  me_size :: "32 word"
  me_addr :: "64 word"
  me_len :: "64 word"
  me_type :: "32 word"

definition mmap_entry_at :: "mem \<Rightarrow> addr \<Rightarrow> multiboot_mmap_entry" where
  "mmap_entry_at m e = \<lparr>me_size = load32 m e, me_addr = load64 m (e + 4), me_len = load64 m (e + 12),
     me_type = load32 m (e + 20)\<rparr>"

text \<open>The fields the kernel uses.\<close>

definition mbd_mem_lower :: "mem \<Rightarrow> addr \<Rightarrow> 32 word" where "mbd_mem_lower m b = mi_mem_lower (multiboot_info_at m b)"
definition mbd_mem_upper :: "mem \<Rightarrow> addr \<Rightarrow> 32 word" where "mbd_mem_upper m b = mi_mem_upper (multiboot_info_at m b)"
definition mbd_mmap_length :: "mem \<Rightarrow> addr \<Rightarrow> 32 word" where "mbd_mmap_length m b = mi_mmap_length (multiboot_info_at m b)"
definition mbd_mmap_addr :: "mem \<Rightarrow> addr \<Rightarrow> 32 word" where "mbd_mmap_addr m b = mi_mmap_addr (multiboot_info_at m b)"

definition mmap_size :: "mem \<Rightarrow> addr \<Rightarrow> 32 word" where "mmap_size m e = me_size (mmap_entry_at m e)"
definition mmap_addr :: "mem \<Rightarrow> addr \<Rightarrow> 64 word" where "mmap_addr m e = me_addr (mmap_entry_at m e)"
definition mmap_len :: "mem \<Rightarrow> addr \<Rightarrow> 64 word" where "mmap_len m e = me_len (mmap_entry_at m e)"
definition mmap_type :: "mem \<Rightarrow> addr \<Rightarrow> 32 word" where "mmap_type m e = me_type (mmap_entry_at m e)"

lemma mmap_fields:
  "mmap_size m e = load32 m e" "mmap_addr m e = load64 m (e + 4)" "mmap_len m e = load64 m (e + 12)"
  "mmap_type m e = load32 m (e + 20)"
  by (simp_all add: mmap_size_def mmap_addr_def mmap_len_def mmap_type_def mmap_entry_at_def)

lemma mbd_fields:
  "mbd_mem_lower m b = load32 m (b + 4)" "mbd_mem_upper m b = load32 m (b + 8)"
  "mbd_mmap_length m b = load32 m (b + 44)" "mbd_mmap_addr m b = load32 m (b + 48)"
  by (simp_all add: mbd_mem_lower_def mbd_mem_upper_def mbd_mmap_length_def mbd_mmap_addr_def multiboot_info_at_def)

section \<open>The header of the image\<close>

definition MULTIBOOT_HEADER_MAGIC :: "32 word" where "MULTIBOOT_HEADER_MAGIC = 0x1BADB002"
definition MULTIBOOT_PAGE_ALIGN :: "32 word" where "MULTIBOOT_PAGE_ALIGN = 0x00000001"
definition MULTIBOOT_MEMORY_INFO :: "32 word" where "MULTIBOOT_MEMORY_INFO = 0x00000002"
definition MULTIBOOT_VIDEO_MODE :: "32 word" where "MULTIBOOT_VIDEO_MODE = 0x00000004"
definition MULTIBOOT_AOUT_KLUDGE :: "32 word" where "MULTIBOOT_AOUT_KLUDGE = 0x00010000"

record multiboot_header =
  mh_magic :: "32 word"
  mh_flags :: "32 word"
  mh_checksum :: "32 word"
  mh_header_addr :: "32 word"
  mh_load_addr :: "32 word"
  mh_load_end_addr :: "32 word"
  mh_bss_end_addr :: "32 word"
  mh_entry_addr :: "32 word"
  mh_mode_type :: "32 word"
  mh_width :: "32 word"
  mh_height :: "32 word"
  mh_depth :: "32 word"

definition multiboot_header_at :: "mem \<Rightarrow> addr \<Rightarrow> multiboot_header" where
  "multiboot_header_at m p = \<lparr>mh_magic = load32 m p, mh_flags = load32 m (p + 4), mh_checksum = load32 m (p + 8),
     mh_header_addr = load32 m (p + 12), mh_load_addr = load32 m (p + 16), mh_load_end_addr = load32 m (p + 20),
     mh_bss_end_addr = load32 m (p + 24), mh_entry_addr = load32 m (p + 28), mh_mode_type = load32 m (p + 32),
     mh_width = load32 m (p + 36), mh_height = load32 m (p + 40), mh_depth = load32 m (p + 44)\<rparr>"

text \<open>An entry of the list of modules, 16 bytes each.\<close>

record multiboot_mod_list =
  mod_start :: "32 word"
  mod_end :: "32 word"
  mod_cmdline :: "32 word"
  mod_pad :: "32 word"

definition mod_list_at :: "mem \<Rightarrow> addr \<Rightarrow> multiboot_mod_list" where
  "mod_list_at m p = \<lparr>mod_start = load32 m p, mod_end = load32 m (p + 4), mod_cmdline = load32 m (p + 8),
     mod_pad = load32 m (p + 12)\<rparr>"

text \<open>
  What the comments on the fields ask of a header: the magic number, and a checksum that makes the three
  words add up to nothing.
\<close>

definition header_valid :: "multiboot_header \<Rightarrow> bool" where
  "header_valid h \<longleftrightarrow> mh_magic h = MULTIBOOT_HEADER_MAGIC \<and> mh_magic h + mh_flags h + mh_checksum h = 0"

end
