(* ===== verification/Linked.thy ===== *)
theory Linked
  imports Samples
begin

text \<open>
  Singly linked lists threaded through structs in memory, as the allocator and the task queue use
  them: the interface of a node type (its link field, the bytes a node occupies) and what follows
  from it about chains of nodes. A chain starts at a header node and ends in a null link.
\<close>

fun chain :: "(addr \<Rightarrow> addr) \<Rightarrow> addr \<Rightarrow> addr list \<Rightarrow> bool" where
  "chain nx p [] \<longleftrightarrow> nx p = 0"
| "chain nx p (q # qs) \<longleftrightarrow> nx p = q \<and> q \<noteq> 0 \<and> chain nx q qs"

lemma chain_unique: "chain nx p qs \<Longrightarrow> chain nx p rs \<Longrightarrow> qs = rs"
proof (induction qs arbitrary: p rs)
  case Nil
  then show ?case by (cases rs) auto
next
  case (Cons q qs)
  then show ?case by (cases rs) auto
qed

lemma chain_split: "chain nx p (qs @ q # rs) \<Longrightarrow> chain nx q rs"
  by (induction qs arbitrary: p) auto

lemma chain_distinct: "chain nx p qs \<Longrightarrow> distinct (p # qs)"
proof (induction qs arbitrary: p)
  case Nil
  then show ?case by simp
next
  case (Cons q qs)
  have "p \<notin> set (q # qs)"
  proof
    assume "p \<in> set (q # qs)"
    then obtain us vs where "q # qs = us @ p # vs" by (meson split_list)
    then have "chain nx p vs" using Cons.prems chain_split by metis
    then have "vs = q # qs" using Cons.prems chain_unique by blast
    then have "length (q # qs) < length (q # qs)" using \<open>q # qs = us @ p # vs\<close>
      by (metis add_Suc_right length_Cons length_append less_add_Suc2)
    then show False by simp
  qed
  then show ?case using Cons by auto
qed

lemma chain_cong: "(\<And>q. q \<in> set (p # qs) \<Longrightarrow> nx' q = nx q) \<Longrightarrow> chain nx p qs \<Longrightarrow> chain nx' p qs"
proof (induction qs arbitrary: p)
  case (Cons q qs)
  then show ?case by (metis chain.simps(2) list.set_intros(1) list.set_intros(2))
qed simp

lemma chain_relink:
  assumes "chain nx p qs" and "nx' h = nx p" and "\<And>q. q \<in> set qs \<Longrightarrow> nx' q = nx q"
  shows "chain nx' h qs"
proof (cases qs)
  case (Cons q rs)
  then show ?thesis using assms chain_cong [of q rs nx' nx] by simp
qed (use assms in simp)

text \<open>
  A path visits the nodes of a list one after the other and arrives at its end; a ring is a path
  that arrives where it starts. \<open>backs\<close> says that the back links follow a list.
\<close>

fun path :: "(addr \<Rightarrow> addr) \<Rightarrow> addr \<Rightarrow> addr list \<Rightarrow> addr \<Rightarrow> bool" where
  "path nx p [] e \<longleftrightarrow> p = e"
| "path nx p (q # qs) e \<longleftrightarrow> p = q \<and> path nx (nx q) qs e"

fun backs :: "(addr \<Rightarrow> addr) \<Rightarrow> addr \<Rightarrow> addr list \<Rightarrow> bool" where
  "backs pv p [] \<longleftrightarrow> True"
| "backs pv p (q # qs) \<longleftrightarrow> pv q = p \<and> backs pv q qs"

lemma path_append: "path nx p (qs @ rs) e \<longleftrightarrow> (\<exists>y. path nx p qs y \<and> path nx y rs e)"
  by (induction qs arbitrary: p) auto

lemma path_cong: "(\<And>q. q \<in> set qs \<Longrightarrow> nx' q = nx q) \<Longrightarrow> path nx' p qs e = path nx p qs e"
  by (induction qs arbitrary: p) auto

lemma path_nth:
  "path nx p qs e \<Longrightarrow> i < length qs \<Longrightarrow> nx (qs ! i) = (if Suc i < length qs then qs ! Suc i else e)"
proof (induction qs arbitrary: p i)
  case (Cons q qs)
  then show ?case by (cases i; cases qs) auto
qed simp

lemma path_in: "path nx p qs e \<Longrightarrow> q \<in> set qs \<Longrightarrow> nx q = e \<or> nx q \<in> set qs"
proof (induction qs arbitrary: p)
  case (Cons r rs)
  then show ?case by (cases rs) auto
qed simp

lemma backs_nth: "backs pv p qs \<Longrightarrow> i < length qs \<Longrightarrow> pv (qs ! i) = (if i = 0 then p else qs ! (i - 1))"
proof (induction qs arbitrary: p i)
  case (Cons q qs)
  then show ?case by (cases i) (auto simp: nth_Cons')
qed simp

lemma backs_append: "backs pv p (qs @ rs) \<longleftrightarrow> backs pv p qs \<and> backs pv (last (p # qs)) rs"
  by (induction qs arbitrary: p) auto

lemma backs_cong: "(\<And>q. q \<in> set qs \<Longrightarrow> pv' q = pv q) \<Longrightarrow> backs pv' p qs = backs pv p qs"
  by (induction qs arbitrary: p) auto

text \<open>Distinct nodes do not overlap.\<close>

definition nodes_sep :: "nat \<Rightarrow> addr list \<Rightarrow> bool" where
  "nodes_sep n ps \<longleftrightarrow> (\<forall>p \<in> set ps. \<forall>q \<in> set ps. p \<noteq> q \<longrightarrow> sep p n q n)"

lemma nodes_sepD: "nodes_sep n ps \<Longrightarrow> p \<in> set ps \<Longrightarrow> q \<in> set ps \<Longrightarrow> p \<noteq> q \<Longrightarrow> sep p n q n"
  by (simp add: nodes_sep_def)

lemma nodes_sep_subset: "nodes_sep n ps \<Longrightarrow> set qs \<subseteq> set ps \<Longrightarrow> nodes_sep n qs"
  by (auto simp: nodes_sep_def)

lemma nodes_sep_Cons: "nodes_sep n ps \<Longrightarrow> (\<And>q. q \<in> set ps \<Longrightarrow> sep p n q n) \<Longrightarrow> nodes_sep n (p # ps)"
  unfolding nodes_sep_def by (metis sep_sym set_ConsD)

locale linked =
  fixes nxt :: "mem \<Rightarrow> addr \<Rightarrow> addr"
    and set_nxt :: "mem \<Rightarrow> addr \<Rightarrow> addr \<Rightarrow> mem"
    and node :: nat
  assumes nxt_set: "nxt (set_nxt m p v) p = v"
    and set_outside: "\<not> inreg p node x \<Longrightarrow> set_nxt m p v x = m x"
    and nxt_local: "(\<And>x. inreg p node x \<Longrightarrow> m x = m' x) \<Longrightarrow> nxt m p = nxt m' p"
begin

lemma nxt_frame:
  "sep a n q node \<Longrightarrow> (\<And>x. \<not> inreg a n x \<Longrightarrow> m' x = m x) \<Longrightarrow> nxt m' q = nxt m q"
  by (rule nxt_local) (use sep_notin in blast)

lemma nxt_set_other: "sep p node q node \<Longrightarrow> nxt (set_nxt m p v) q = nxt m q"
  by (rule nxt_frame) (auto simp: set_outside)

text \<open>A write that misses every node keeps the chain.\<close>

lemma chain_frame:
  assumes "chain (nxt m) p qs" and "\<And>q. q \<in> set (p # qs) \<Longrightarrow> sep a n q node"
    and "\<And>x. \<not> inreg a n x \<Longrightarrow> m' x = m x"
  shows "chain (nxt m') p qs"
  by (rule chain_cong [OF _ assms(1)]) (use assms(2,3) nxt_frame in blast)

text \<open>Linking a new node in after the header, and unlinking the node after \<open>p\<close>.\<close>

lemma chain_insert:
  assumes "chain (nxt m) p qs" and "new \<noteq> 0" and "nxt m new = nxt m p"
    and "sep p node new node" and "\<And>q. q \<in> set qs \<Longrightarrow> sep p node q node"
  shows "chain (nxt (set_nxt m p new)) p (new # qs)"
proof (cases qs)
  case Nil
  then show ?thesis using assms by (simp add: nxt_set nxt_set_other)
next
  case (Cons q rs)
  have "chain (nxt (set_nxt m p new)) q rs"
    by (rule chain_cong [of q rs _ "nxt m"])
      (use assms Cons nxt_set_other in \<open>auto intro!: nxt_set_other\<close>)
  then show ?thesis using assms Cons by (simp add: nxt_set nxt_set_other)
qed

lemma chain_unlink:
  assumes "chain (nxt m) p (q # qs)" and "\<And>r. r \<in> set qs \<Longrightarrow> sep p node r node"
  shows "chain (nxt (set_nxt m p (nxt m q))) p qs"
proof (cases qs)
  case Nil
  then show ?thesis using assms by (simp add: nxt_set)
next
  case (Cons r rs)
  have "chain (nxt (set_nxt m p (nxt m q))) r rs"
    by (rule chain_cong [of r rs _ "nxt m"])
      (use assms Cons nxt_set_other in \<open>auto intro!: nxt_set_other\<close>)
  then show ?thesis using assms Cons by (simp add: nxt_set)
qed

text \<open>Unlinking a node from the middle: its predecessor gets its link.\<close>

lemma chain_unlink_mid:
  assumes "chain (nxt m) p (us @ q # vs)" and "nodes_sep node (p # us @ q # vs)"
  shows "chain (nxt (set_nxt m (last (p # us)) (nxt m q))) p (us @ vs)"
  using assms
proof (induction us arbitrary: p)
  case Nil
  have "sep p node r node" if "r \<in> set vs" for r
    using Nil that chain_distinct [OF Nil(1)] by (intro nodes_sepD [OF Nil(2)]) auto
  then show ?case using chain_unlink [of m p q vs] Nil by simp
next
  case (Cons u us)
  have "distinct (p # u # us @ q # vs)" using chain_distinct [OF Cons(2)] by simp
  then have "last (u # us) \<noteq> p" by (metis Un_iff distinct.simps(2) last_in_set list.distinct(1) set_append append_Cons)
  then have "sep (last (u # us)) node p node"
    by (intro nodes_sepD [OF Cons(3)]) (use last_in_set [of "u # us"] in auto)
  then have "nxt (set_nxt m (last (u # us)) (nxt m q)) p = nxt m p"
    by (rule nxt_set_other)
  moreover have "nodes_sep node (u # us @ q # vs)"
    by (rule nodes_sep_subset [OF Cons(3)]) auto
  ultimately show ?case
    using Cons(1) [of u] Cons(2) by (cases us) auto
qed

text \<open>The same on paths: a node is put in before the end, or taken out behind another.\<close>

lemma path_set_other:
  assumes "p \<notin> set qs" and "nodes_sep node (p # qs)"
  shows "path (nxt (set_nxt m p v)) a qs e = path (nxt m) a qs e"
proof (rule path_cong)
  fix q
  assume "q \<in> set qs"
  then have "sep p node q node" using assms by (intro nodes_sepD [OF assms(2)]) auto
  then show "nxt (set_nxt m p v) q = nxt m q" by (rule nxt_set_other)
qed

lemma path_extend:
  assumes "path (nxt m) a (qs @ [t]) e" and "nxt m new = e'" and "distinct (qs @ [t, new])"
    and "nodes_sep node (qs @ [t, new])"
  shows "path (nxt (set_nxt m t new)) a (qs @ [t, new]) e'"
proof -
  have "path (nxt m) a qs t" using assms(1) by (auto simp: path_append)
  then have "path (nxt (set_nxt m t new)) a qs t"
    using path_set_other [of t qs m new a t] assms(3) nodes_sep_subset [OF assms(4), of "t # qs"] by auto
  moreover have "nxt (set_nxt m t new) new = e'"
    using assms(2,3) nodes_sepD [OF assms(4), of t new] by (simp add: nxt_set_other)
  ultimately show ?thesis by (auto simp: path_append nxt_set)
qed

lemma path_unlink:
  assumes "path (nxt m) a (us @ p # q # vs) e" and "distinct (us @ p # q # vs)"
    and "nodes_sep node (us @ p # q # vs)"
  shows "path (nxt (set_nxt m p (nxt m q))) a (us @ p # vs) e"
proof -
  have p: "p \<notin> set us" "p \<notin> set vs" using assms(2) by auto
  have "nodes_sep node (p # us)" "nodes_sep node (p # vs)"
    by (rule nodes_sep_subset [OF assms(3)], auto)+
  note o = path_set_other [OF p(1) this(1)] path_set_other [OF p(2) this(2)]
  show ?thesis using assms(1) by (auto simp: path_append o nxt_set)
qed

end

end
