(* ===== verification/Mem.thy ===== *)
theory Mem
  imports Multiboot Linked Term
begin

text \<open>
  The allocator of \<^verbatim>\<open>mem.c\<close>. A block is described by a 16-byte node (\<open>mp_t\<close>) that lives in memory;
  free and used blocks hang off the header nodes \<^verbatim>\<open>mm_free\<close> and \<^verbatim>\<open>mm_used\<close>.
\<close>

section \<open>Nodes: mp\_t\<close>

definition mp_prev :: "mem \<Rightarrow> addr \<Rightarrow> addr" where "mp_prev m p = load32 m p"
definition mp_next :: "mem \<Rightarrow> addr \<Rightarrow> addr" where "mp_next m p = load32 m (p + 4)"
definition mp_address :: "mem \<Rightarrow> addr \<Rightarrow> addr" where "mp_address m p = load32 m (p + 8)"
definition mp_size :: "mem \<Rightarrow> addr \<Rightarrow> 32 word" where "mp_size m p = load32 m (p + 12)"

definition set_prev :: "mem \<Rightarrow> addr \<Rightarrow> addr \<Rightarrow> mem" where "set_prev m p v = store32 m p v"
definition set_next :: "mem \<Rightarrow> addr \<Rightarrow> addr \<Rightarrow> mem" where "set_next m p v = store32 m (p + 4) v"
definition set_address :: "mem \<Rightarrow> addr \<Rightarrow> addr \<Rightarrow> mem" where "set_address m p v = store32 m (p + 8) v"
definition set_size :: "mem \<Rightarrow> addr \<Rightarrow> 32 word \<Rightarrow> mem" where "set_size m p v = store32 m (p + 12) v"

lemmas mp_defs = mp_prev_def mp_next_def mp_address_def mp_size_def
  set_prev_def set_next_def set_address_def set_size_def

section \<open>Stacks: stack\_t\<close>

text \<open>32 pointers, then the index of the next free slot; neither operation checks it.\<close>

definition stack_top :: "mem \<Rightarrow> addr \<Rightarrow> addr" where
  "stack_top m stk = load32 m (stk + 128)"

definition init_stack :: "addr \<Rightarrow> mem \<Rightarrow> mem" where
  "init_stack stk m = store32 m (stk + 128) 0"

definition stack_push_word :: "addr \<Rightarrow> addr \<Rightarrow> mem \<Rightarrow> mem" where
  "stack_push_word stk v m =
     (let m1 = store32 m (stk + 4 * stack_top m stk) v
      in store32 m1 (stk + 128) (stack_top m1 stk + 1))"

definition stack_push :: "addr \<Rightarrow> addr \<Rightarrow> mem \<Rightarrow> mem" where
  "stack_push stk el m = stack_push_word stk (load32 m el) m"

definition stack_pop :: "addr \<Rightarrow> mem \<Rightarrow> addr \<times> mem" where
  "stack_pop stk m =
     (let m1 = store32 m (stk + 128) (stack_top m stk - 1)
      in (load32 m1 (stk + 4 * (stack_top m1 stk + 1)), m1))"

section \<open>Lists of blocks\<close>

definition add_mm_list_entry :: "addr \<Rightarrow> addr \<Rightarrow> mem \<Rightarrow> mem" where
  "add_mm_list_entry entry new m =
     (let m1 = set_prev m new entry;
          m2 = set_next m1 new (mp_next m1 entry)
      in set_next m2 entry new)"

definition remove_mm_list_entry :: "addr \<Rightarrow> mem \<Rightarrow> mem" where
  "remove_mm_list_entry entry m =
     (let prev = mp_prev m entry; next = mp_next m entry;
          m1 = set_next m prev next;
          m2 = set_prev m1 next prev;
          m3 = set_prev m2 entry 0
      in set_next m3 entry 0)"

section \<open>malloc and free\<close>

text \<open>\<open>temp->size <= size * 1.25\<close> is exact in double arithmetic on 32-bit sizes.\<close>

definition good_buddy :: "32 word \<Rightarrow> 32 word \<Rightarrow> bool" where
  "good_buddy have want \<longleftrightarrow> want \<le> have \<and> 4 * unat have \<le> 5 * unat want"

text \<open>The search: \<open>Inl\<close> a block that fits, or \<open>Inr\<close> the largest block seen.\<close>

partial_function (option) malloc_scan ::
  "mem \<Rightarrow> 32 word \<Rightarrow> addr \<Rightarrow> addr \<Rightarrow> (addr + addr) option" where
  "malloc_scan m sz temp largest =
     (if mp_next m temp \<noteq> 0 then
        (if good_buddy (mp_size m temp) sz then Some (Inl temp)
         else malloc_scan m sz (mp_next m temp)
                (if mp_size m largest < mp_size m temp then temp else largest))
      else Some (Inr largest))"

definition sizeof_mp :: "32 word" where "sizeof_mp = 16"

text \<open>Carving a block off the end of \<open>largest\<close>; \<^verbatim>\<open>temp + sizeof(mp_t)\<close> counts in nodes of 16 bytes.\<close>

definition malloc_carve :: "syms \<Rightarrow> 32 word \<Rightarrow> addr \<Rightarrow> mem \<Rightarrow> addr \<times> mem" where
  "malloc_carve L sz largest m =
     (let m1 = set_size m largest (mp_size m largest - (sz + sizeof_mp));
          temp = mp_address m1 largest + mp_size m1 largest;
          m2 = set_size m1 temp sz;
          m3 = set_address m2 temp (temp + sizeof_mp * sizeof_mp)
      in (temp, add_mm_list_entry (s_mm_used L) temp m3))"

definition malloc :: "syms \<Rightarrow> 32 word \<Rightarrow> kstate \<Rightarrow> (addr \<times> kstate) comp" where
  "malloc L sz s =
     (case malloc_scan (ram s) sz (s_mm_free L) (s_mm_free L) of
        None \<Rightarrow> None
      | Some (Inl temp) \<Rightarrow>
          ret (temp, with_ram (\<lambda>m. add_mm_list_entry (s_mm_used L) temp (remove_mm_list_entry temp m)) s)
      | Some (Inr largest) \<Rightarrow>
          if mp_size (ram s) largest < sz then kernel_panic ''STRAIGHT UP OUT OF RAM!!'' s
          else let (temp, m) = malloc_carve L sz largest (ram s) in ret (temp, s\<lparr>ram := m\<rparr>))"

definition malloc_raw :: "syms \<Rightarrow> 32 word \<Rightarrow> kstate \<Rightarrow> (addr \<times> kstate) comp" where
  "malloc_raw L sz s = bindc (malloc L sz s) (\<lambda>(p, s'). ret (mp_address (ram s') p, s'))"

definition free :: "syms \<Rightarrow> addr \<Rightarrow> mem \<Rightarrow> mem" where
  "free L entry m = add_mm_list_entry (s_mm_free L) entry (remove_mm_list_entry entry m)"

section \<open>init\_mm\<close>

partial_function (option) init_mm_scan :: "syms \<Rightarrow> addr \<Rightarrow> addr \<Rightarrow> mem \<Rightarrow> mem option" where
  "init_mm_scan L mbd mmap m =
     (if mmap < mbd_mmap_addr m mbd + mbd_mmap_length m mbd then
        (let m' = stack_push_word (if mmap_type m mmap = 1 then s_mb_free L else s_used L) mmap m
         in init_mm_scan L mbd (mmap + mmap_size m' mmap + 4) m')
      else Some m)"

definition mm_heap_size :: "64 word" where "mm_heap_size = 16 * 256"

definition init_header :: "addr \<Rightarrow> addr \<Rightarrow> 32 word \<Rightarrow> mem \<Rightarrow> mem" where
  "init_header h a sz m = set_size (set_address (set_prev (set_next m h 0) h 0) h a) h sz"

definition init_mm_lists :: "syms \<Rightarrow> addr \<Rightarrow> kstate \<Rightarrow> kstate comp" where
  "init_mm_lists L free_top s =
     (if mm_heap_size < mmap_len (ram s) free_top then
        (let bottom = mmap_addr (ram s) free_top;
             top = bottom + mm_heap_size;
             m1 = set_address (set_prev (set_next (ram s) (s_mm_free L) 0) (s_mm_free L) 0)
                    (s_mm_free L) (ucast top);
             m2 = set_size m1 (s_mm_free L) (ucast (mmap_len m1 free_top - mm_heap_size));
             m3 = init_header (s_mm_used L) (ucast bottom) (ucast mm_heap_size) m2
         in ret (s\<lparr>ram := m3, mm_heap_bottom := bottom, mm_heap_top := top\<rparr>))
      else kernel_panic ''init_mm: Rats! Not enough free memory!'' s)"

definition init_mm :: "syms \<Rightarrow> addr \<Rightarrow> kstate \<Rightarrow> kstate comp" where
  "init_mm L mbd s =
     (let m0 = init_stack (s_used L) (init_stack (s_mb_free L) (ram s));
          sz = mbd_mem_lower m0 mbd + mbd_mem_upper m0 mbd + 1024
      in case init_mm_scan L mbd (mbd_mmap_addr m0 mbd) m0 of
           None \<Rightarrow> None
         | Some m1 \<Rightarrow>
             let free_top = load32 m1 (s_mb_free L + 4 * (stack_top m1 (s_mb_free L) - 1))
             in bindc (init_mm_lists L free_top (s\<lparr>ram := m1, mem_size := sz\<rparr>)) (\<lambda>s2.
                bindc (malloc L 1024 s2) (\<lambda>(test, s3). ret (with_ram (free L test) s3))))"

section \<open>Reports\<close>

definition term_writenum :: "syms \<Rightarrow> cint \<Rightarrow> cint \<Rightarrow> kstate \<Rightarrow> kstate option" where
  "term_writenum L val base s =
     (case itoa L val base (ram s) of None \<Rightarrow> None
      | Some (p, m) \<Rightarrow> term_writestring p (s\<lparr>ram := m\<rparr>))"

definition print_mem_entry :: "syms \<Rightarrow> string \<Rightarrow> addr \<Rightarrow> kstate \<Rightarrow> kstate option" where
  "print_mem_entry L tag entry s = do {
     s \<leftarrow> Some (term_writelit ''\<newline>    '' s);
     s \<leftarrow> term_writenum L (mp_size (ram s) entry) 10 s;
     s \<leftarrow> Some (term_writelit ''  0x'' s);
     s \<leftarrow> term_writenum L (mp_address (ram s) entry) 16 s;
     s \<leftarrow> Some (term_writelit ''-'' s);
     s \<leftarrow> term_writenum L (mp_address (ram s) entry + mp_size (ram s) entry) 16 s;
     Some (term_writelit tag s) }"

partial_function (option) print_mem_list :: "syms \<Rightarrow> string \<Rightarrow> addr \<Rightarrow> kstate \<Rightarrow> kstate option" where
  "print_mem_list L tag entry s =
     (if mp_next (ram s) entry \<noteq> 0 then do {
        s' \<leftarrow> print_mem_entry L tag entry s;
        print_mem_list L tag (mp_next (ram s') entry) s' }
      else Some s)"

definition print_mem_map :: "syms \<Rightarrow> kstate \<Rightarrow> kstate option" where
  "print_mem_map L s = do {
     s \<leftarrow> print_mem_list L ''  [FREE]'' (s_mm_free L) s;
     s \<leftarrow> print_mem_list L ''  [USED]'' (s_mm_used L) s;
     Some (term_writelit ''\<newline>'' s) }"

function mem_dump_from :: "syms \<Rightarrow> addr \<Rightarrow> addr \<Rightarrow> addr \<Rightarrow> kstate \<Rightarrow> kstate option" where
  "mem_dump_from L data sz i s =
     (if i < sz then do {
        s1 \<leftarrow> term_writenum L (ucast (load8 (ram s) (data + i))) 16 s;
        mem_dump_from L data sz (i + 1) (term_writelit '':'' s1) }
      else Some s)"
  by pat_completeness auto
termination
  by (relation "measure (\<lambda>(L, data, sz, i, s). unat sz - unat i)") (simp_all add: count_up)

declare mem_dump_from.simps [simp del]

definition mem_dump :: "syms \<Rightarrow> addr \<Rightarrow> addr \<Rightarrow> kstate \<Rightarrow> kstate option" where
  "mem_dump L data sz s = do {
     s \<leftarrow> Some (term_writelit ''\<newline>'' s);
     s \<leftarrow> term_writenum L data 16 s;
     s \<leftarrow> Some (term_writelit ''|'' s);
     s \<leftarrow> mem_dump_from L data sz 0 s;
     Some (term_writelit ''\<newline>'' s) }"

section \<open>Reading the fields back\<close>

named_theorems mp_simps \<open>fields of nodes after writes to fields of nodes\<close>

lemma mp_same [mp_simps]:
  "mp_prev (set_prev m p v) p = v" "mp_prev (set_next m p v) p = mp_prev m p"
  "mp_prev (set_address m p v) p = mp_prev m p" "mp_prev (set_size m p v) p = mp_prev m p"
  "mp_next (set_prev m p v) p = mp_next m p" "mp_next (set_next m p v) p = v"
  "mp_next (set_address m p v) p = mp_next m p" "mp_next (set_size m p v) p = mp_next m p"
  "mp_address (set_prev m p v) p = mp_address m p" "mp_address (set_next m p v) p = mp_address m p"
  "mp_address (set_address m p v) p = v" "mp_address (set_size m p v) p = mp_address m p"
  "mp_size (set_prev m p v) p = mp_size m p" "mp_size (set_next m p v) p = mp_size m p"
  "mp_size (set_address m p v) p = mp_size m p" "mp_size (set_size m p v) p = v"
  by (simp_all add: mp_defs mem_simps sep_simps)

lemma set_outside_node:
  assumes "\<not> inreg p 16 x"
  shows "set_prev m p v x = m x" "set_next m p v x = m x"
    "set_address m p v x = m x" "set_size m p v x = m x"
proof -
  have "\<not> inreg p 4 x" "\<not> inreg (p + 4) 4 x" "\<not> inreg (p + 8) 4 x" "\<not> inreg (p + 12) 4 x"
    using assms inreg_mono [of p 4 x 16] inreg_sub [of p 4 4 x 16] inreg_sub [of p 8 4 x 16]
      inreg_sub [of p 12 4 x 16]
    by auto
  then show "set_prev m p v x = m x" "set_next m p v x = m x"
    "set_address m p v x = m x" "set_size m p v x = m x"
    by (simp_all add: mp_defs c32.st_outside)
qed

lemma mp_local:
  assumes "\<And>x. inreg p 16 x \<Longrightarrow> m x = m' x"
  shows "mp_prev m p = mp_prev m' p" "mp_next m p = mp_next m' p"
    "mp_address m p = mp_address m' p" "mp_size m p = mp_size m' p"
  unfolding mp_defs
  by (rule c32.ld_local, rule assms, erule inreg_mono inreg_sub, simp)+

lemma mp_frame:
  assumes "sep a n p 16" and "\<And>x. \<not> inreg a n x \<Longrightarrow> m' x = m x"
  shows "mp_prev m' p = mp_prev m p" "mp_next m' p = mp_next m p"
    "mp_address m' p = mp_address m p" "mp_size m' p = mp_size m p"
  by (rule mp_local, use assms sep_notin in blast)+

lemma mp_other [mp_simps]:
  assumes "sep p 16 q 16"
  shows "mp_prev (set_prev m p v) q = mp_prev m q" "mp_prev (set_next m p v) q = mp_prev m q"
    "mp_prev (set_address m p v) q = mp_prev m q" "mp_prev (set_size m p v) q = mp_prev m q"
    "mp_next (set_prev m p v) q = mp_next m q" "mp_next (set_next m p v) q = mp_next m q"
    "mp_next (set_address m p v) q = mp_next m q" "mp_next (set_size m p v) q = mp_next m q"
    "mp_address (set_prev m p v) q = mp_address m q" "mp_address (set_next m p v) q = mp_address m q"
    "mp_address (set_address m p v) q = mp_address m q" "mp_address (set_size m p v) q = mp_address m q"
    "mp_size (set_prev m p v) q = mp_size m q" "mp_size (set_next m p v) q = mp_size m q"
    "mp_size (set_address m p v) q = mp_size m q" "mp_size (set_size m p v) q = mp_size m q"
  by (rule mp_frame [OF assms], erule set_outside_node)+

lemma mp_other_sym [mp_simps]:
  assumes "sep q 16 p 16"
  shows "mp_prev (set_prev m p v) q = mp_prev m q" "mp_prev (set_next m p v) q = mp_prev m q"
    "mp_prev (set_address m p v) q = mp_prev m q" "mp_prev (set_size m p v) q = mp_prev m q"
    "mp_next (set_prev m p v) q = mp_next m q" "mp_next (set_next m p v) q = mp_next m q"
    "mp_next (set_address m p v) q = mp_next m q" "mp_next (set_size m p v) q = mp_next m q"
    "mp_address (set_prev m p v) q = mp_address m q" "mp_address (set_next m p v) q = mp_address m q"
    "mp_address (set_address m p v) q = mp_address m q" "mp_address (set_size m p v) q = mp_address m q"
    "mp_size (set_prev m p v) q = mp_size m q" "mp_size (set_next m p v) q = mp_size m q"
    "mp_size (set_address m p v) q = mp_size m q" "mp_size (set_size m p v) q = mp_size m q"
  using mp_other [of p q] assms by (simp_all add: sep_sym)

interpretation mm: linked mp_next set_next 16
  by unfold_locales (auto simp: mp_simps set_outside_node intro: mp_local)

section \<open>The search\<close>

text \<open>What the loop of \<open>malloc\<close> finds, over the list of nodes it visits (all but the last).\<close>

definition scan_spec :: "(addr \<Rightarrow> 32 word) \<Rightarrow> 32 word \<Rightarrow> addr list \<Rightarrow> addr \<Rightarrow> addr + addr" where
  "scan_spec sizes sz ps largest =
     (case find (\<lambda>p. good_buddy (sizes p) sz) ps of
        Some p \<Rightarrow> Inl p
      | None \<Rightarrow> Inr (fold (\<lambda>p best. if sizes best < sizes p then p else best) ps largest))"

lemma scan_spec_simps [simp]:
  "scan_spec sizes sz [] l = Inr l"
  "scan_spec sizes sz (p # ps) l =
     (if good_buddy (sizes p) sz then Inl p
      else scan_spec sizes sz ps (if sizes l < sizes p then p else l))"
  by (simp_all add: scan_spec_def split: option.split)

lemma malloc_scan_chain:
  "chain (mp_next m) p qs \<Longrightarrow>
     malloc_scan m sz p best = Some (scan_spec (mp_size m) sz (butlast (p # qs)) best)"
proof (induction qs arbitrary: p best)
  case Nil
  then show ?case by (simp add: malloc_scan.simps [of m sz p])
next
  case (Cons q qs)
  then show ?case by (simp add: malloc_scan.simps [of m sz p])
qed

lemma scan_found:
  "scan_spec sizes sz ps l = Inl p \<Longrightarrow>
     \<exists>us vs. ps = us @ p # vs \<and> good_buddy (sizes p) sz \<and> (\<forall>u \<in> set us. \<not> good_buddy (sizes u) sz)"
proof (induction ps arbitrary: l)
  case (Cons q ps)
  show ?case
  proof (cases "good_buddy (sizes q) sz")
    case True
    then have "p = q" using Cons.prems by simp
    with True show ?thesis by (intro exI [of _ "[]"] exI [of _ ps]) simp
  next
    case False
    then obtain us vs where "ps = us @ p # vs" "good_buddy (sizes p) sz"
      "\<forall>u \<in> set us. \<not> good_buddy (sizes u) sz"
      using Cons by fastforce
    with False show ?thesis by (intro exI [of _ "q # us"] exI [of _ vs]) simp
  qed
qed simp

lemma scan_largest:
  "scan_spec sizes sz ps l = Inr b \<Longrightarrow> b \<in> insert l (set ps)
     \<and> (\<forall>q \<in> insert l (set ps). sizes q \<le> sizes b) \<and> (\<forall>q \<in> set ps. \<not> good_buddy (sizes q) sz)"
proof (induction ps arbitrary: l)
  case (Cons q ps)
  show ?case
  proof (cases "good_buddy (sizes q) sz")
    case True
    then show ?thesis using Cons.prems by simp
  next
    case False
    then have "scan_spec sizes sz ps (if sizes l < sizes q then q else l) = Inr b"
      using Cons.prems by simp
    from Cons.IH [OF this] False show ?thesis
      by (auto split: if_splits intro: order_trans less_imp_le)
  qed
qed simp

section \<open>Adding and removing\<close>

lemma add_fields:
  assumes "sep e 16 new 16"
  defines "m' \<equiv> \<lambda>m. add_mm_list_entry e new m"
  shows "mp_prev (m' m) new = e" "mp_next (m' m) new = mp_next m e" "mp_next (m' m) e = new"
    "mp_address (m' m) new = mp_address m new" "mp_size (m' m) new = mp_size m new"
    "mp_prev (m' m) e = mp_prev m e" "mp_address (m' m) e = mp_address m e"
    "mp_size (m' m) e = mp_size m e"
  using assms by (simp_all add: add_mm_list_entry_def Let_def mp_simps sep_sym)

lemma add_outside:
  "\<not> inreg e 16 x \<Longrightarrow> \<not> inreg new 16 x \<Longrightarrow> add_mm_list_entry e new m x = m x"
  by (simp add: add_mm_list_entry_def Let_def set_outside_node)

lemma add_other:
  assumes "sep e 16 q 16" and "sep new 16 q 16"
  shows "mp_prev (add_mm_list_entry e new m) q = mp_prev m q"
    "mp_next (add_mm_list_entry e new m) q = mp_next m q"
    "mp_address (add_mm_list_entry e new m) q = mp_address m q"
    "mp_size (add_mm_list_entry e new m) q = mp_size m q"
  using assms by (simp_all add: add_mm_list_entry_def Let_def mp_simps)

lemma add_chain:
  assumes "chain (mp_next m) e qs" and "new \<noteq> 0" and "nodes_sep 16 (new # e # qs)"
    and "new \<noteq> e" and "new \<notin> set qs"
  shows "chain (mp_next (add_mm_list_entry e new m)) e (new # qs)"
proof -
  have en: "sep e 16 new 16" using nodes_sepD [OF assms(3), of e new] assms(4) by simp
  let ?m = "set_next (set_prev m new e) new (mp_next (set_prev m new e) e)"
  have sq: "sep new 16 q 16" if "q \<in> set (e # qs)" for q
    using nodes_sepD [OF assms(3), of new q] assms(4,5) that by auto
  have e_qs: "e \<notin> set qs" using chain_distinct [OF assms(1)] by simp
  have "chain (mp_next ?m) e qs"
    by (rule mm.chain_frame [OF assms(1) sq]) (auto simp: set_outside_node)
  then have "chain (mp_next (set_next ?m e new)) e (new # qs)"
    using assms(2) en sq e_qs
    by (intro mm.chain_insert) (auto simp: mp_simps intro: nodes_sepD [OF assms(3)])
  then show ?thesis by (simp add: add_mm_list_entry_def Let_def)
qed

text \<open>
  Unlinking a block whose links are right: its predecessor is what \<open>prev\<close> says and it has a
  successor. The list closes over it, and its own links are cleared.
\<close>

lemma remove_chain:
  assumes c: "chain (mp_next m) h (us @ t # vs)" and prev: "mp_prev m t = last (h # us)"
    and more: "vs \<noteq> []" and ns: "nodes_sep 16 (h # us @ t # vs)"
  shows "chain (mp_next (remove_mm_list_entry t m)) h (us @ vs)"
proof -
  have d: "distinct (h # us @ t # vs)" using chain_distinct [OF c] by simp
  obtain v vs' where vs: "vs = v # vs'" using more by (cases vs) auto
  have tv: "mp_next m t = v" using chain_split [OF c] vs by simp
  let ?p = "last (h # us)"
  have p_in: "?p \<in> set (h # us)" using last_in_set [of "h # us"] by simp
  define m1 where "m1 = set_next m ?p v"
  have c1: "chain (mp_next m1) h (us @ vs)"
    using mm.chain_unlink_mid [OF c ns] tv by (simp add: m1_def)
  define m2 where "m2 = set_prev m1 v ?p"
  have nx: "mp_next m2 q = mp_next m1 q" if "q \<in> set (h # us @ t # vs)" for q
  proof (cases "q = v")
    case False
    then have "sep v 16 q 16" using that vs by (intro nodes_sepD [OF ns]) auto
    then show ?thesis by (simp add: m2_def mp_simps)
  qed (simp add: m2_def mp_simps)
  have c2: "chain (mp_next m2) h (us @ vs)"
    by (rule chain_cong [OF nx c1]) auto
  have sq: "sep t 16 q 16" if "q \<in> set (h # us @ vs)" for q
    using that d by (intro nodes_sepD [OF ns]) auto
  have "chain (mp_next (set_next (set_prev m2 t 0) t 0)) h (us @ vs)"
    by (rule mm.chain_frame [OF c2 sq]) (auto simp: set_outside_node)
  then show ?thesis
    using prev tv by (simp add: remove_mm_list_entry_def Let_def m1_def m2_def)
qed

lemma remove_outside:
  assumes "\<not> inreg entry 16 x" and "\<not> inreg (mp_prev m entry) 16 x" and "\<not> inreg (mp_next m entry) 16 x"
  shows "remove_mm_list_entry entry m x = m x"
  using assms by (simp add: remove_mm_list_entry_def Let_def set_outside_node)

lemma remove_other:
  assumes "sep t 16 q 16" and "sep (mp_prev m t) 16 q 16" and "sep (mp_next m t) 16 q 16"
  shows "mp_prev (remove_mm_list_entry t m) q = mp_prev m q"
    "mp_next (remove_mm_list_entry t m) q = mp_next m q"
    "mp_address (remove_mm_list_entry t m) q = mp_address m q"
    "mp_size (remove_mm_list_entry t m) q = mp_size m q"
  using assms by (simp_all add: remove_mm_list_entry_def Let_def mp_simps)

lemma remove_self:
  assumes "sep (mp_prev m t) 16 t 16" and "sep (mp_next m t) 16 t 16"
  shows "mp_address (remove_mm_list_entry t m) t = mp_address m t"
    "mp_size (remove_mm_list_entry t m) t = mp_size m t"
  using assms by (simp_all add: remove_mm_list_entry_def Let_def mp_simps)

text \<open>
  Moving a block from one list to the other, which is what \<open>malloc\<close> does with a block that fits and
  what \<open>free\<close> does: \<open>t\<close> leaves the list of \<open>a\<close> and becomes the first of the list of \<open>b\<close>, and keeps
  its address and size.
\<close>

lemma move_block:
  fixes m a b t
  defines "m' \<equiv> add_mm_list_entry b t (remove_mm_list_entry t m)"
  assumes ca: "chain (mp_next m) a (us @ t # vs)" and prev: "mp_prev m t = last (a # us)"
    and more: "vs \<noteq> []" and cb: "chain (mp_next m) b ws"
    and ns: "nodes_sep 16 (a # us @ t # vs @ b # ws)" and d: "set (a # us @ t # vs) \<inter> set (b # ws) = {}"
  shows "chain (mp_next m') a (us @ vs)" and "chain (mp_next m') b (t # ws)"
    and "mp_address m' t = mp_address m t" and "mp_size m' t = mp_size m t"
proof -
  let ?m = "remove_mm_list_entry t m" and ?p = "last (a # us)" and ?n = "mp_next m t"
  have da: "distinct (a # us @ t # vs)" and db: "distinct (b # ws)"
    using chain_distinct [OF ca] chain_distinct [OF cb] by auto
  have t0: "t \<noteq> 0" using ca by (induction us arbitrary: a) auto
  have p_in: "?p \<in> set (a # us)" using last_in_set [of "a # us"] by simp
  have n_in: "?n \<in> set vs" using chain_split [OF ca] more by (cases vs) auto
  have pt: "?p \<noteq> t" "?n \<noteq> t" using da p_in n_in by auto
  have s: "sep p 16 q 16" if "p \<in> set (a # us @ t # vs)" "q \<in> set (b # ws)" for p q
    using that d by (intro nodes_sepD [OF ns]) auto
  have st: "sep ?p 16 t 16" "sep ?n 16 t 16"
    using p_in n_in pt by (auto intro!: nodes_sepD [OF ns])
  have ca': "chain (mp_next ?m) a (us @ vs)"
    by (rule remove_chain [OF ca prev more]) (rule nodes_sep_subset [OF ns], auto)
  have "mp_next ?m q = mp_next m q" if "q \<in> set (b # ws)" for q
    using s [OF _ that] p_in n_in prev by (intro remove_other) auto
  then have cb': "chain (mp_next ?m) b ws" by (rule chain_cong [OF _ cb])
  have "t \<noteq> b" "t \<notin> set ws" using d by auto
  then show "chain (mp_next m') b (t # ws)"
    unfolding m'_def by (intro add_chain [OF cb' t0]) (auto intro: nodes_sep_subset [OF ns])
  have "mp_next m' q = mp_next ?m q" if q: "q \<in> set (a # us @ vs)" for q
  proof -
    have "q \<noteq> t" "q \<noteq> b" using q da d by auto
    then show ?thesis
      unfolding m'_def using q by (intro add_other nodes_sepD [OF ns]) auto
  qed
  then show "chain (mp_next m') a (us @ vs)" by (rule chain_cong [OF _ ca'])
  have "sep b 16 t 16" using s [of t b] by (simp add: sep_sym)
  then show "mp_address m' t = mp_address m t" "mp_size m' t = mp_size m t"
    using st prev by (simp_all add: m'_def add_fields remove_self)
qed

section \<open>Carving a new block\<close>

lemma carve_fields:
  fixes L m sz l
  defines "t \<equiv> mp_address m l + (mp_size m l - (sz + 16))"
    and "m' \<equiv> snd (malloc_carve L sz l m)"
  assumes lt: "sep l 16 t 16" and lu: "sep l 16 (s_mm_used L) 16" and ut: "sep (s_mm_used L) 16 t 16"
  shows "fst (malloc_carve L sz l m) = t"
    and "mp_size m' l = mp_size m l - (sz + 16)" "mp_address m' l = mp_address m l"
    and "mp_next m' l = mp_next m l" "mp_prev m' l = mp_prev m l"
    and "mp_size m' t = sz" "mp_address m' t = t + 256"
    and "mp_prev m' t = s_mm_used L" "mp_next m' t = mp_next m (s_mm_used L)"
    and "mp_next m' (s_mm_used L) = t"
    and "\<And>x. \<not> inreg l 16 x \<Longrightarrow> \<not> inreg t 16 x \<Longrightarrow> \<not> inreg (s_mm_used L) 16 x \<Longrightarrow> m' x = m x"
proof -
  let ?u = "s_mm_used L"
  let ?m1 = "set_size m l (mp_size m l - (sz + 16))"
  let ?m3 = "set_address (set_size ?m1 t sz) t (t + 256)"
  have c: "malloc_carve L sz l m = (t, add_mm_list_entry ?u t ?m3)"
    by (simp add: malloc_carve_def Let_def sizeof_mp_def mp_simps t_def)
  then show "fst (malloc_carve L sz l m) = t" by simp
  have m': "m' = add_mm_list_entry ?u t ?m3" by (simp add: m'_def c)
  note s = lt lu ut lu [unfolded sep_sym [of l]] ut [unfolded sep_sym [of ?u]] lt [unfolded sep_sym [of l]]
  show "mp_size m' l = mp_size m l - (sz + 16)" "mp_address m' l = mp_address m l"
    "mp_next m' l = mp_next m l" "mp_prev m' l = mp_prev m l"
    using s by (simp_all add: m' add_other mp_simps)
  show "mp_size m' t = sz" "mp_address m' t = t + 256"
    "mp_prev m' t = ?u" "mp_next m' t = mp_next m ?u" "mp_next m' ?u = t"
    using s by (simp_all add: m' add_fields mp_simps)
  show "m' x = m x" if "\<not> inreg l 16 x" "\<not> inreg t 16 x" "\<not> inreg ?u 16 x" for x
    using that by (simp add: m' add_outside set_outside_node)
qed

lemma malloc_carving:
  assumes "chain (mp_next (ram s)) (s_mm_free L) qs"
    and "scan_spec (mp_size (ram s)) sz (butlast (s_mm_free L # qs)) (s_mm_free L) = Inr l"
    and "sz \<le> mp_size (ram s) l"
  shows "malloc L sz s =
    ret (fst (malloc_carve L sz l (ram s)), s\<lparr>ram := snd (malloc_carve L sz l (ram s))\<rparr>)"
  using malloc_scan_chain [OF assms(1), of sz "s_mm_free L"] assms(2,3)
  by (simp add: malloc_def case_prod_beta not_less [symmetric])

section \<open>Properties\<close>

text \<open>
  Sample lists. Free: the header, a block of 100 bytes at 0x200000, one of 10 at 0x200100.
  Used: the header and a block at 0x200200.
\<close>

definition sample_blocks :: mem where
  "sample_blocks =
     set_size (set_next (set_prev (set_size (set_next (set_prev (set_size (set_next
       (set_next (set_prev (\<lambda>_. 0) 0x200200 0x101210) 0x101210 0x200200)
       0x101200 0x200000) 0x101200 8) 0x200000 0x101200) 0x200000 0x200100) 0x200000 100)
       0x200100 0x200000) 0x200100 0) 0x200100 10"

lemma null_node [simp]:
  "mp_prev (\<lambda>_. 0) p = 0" "mp_next (\<lambda>_. 0) p = 0" "mp_address (\<lambda>_. 0) p = 0" "mp_size (\<lambda>_. 0) p = 0"
  by (simp_all add: mp_defs)

lemma sample_blocks_simps [simp]:
  "mp_next sample_blocks 0x101200 = 0x200000" "mp_next sample_blocks 0x200000 = 0x200100"
  "mp_next sample_blocks 0x200100 = 0" "mp_next sample_blocks 0x101210 = 0x200200"
  "mp_next sample_blocks 0x200200 = 0" "mp_prev sample_blocks 0x200000 = 0x101200"
  "mp_size sample_blocks 0x101200 = 8" "mp_size sample_blocks 0x200000 = 100"
  "mp_size sample_blocks 0x200100 = 10" "mp_address sample_blocks 0x101200 = 0"
  "mp_address sample_blocks 0x200000 = 0" "mp_prev sample_blocks 0x200200 = 0x101210"
  by (simp_all add: sample_blocks_def mp_simps sep_simps)

text \<open>C1. \<open>malloc\<close> with a block that fits: on well-formed lists the first free block (in
  list order, the last node excepted) whose size is between the request and 1.25 times it is
  returned; it leaves the free list, heads the used list and keeps its address and size.\<close>

theorem malloc_reuses:
  assumes free_list: "chain (mp_next (ram s)) (s_mm_free L) (us @ t # vs)" and more: "vs \<noteq> []"
    and prev: "mp_prev (ram s) t = last (s_mm_free L # us)"
    and used_list: "chain (mp_next (ram s)) (s_mm_used L) ws"
    and nodes: "nodes_sep 16 (s_mm_free L # us @ t # vs @ s_mm_used L # ws)"
    and apart: "set (s_mm_free L # us @ t # vs) \<inter> set (s_mm_used L # ws) = {}"
    and fits: "good_buddy (mp_size (ram s) t) sz"
    and first: "\<forall>u \<in> set (s_mm_free L # us). \<not> good_buddy (mp_size (ram s) u) sz"
  shows "\<exists>m. malloc L sz s = ret (t, s\<lparr>ram := m\<rparr>)
    \<and> chain (mp_next m) (s_mm_free L) (us @ vs) \<and> chain (mp_next m) (s_mm_used L) (t # ws)
    \<and> mp_address m t = mp_address (ram s) t \<and> mp_size m t = mp_size (ram s) t"
proof -
  let ?f = "s_mm_free L" and ?u = "s_mm_used L"
  let ?m = "add_mm_list_entry ?u t (remove_mm_list_entry t (ram s))"
  have pre: "scan_spec (mp_size (ram s)) sz (ps @ t # qs) l = Inl t"
    if "\<forall>u \<in> set ps. \<not> good_buddy (mp_size (ram s) u) sz" for ps qs l
    using that fits by (induction ps arbitrary: l) simp_all
  have "butlast (?f # us @ t # vs) = (?f # us) @ t # butlast vs"
    using more by (simp add: butlast_append)
  then have "malloc_scan (ram s) sz ?f ?f = Some (Inl t)"
    using malloc_scan_chain [OF free_list, of sz ?f] pre [OF first] by simp
  then have "malloc L sz s = ret (t, s\<lparr>ram := ?m\<rparr>)"
    by (simp add: malloc_def)
  then show ?thesis
    using move_block [OF free_list prev more used_list nodes apart] by blast
qed

lemma malloc_reuses_witness:
  "\<exists>m. malloc sample_syms 90 (sample_state\<lparr>ram := sample_blocks\<rparr>) =
      ret (0x200000, sample_state\<lparr>ram := m\<rparr>)
    \<and> chain (mp_next m) 0x101210 [0x200000, 0x200200] \<and> mp_size m 0x200000 = 100"
proof -
  let ?s = "sample_state\<lparr>ram := sample_blocks\<rparr>"
  have "\<exists>m. malloc sample_syms 90 ?s = ret (0x200000, ?s\<lparr>ram := m\<rparr>)
    \<and> chain (mp_next m) (s_mm_free sample_syms) ([] @ [0x200100])
    \<and> chain (mp_next m) (s_mm_used sample_syms) [0x200000, 0x200200]
    \<and> mp_address m 0x200000 = mp_address (ram ?s) 0x200000
    \<and> mp_size m 0x200000 = mp_size (ram ?s) 0x200000"
    by (rule malloc_reuses) (simp_all add: nodes_sep_def sep_simps good_buddy_def)
  then show ?thesis by auto
qed

text \<open>C17. \<open>malloc\<close> when no free block fits: it takes the largest of the nodes it visits,
  which holds the request, shrinks it by the request and the size of a node, puts a new node
  where the rest begins, records the request's size in it and links it at the head of the used
  list. Nothing but the three nodes is written.\<close>

theorem malloc_carves:
  assumes free_list: "chain (mp_next (ram s)) (s_mm_free L) qs"
    and none: "scan_spec (mp_size (ram s)) sz (butlast (s_mm_free L # qs)) (s_mm_free L) = Inr l"
    and enough: "sz \<le> mp_size (ram s) l"
    and t: "t = mp_address (ram s) l + (mp_size (ram s) l - (sz + 16))"
    and apart: "sep l 16 t 16" "sep l 16 (s_mm_used L) 16" "sep (s_mm_used L) 16 t 16"
  shows "\<exists>m. malloc L sz s = ret (t, s\<lparr>ram := m\<rparr>)
    \<and> (\<forall>q \<in> set (butlast (s_mm_free L # qs)). mp_size (ram s) q \<le> mp_size (ram s) l)
    \<and> mp_size m l = mp_size (ram s) l - (sz + 16) \<and> mp_address m l = mp_address (ram s) l
    \<and> mp_next m l = mp_next (ram s) l \<and> mp_size m t = sz
    \<and> mp_prev m t = s_mm_used L \<and> mp_next m t = mp_next (ram s) (s_mm_used L)
    \<and> mp_next m (s_mm_used L) = t
    \<and> (\<forall>x. inreg l 16 x \<or> inreg t 16 x \<or> inreg (s_mm_used L) 16 x \<or> m x = ram s x)"
proof -
  let ?m = "snd (malloc_carve L sz l (ram s))"
  note f = carve_fields [where L = L and m = "ram s" and l = l and sz = sz, folded t, OF apart]
  have "malloc L sz s = ret (t, s\<lparr>ram := ?m\<rparr>)"
    using malloc_carving [OF free_list none enough] f(1) by simp
  then show ?thesis
    using f scan_largest [OF none] by (intro exI [of _ ?m]) auto
qed

lemma malloc_carves_witness:
  "\<exists>m. malloc sample_syms 50 (sample_state\<lparr>ram := set_address sample_blocks 0x200000 0x300000\<rparr>) =
      ret (0x300022, sample_state\<lparr>ram := m\<rparr>)
    \<and> mp_size m 0x200000 = 34 \<and> mp_size m 0x300022 = 50"
proof -
  let ?s = "sample_state\<lparr>ram := set_address sample_blocks 0x200000 0x300000\<rparr>"
  have "chain (mp_next (ram ?s)) (s_mm_free sample_syms) [0x200000, 0x200100]"
    by (simp add: mp_simps sep_simps)
  moreover have "scan_spec (mp_size (ram ?s)) 50 (butlast (s_mm_free sample_syms # [0x200000, 0x200100]))
      (s_mm_free sample_syms) = Inr 0x200000"
    by (simp add: mp_simps sep_simps good_buddy_def)
  ultimately show ?thesis
    using malloc_carves [where s = ?s and L = sample_syms and qs = "[0x200000, 0x200100]" and sz = 50 and l = "0x200000" and t = "0x300022"]
    by (auto simp: mp_simps sep_simps)
qed

text \<open>C35. The block that \<open>malloc\<close> carves does not lie in the space it carved: the
  payload starts 256 bytes after the node, not 16, so it ends 240 bytes beyond the end of the block
  it was taken from.\<close>

theorem malloc_overruns:
  assumes "chain (mp_next (ram s)) (s_mm_free L) qs"
    and "scan_spec (mp_size (ram s)) sz (butlast (s_mm_free L # qs)) (s_mm_free L) = Inr l"
    and "sz \<le> mp_size (ram s) l"
    and "t = mp_address (ram s) l + (mp_size (ram s) l - (sz + 16))"
    and "sep l 16 t 16" "sep l 16 (s_mm_used L) 16" "sep (s_mm_used L) 16 t 16"
  shows "\<exists>m. malloc L sz s = ret (t, s\<lparr>ram := m\<rparr>)
    \<and> mp_address m t + mp_size m t = mp_address (ram s) l + mp_size (ram s) l + 240"
proof -
  let ?m = "snd (malloc_carve L sz l (ram s))"
  note f = carve_fields [where L = L and m = "ram s" and l = l and sz = sz, folded assms(4),
      OF assms(5-7)]
  have "malloc L sz s = ret (t, s\<lparr>ram := ?m\<rparr>)"
    using malloc_carving [OF assms(1-3)] f(1) by simp
  then show ?thesis
    using f(6,7) assms(4) by (intro exI [of _ ?m]) simp
qed

lemma malloc_overruns_witness:
  "\<exists>m. malloc sample_syms 50 (sample_state\<lparr>ram := set_address sample_blocks 0x200000 0x300000\<rparr>) =
      ret (0x300022, sample_state\<lparr>ram := m\<rparr>)
    \<and> mp_address m 0x300022 + mp_size m 0x300022 = 0x300000 + 100 + 240"
proof -
  let ?s = "sample_state\<lparr>ram := set_address sample_blocks 0x200000 0x300000\<rparr>"
  have "chain (mp_next (ram ?s)) (s_mm_free sample_syms) [0x200000, 0x200100]"
    by (simp add: mp_simps sep_simps)
  moreover have "scan_spec (mp_size (ram ?s)) 50 (butlast (s_mm_free sample_syms # [0x200000, 0x200100]))
      (s_mm_free sample_syms) = Inr 0x200000"
    by (simp add: mp_simps sep_simps good_buddy_def)
  ultimately show ?thesis
    using malloc_overruns [where s = ?s and L = sample_syms and qs = "[0x200000, 0x200100]" and sz = 50 and l = "0x200000" and t = "0x300022"]
    by (auto simp: mp_simps sep_simps)
qed

text \<open>C33. When the largest block visited is smaller than the request, \<open>malloc\<close> does not
  return: it panics, and the message is all that has changed.\<close>

theorem malloc_panics:
  assumes "chain (mp_next (ram s)) (s_mm_free L) qs"
    and "\<forall>q \<in> set (s_mm_free L # qs). mp_size (ram s) q < sz"
    and "geometry_ok (tty0 s)" and "cursor_ok (tty0 s)"
  shows "\<exists>s'. malloc L sz s = Some (Inl (Panic s')) \<and> rest s' = rest s
    \<and> (\<forall>a. in_frame (tty0 s) a \<or> ram s' a = ram s a)"
proof -
  let ?ps = "butlast (s_mm_free L # qs)"
  have small: "\<not> good_buddy (mp_size (ram s) q) sz" if "q \<in> set ?ps" for q
    using assms(2) in_set_butlastD [OF that] by (auto simp: good_buddy_def)
  show ?thesis
  proof (cases "scan_spec (mp_size (ram s)) sz ?ps (s_mm_free L)")
    case (Inl p)
    from scan_found [OF this] obtain us vs where "?ps = us @ p # vs" "good_buddy (mp_size (ram s) p) sz"
      by blast
    then show ?thesis using small [of p] by simp
  next
    case (Inr l)
    have "set ?ps \<subseteq> set (s_mm_free L # qs)" by (meson in_set_butlastD subsetI)
    then have "l \<in> set (s_mm_free L # qs)"
      using scan_largest [OF Inr] by auto
    then have "mp_size (ram s) l < sz" using assms(2) by blast
    then have "malloc L sz s = kernel_panic ''STRAIGHT UP OUT OF RAM!!'' s"
      using malloc_scan_chain [OF assms(1), of sz "s_mm_free L"] Inr by (simp add: malloc_def)
    then show ?thesis
      using kernel_panic_frame [OF assms(3,4), of "''STRAIGHT UP OUT OF RAM!!''"] by metis
  qed
qed

lemma malloc_panics_witness:
  "\<exists>s'. malloc sample_syms 1000 (sample_state\<lparr>ram := sample_blocks\<rparr>) = Some (Inl (Panic s'))"
  using malloc_panics [of "sample_state\<lparr>ram := sample_blocks\<rparr>" sample_syms "[0x200000, 0x200100]" 1000]
  by (auto simp: geometry_ok_def cursor_ok_def)

text \<open>C25. \<open>free\<close> of a used block that has a successor and whose back link is right:
  the block moves to the head of the free list, its address and size unchanged.\<close>

theorem free_returns:
  assumes used_list: "chain (mp_next m) (s_mm_used L) (us @ t # vs)" and more: "vs \<noteq> []"
    and prev: "mp_prev m t = last (s_mm_used L # us)"
    and free_list: "chain (mp_next m) (s_mm_free L) ws"
    and nodes: "nodes_sep 16 (s_mm_used L # us @ t # vs @ s_mm_free L # ws)"
    and apart: "set (s_mm_used L # us @ t # vs) \<inter> set (s_mm_free L # ws) = {}"
  shows "chain (mp_next (free L t m)) (s_mm_used L) (us @ vs)
    \<and> chain (mp_next (free L t m)) (s_mm_free L) (t # ws)
    \<and> mp_address (free L t m) t = mp_address m t \<and> mp_size (free L t m) t = mp_size m t"
  using move_block [OF used_list prev more free_list nodes apart] by (simp add: free_def)

lemma free_returns_witness:
  "chain (mp_next (free sample_syms 0x200000 (set_next (set_next (set_next (set_prev (\<lambda>_. 0) 0x200000 0x101210)
     0x101210 0x200000) 0x200000 0x200100) 0x101200 0x200200))) 0x101200 [0x200000, 0x200200]"
proof -
  let ?m = "set_next (set_next (set_next (set_prev (\<lambda>_. 0) 0x200000 0x101210)
     0x101210 0x200000) 0x200000 0x200100) 0x101200 0x200200"
  have "chain (mp_next ?m) (s_mm_used sample_syms) ([] @ 0x200000 # [0x200100])"
    and "mp_prev ?m 0x200000 = last (s_mm_used sample_syms # [])"
    and "chain (mp_next ?m) (s_mm_free sample_syms) [0x200200]"
    by (simp_all add: mp_simps sep_simps)
  from free_returns [OF this(1) _ this(2,3)] show ?thesis
    by (simp add: nodes_sep_def sep_simps)
qed

text \<open>C36. \<open>free\<close> of the last block of a list follows its null link: the first
  word of memory is overwritten with the address of the block's predecessor.\<close>

theorem free_last_writes_null:
  assumes "mp_next m t = 0" and "mp_prev m t = p"
    and "sep 0 16 t 16" "sep 0 16 p 16" "sep 0 16 (s_mm_free L) 16"
  shows "load32 (free L t m) 0 = p"
proof -
  have "load32 (free L t m) 0 = mp_prev (free L t m) 0" by (simp add: mp_prev_def)
  also have "\<dots> = p"
    using assms
    by (simp add: free_def add_other remove_mm_list_entry_def Let_def mp_simps sep_sym [of _ _ 0])
  finally show ?thesis .
qed

lemma free_last_writes_null_witness:
  "load32 (free sample_syms 0x200200 sample_blocks) 0 = 0x101210"
  by (rule free_last_writes_null) (simp_all add: sep_simps)

text \<open>\<open>add_mm_list_entry\<close> does not set the back link of the node it pushes
  down the list, so the lists are not doubly linked: after adding \<open>a\<close> and then \<open>b\<close>, removing \<open>a\<close>
  takes \<open>b\<close> out of the list as well.\<close>

theorem add_breaks_back_link:
  assumes "mp_next m h = c" and "nodes_sep 16 [h, a, b, c]" and "distinct [h, a, b, c]"
    and "m' = add_mm_list_entry h b (add_mm_list_entry h a m)"
  shows "mp_next m' h = b \<and> mp_next m' b = a \<and> mp_next m' a = c \<and> mp_prev m' a = h
    \<and> mp_next (remove_mm_list_entry a m') h = c"
proof -
  have s: "sep p 16 q 16" if "p \<in> set [h, a, b, c]" "q \<in> set [h, a, b, c]" "p \<noteq> q" for p q
    using nodes_sepD [OF assms(2)] that by blast
  have ha: "sep h 16 a 16" "sep h 16 b 16" "sep b 16 a 16" "sep h 16 c 16" "sep a 16 c 16" "sep b 16 c 16"
    "sep a 16 h 16" "sep b 16 h 16" "sep c 16 h 16"
    using assms(3) by (auto intro!: s)
  have m': "mp_next m' h = b" "mp_next m' b = a" "mp_next m' a = c" "mp_prev m' a = h"
    using assms(1,4) ha by (simp_all add: add_fields add_other)
  moreover have "mp_next (remove_mm_list_entry a m') h = c"
    using m' ha by (simp add: remove_mm_list_entry_def Let_def mp_simps)
  ultimately show ?thesis by blast
qed

lemma add_breaks_back_link_witness:
  "mp_next (remove_mm_list_entry 0x300000
     (add_mm_list_entry 0x101210 0x300100 (add_mm_list_entry 0x101210 0x300000 sample_blocks))) 0x101210
   = 0x200200"
proof -
  have "mp_next sample_blocks 0x101210 = 0x200200"
    "nodes_sep 16 [0x101210, 0x300000, 0x300100, 0x200200]"
    "distinct [0x101210, 0x300000, 0x300100, 0x200200 :: addr]"
    by (simp_all add: nodes_sep_def sep_simps)
  from add_breaks_back_link [OF this refl] show ?thesis by blast
qed

end
