(* ===== verification/Mem_Boot.thy ===== *)
theory Mem_Boot
  imports Mem Samples
begin

text \<open>
  How the allocator comes up (\<open>init_mm\<close>): the scan of the boot loader's memory map, and the lists
  the kernel starts with.
\<close>

section \<open>Stacks\<close>

lemma push_outside: "\<not> inreg stk 132 x \<Longrightarrow> unat (stack_top m stk) < 32 \<Longrightarrow> stack_push_word stk v m x = m x"
proof -
  assume x: "\<not> inreg stk 132 x" and t: "unat (stack_top m stk) < 32"
  have "unat (4 * stack_top m stk) = 4 * unat (stack_top m stk)" using t by (simp add: unat_word_ariths)
  then have "\<not> inreg (stk + 4 * stack_top m stk) 4 x" "\<not> inreg (stk + 128) 4 x"
    using inreg_fields(1) [OF x] t by simp_all
  then show ?thesis by (simp add: stack_push_word_def Let_def c32.st_outside)
qed

lemma push_fields:
  assumes "unat (stack_top m stk) < 32"
  defines "m' \<equiv> \<lambda>v. stack_push_word stk v m"
  shows "stack_top (m' v) stk = stack_top m stk + 1"
    and "load32 (m' v) (stk + 4 * stack_top m stk) = v"
    and "unat j < unat (stack_top m stk) \<Longrightarrow> load32 (m' v) (stk + 4 * j) = load32 m (stk + 4 * j)"
proof -
  let ?t = "stack_top m stk"
  have u: "unat (4 * k) = 4 * unat k" if "unat k < 32" for k :: addr using that by (simp add: unat_word_ariths)
  have st: "sep (stk + 4 * k) 4 (stk + 128) 4" if "unat k < 32" for k
    unfolding sep_same_base by (rule sep_below) (use u [OF that] that in simp_all)
  have "stack_top (store32 m (stk + 4 * ?t) v) stk = ?t"
    using st [OF assms(1)] by (simp add: stack_top_def mem_simps)
  then have m': "m' v = store32 (store32 m (stk + 4 * ?t) v) (stk + 128) (?t + 1)"
    by (simp add: m'_def stack_push_word_def Let_def)
  show "stack_top (m' v) stk = ?t + 1" unfolding m' by (simp add: stack_top_def mem_simps)
  show "load32 (m' v) (stk + 4 * ?t) = v" using st [OF assms(1)] unfolding m' by (simp add: mem_simps sep_sym)
  show "load32 (m' v) (stk + 4 * j) = load32 m (stk + 4 * j)" if j: "unat j < unat ?t"
  proof -
    have "unat j < 32" using j assms(1) by simp
    have "sep (4 * j) 4 (4 * ?t) 4" by (rule sep_below) (use u [OF \<open>unat j < 32\<close>] u [OF assms(1)] j assms(1) in simp_all)
    then have "sep (stk + 4 * j) 4 (stk + 4 * ?t) 4" by (simp add: sep_same_base)
    then show ?thesis using st [OF \<open>unat j < 32\<close>] unfolding m' by (simp add: mem_simps sep_sym)
  qed
qed

section \<open>The memory map\<close>

fun map_entries :: "mem \<Rightarrow> addr \<Rightarrow> addr \<Rightarrow> addr list \<Rightarrow> bool" where
  "map_entries m e limit [] \<longleftrightarrow> \<not> e < limit"
| "map_entries m e limit (a # as) \<longleftrightarrow> e = a \<and> e < limit \<and> map_entries m (e + mmap_size m e + 4) limit as"

abbreviation available :: "mem \<Rightarrow> addr list \<Rightarrow> addr list" where
  "available m as \<equiv> filter (\<lambda>e. mmap_type m e = 1) as"

abbreviation reserved :: "mem \<Rightarrow> addr list \<Rightarrow> addr list" where
  "reserved m as \<equiv> filter (\<lambda>e. mmap_type m e \<noteq> 1) as"

definition limit_of :: "mem \<Rightarrow> addr \<Rightarrow> addr" where
  "limit_of m mbd = mbd_mmap_addr m mbd + mbd_mmap_length m mbd"

lemma mmap_local:
  assumes "\<And>x. inreg e 24 x \<Longrightarrow> m' x = m x"
  shows "mmap_size m' e = mmap_size m e" "mmap_type m' e = mmap_type m e" "mmap_len m' e = mmap_len m e"
    "mmap_addr m' e = mmap_addr m e"
proof -
  show "mmap_size m' e = mmap_size m e"
    unfolding mmap_fields by (rule c32.ld_local, rule assms, erule inreg_mono) simp
  show "mmap_type m' e = mmap_type m e"
    unfolding mmap_fields by (rule c32.ld_local, rule assms, erule inreg_sub) simp
  show "mmap_len m' e = mmap_len m e"
    unfolding mmap_fields by (rule c64.ld_local, rule assms, erule inreg_sub) simp
  show "mmap_addr m' e = mmap_addr m e"
    unfolding mmap_fields by (rule c64.ld_local, rule assms, erule inreg_sub) simp
qed

lemma limit_local:
  assumes "\<And>x. inreg mbd 52 x \<Longrightarrow> m' x = m x"
  shows "limit_of m' mbd = limit_of m mbd" "mbd_mmap_addr m' mbd = mbd_mmap_addr m mbd"
proof -
  have "load32 m' (mbd + 44) = load32 m (mbd + 44)" by (rule c32.ld_local, rule assms, erule inreg_sub) simp
  moreover have "load32 m' (mbd + 48) = load32 m (mbd + 48)" by (rule c32.ld_local, rule assms, erule inreg_sub) simp
  ultimately show "limit_of m' mbd = limit_of m mbd" "mbd_mmap_addr m' mbd = mbd_mmap_addr m mbd"
    by (simp_all add: limit_of_def mbd_fields)
qed

lemma map_entries_local:
  assumes "\<And>e x. e \<in> set as \<Longrightarrow> inreg e 24 x \<Longrightarrow> m' x = m x"
  shows "map_entries m' e limit as = map_entries m e limit as" "available m' as = available m as"
    "reserved m' as = reserved m as"
proof -
  have f: "mmap_size m' e = mmap_size m e" "mmap_type m' e = mmap_type m e" if "e \<in> set as" for e
    by (rule mmap_local, rule assms [OF that], assumption)+
  show "map_entries m' e limit as = map_entries m e limit as"
    using f(1) by (induction as arbitrary: e) auto
  show "available m' as = available m as" "reserved m' as = reserved m as"
    using f(2) by (auto intro: filter_cong)
qed

text \<open>Where the map and the boot information must lie: clear of the two stacks, which are apart.\<close>

definition map_clear :: "syms \<Rightarrow> addr \<Rightarrow> addr list \<Rightarrow> bool" where
  "map_clear L mbd as \<longleftrightarrow> sep (s_mb_free L) 132 (s_used L) 132
     \<and> sep (s_mb_free L) 132 mbd 52 \<and> sep (s_used L) 132 mbd 52
     \<and> (\<forall>e \<in> set as. sep (s_mb_free L) 132 e 24 \<and> sep (s_used L) 132 e 24)"

lemma stack_local:
  assumes "\<And>x. inreg stk 132 x \<Longrightarrow> m' x = m x"
  shows "stack_top m' stk = stack_top m stk" and "unat j < 32 \<Longrightarrow> load32 m' (stk + 4 * j) = load32 m (stk + 4 * j)"
proof -
  show "stack_top m' stk = stack_top m stk"
    unfolding stack_top_def by (rule c32.ld_local, rule assms, erule inreg_sub) simp
  show "load32 m' (stk + 4 * j) = load32 m (stk + 4 * j)" if "unat j < 32"
    by (rule c32.ld_local, rule assms, erule inreg_sub) (use that in \<open>simp add: unat_word_ariths\<close>)
qed

text \<open>The scan pushes the available regions, in order, on one stack and the others on the other.\<close>

lemma scan_pushes:
  assumes "map_clear L mbd as" and "map_entries m e (limit_of m mbd) as"
    and "unat (stack_top m (s_mb_free L)) + length (available m as) \<le> 32"
    and "unat (stack_top m (s_used L)) + length (reserved m as) \<le> 32"
  shows "\<exists>m'. init_mm_scan L mbd e m = Some m'
    \<and> unat (stack_top m' (s_mb_free L)) = unat (stack_top m (s_mb_free L)) + length (available m as)
    \<and> (\<forall>j. unat j < unat (stack_top m (s_mb_free L)) \<longrightarrow>
         load32 m' (s_mb_free L + 4 * j) = load32 m (s_mb_free L + 4 * j))
    \<and> (\<forall>i < length (available m as). load32 m' (s_mb_free L + 4 * (stack_top m (s_mb_free L) + of_nat i)) = available m as ! i)
    \<and> (\<forall>x. inreg (s_mb_free L) 132 x \<or> inreg (s_used L) 132 x \<or> m' x = m x)"
  using assms
proof (induction as arbitrary: m e)
  case Nil
  then show ?case by (subst init_mm_scan.simps) (simp add: limit_of_def)
next
  case (Cons a as)
  let ?f = "s_mb_free L" and ?u = "s_used L"
  let ?free = "mmap_type m e = 1"
  let ?stk = "if ?free then ?f else ?u"
  define n where "n = stack_push_word ?stk e m"
  have e: "e = a" "e < limit_of m mbd" "map_entries m (e + mmap_size m e + 4) (limit_of m mbd) as"
    using Cons.prems(2) unfolding map_entries.simps by blast+
  have top: "unat (stack_top m ?stk) < 32"
    using Cons.prems(3,4) e(1) by (auto split: if_splits)
  have out: "n x = m x" if "\<not> inreg ?f 132 x" "\<not> inreg ?u 132 x" for x
    unfolding n_def using that top by (intro push_outside) auto
  have clear: "map_clear L mbd as" and ae: "sep ?f 132 b 24" "sep ?u 132 b 24" if "b \<in> set (a # as)" for b
    using Cons.prems(1) that by (auto simp: map_clear_def)
  have same: "n x = m x" if "b \<in> set (a # as)" "inreg b 24 x" for b x
    using ae [OF that(1)] that(2) sep_notin by (intro out) blast+
  have lim: "limit_of n mbd = limit_of m mbd"
    by (rule limit_local, rule out) (use Cons.prems(1) sep_notin in \<open>auto simp: map_clear_def\<close>)
  have sz: "mmap_size n e = mmap_size m e" by (rule mmap_local, rule same [of a]) (use e(1) in simp_all)
  have same': "n x = m x" if "b \<in> set as" "inreg b 24 x" for b x
    by (rule same [OF _ that(2)]) (use that(1) in simp)
  have "map_entries n b l as = map_entries m b l as" for b l by (rule map_entries_local, erule (1) same')
  then have ents: "map_entries n (e + mmap_size n e + 4) (limit_of n mbd) as" using e(3) sz lim by simp
  have "available n as = available m as" by (rule map_entries_local, erule (1) same')
  moreover have "reserved n as = reserved m as" by (rule map_entries_local, erule (1) same')
  ultimately have ents: "map_entries n (e + mmap_size n e + 4) (limit_of n mbd) as"
    "available n as = available m as" "reserved n as = reserved m as"
    using ents by simp_all
  have fu: "sep ?f 132 ?u 132" using Cons.prems(1) by (simp add: map_clear_def)
  have tf: "stack_top n ?f = stack_top m ?f + (if ?free then 1 else 0)"
    and tu: "stack_top n ?u = stack_top m ?u + (if ?free then 0 else 1)"
  proof -
    have "stack_top n ?f = stack_top m ?f" if "\<not> ?free"
      by (rule stack_local) (use that top fu sep_notin in \<open>auto simp: n_def sep_sym intro!: push_outside\<close>)
    moreover have "stack_top n ?u = stack_top m ?u" if "?free"
      by (rule stack_local) (use that top fu sep_notin in \<open>auto simp: n_def intro!: push_outside\<close>)
    ultimately show "stack_top n ?f = stack_top m ?f + (if ?free then 1 else 0)"
      "stack_top n ?u = stack_top m ?u + (if ?free then 0 else 1)"
      using push_fields(1) [OF top, of e] by (auto simp: n_def split: if_splits)
  qed
  have tf': "unat (stack_top n ?f) = unat (stack_top m ?f) + (if ?free then 1 else 0)"
    and tu': "unat (stack_top n ?u) = unat (stack_top m ?u) + (if ?free then 0 else 1)"
    unfolding tf tu using top by (cases ?free; simp add: unat_word_ariths)+
  have "unat (stack_top n ?f) + length (available n as) \<le> 32"
    "unat (stack_top n ?u) + length (reserved n as) \<le> 32"
    using Cons.prems(3,4) e(1) tf' tu' ents(2,3) by (auto split: if_splits)
  from Cons.IH [OF clear [OF list.set_intros(1)] ents(1) this]
  obtain m' where m': "init_mm_scan L mbd (e + mmap_size n e + 4) n = Some m'"
    "unat (stack_top m' ?f) = unat (stack_top n ?f) + length (available n as)"
    "\<forall>j. unat j < unat (stack_top n ?f) \<longrightarrow> load32 m' (?f + 4 * j) = load32 n (?f + 4 * j)"
    "\<forall>i < length (available n as). load32 m' (?f + 4 * (stack_top n ?f + of_nat i)) = available n as ! i"
    "\<forall>x. inreg ?f 132 x \<or> inreg ?u 132 x \<or> m' x = n x" by blast
  have run: "init_mm_scan L mbd e m = Some m'"
    using m'(1) e(2) by (subst init_mm_scan.simps) (simp add: limit_of_def n_def Let_def)
  have old: "load32 n (?f + 4 * j) = load32 m (?f + 4 * j)" if "unat j < unat (stack_top m ?f)" for j
  proof (cases ?free)
    case True
    then show ?thesis using push_fields(3) [of m ?f j e] that top by (simp add: n_def)
  next
    case False
    have "unat j < 32" using that Cons.prems(3) by linarith
    then show ?thesis
      by (intro stack_local(2)) (use False top fu sep_notin in \<open>auto simp: n_def sep_sym intro!: push_outside\<close>)
  qed
  have vals: "load32 m' (?f + 4 * (stack_top m ?f + of_nat i)) = available m (a # as) ! i"
    if i: "i < length (available m (a # as))" for i
  proof (cases ?free)
    case False
    then show ?thesis using m'(4) i e(1) tf ents(2) by simp
  next
    case True
    show ?thesis
    proof (cases i)
      case 0
      have "load32 m' (?f + 4 * stack_top m ?f) = load32 n (?f + 4 * stack_top m ?f)"
        using m'(3) tf' True by simp
      then show ?thesis using 0 True e(1) push_fields(2) [of m ?f e] top by (simp add: n_def)
    next
      case (Suc k)
      then have "load32 m' (?f + 4 * (stack_top n ?f + of_nat k)) = available n as ! k"
        using m'(4) i True e(1) ents(2) by simp
      then show ?thesis using Suc True e(1) tf ents(2) by (simp add: add.assoc)
    qed
  qed
  have "load32 m' (?f + 4 * j) = load32 m (?f + 4 * j)" if "unat j < unat (stack_top m ?f)" for j
    using m'(3) old [OF that] that tf' by simp
  moreover have "inreg ?f 132 x \<or> inreg ?u 132 x \<or> m' x = m x" for x using m'(5) out by metis
  moreover have "unat (stack_top m' ?f) = unat (stack_top m ?f) + length (available m (a # as))"
    using m'(2) tf' ents(2) e(1) by simp
  ultimately show ?case using run vals by blast
qed

section \<open>The first lists\<close>

lemma header_fields:
  assumes "sep f 16 u 16"
  defines "n \<equiv> \<lambda>m a sz ua usz. init_header u ua usz (set_size (set_address (set_prev (set_next m f 0) f 0) f a) f sz)"
  shows "mp_next (n m a sz ua usz) f = 0" "mp_prev (n m a sz ua usz) f = 0" "mp_address (n m a sz ua usz) f = a"
    "mp_size (n m a sz ua usz) f = sz" "mp_next (n m a sz ua usz) u = 0" "mp_prev (n m a sz ua usz) u = 0"
    "mp_address (n m a sz ua usz) u = ua" "mp_size (n m a sz ua usz) u = usz"
  using assms(1) by (simp_all add: n_def init_header_def mp_simps sep_sym)

text \<open>Releasing the only used block, which is what the end of \<open>init_mm\<close> does.\<close>

lemma free_only:
  assumes "mp_prev m t = u" and "mp_next m t = 0" and "mp_next m f = 0" and "t \<noteq> 0"
    and "sep f 16 u 16" "sep f 16 t 16" "sep u 16 t 16" "sep 0 16 f 16" "sep 0 16 u 16" "sep 0 16 t 16"
    and "s_mm_free L = f"
  defines "m' \<equiv> free L t m"
  shows "chain (mp_next m') f [t]" "mp_next m' u = 0" "mp_prev m' t = f" "load32 m' 0 = u"
    "mp_size m' f = mp_size m f" "mp_address m' f = mp_address m f"
    "mp_size m' t = mp_size m t" "mp_address m' t = mp_address m t"
    and "\<And>x. \<not> inreg 0 16 x \<Longrightarrow> \<not> inreg f 16 x \<Longrightarrow> \<not> inreg u 16 x \<Longrightarrow> \<not> inreg t 16 x \<Longrightarrow> m' x = m x"
proof -
  note s = assms(5-10) assms(5-10) [THEN sep_sym [THEN iffD1]]
  have m': "m' = add_mm_list_entry f t (set_next (set_prev (set_prev (set_next m u 0) 0 u) t 0) t 0)"
    by (simp add: m'_def free_def remove_mm_list_entry_def Let_def assms(1,2,11))
  show "chain (mp_next m') f [t]" "mp_next m' u = 0" "mp_prev m' t = f" "mp_size m' f = mp_size m f"
    "mp_address m' f = mp_address m f" "mp_size m' t = mp_size m t" "mp_address m' t = mp_address m t"
    using assms(3,4) s by (simp_all add: m' add_fields add_other mp_simps)
  have "load32 m' 0 = mp_prev m' 0" by (simp add: mp_prev_def)
  also have "\<dots> = u" using s by (simp add: m' add_other mp_simps)
  finally show "load32 m' 0 = u" .
  show "m' x = m x" if "\<not> inreg 0 16 x" "\<not> inreg f 16 x" "\<not> inreg u 16 x" "\<not> inreg t 16 x" for x
    using that by (simp add: m' add_outside set_outside_node)
qed

text \<open>Where everything must lie for booting to go well; \<open>e\<close> is the region the heap is made from.\<close>

definition boot_clear :: "syms \<Rightarrow> addr \<Rightarrow> addr list \<Rightarrow> addr \<Rightarrow> addr \<Rightarrow> bool" where
  "boot_clear L mbd as e t \<longleftrightarrow> map_clear L mbd as \<and> sep (s_mm_free L) 16 (s_mm_used L) 16
     \<and> sep (s_mm_free L) 16 e 24 \<and> sep (s_mm_free L) 16 t 16 \<and> sep (s_mm_used L) 16 t 16
     \<and> sep 0 16 (s_mm_free L) 16 \<and> sep 0 16 (s_mm_used L) 16 \<and> sep 0 16 t 16"

lemma mem_lists_made:
  assumes "mm_heap_size < mmap_len (ram s) e" and "sep (s_mm_free L) 16 (s_mm_used L) 16" and "sep (s_mm_free L) 16 e 24"
  shows "\<exists>m. init_mm_lists L e s = ret (s\<lparr>ram := m, mm_heap_bottom := mmap_addr (ram s) e,
      mm_heap_top := mmap_addr (ram s) e + mm_heap_size\<rparr>)
    \<and> mp_next m (s_mm_free L) = 0 \<and> mp_address m (s_mm_free L) = ucast (mmap_addr (ram s) e + mm_heap_size)
    \<and> mp_size m (s_mm_free L) = ucast (mmap_len (ram s) e - mm_heap_size) \<and> mp_next m (s_mm_used L) = 0
    \<and> (\<forall>x. inreg (s_mm_free L) 16 x \<or> inreg (s_mm_used L) 16 x \<or> m x = ram s x)"
proof -
  let ?f = "s_mm_free L" and ?u = "s_mm_used L" and ?bottom = "mmap_addr (ram s) e"
  let ?m1 = "set_address (set_prev (set_next (ram s) ?f 0) ?f 0) ?f (ucast (?bottom + mm_heap_size))"
  have "mmap_len ?m1 e = mmap_len (ram s) e"
  proof (rule mmap_local)
    fix x
    assume "inreg e 24 x"
    then have "\<not> inreg ?f 16 x" by (rule sep_notin [OF assms(3)])
    then show "?m1 x = ram s x" by (simp add: set_outside_node)
  qed
  then have "init_mm_lists L e s = ret (s\<lparr>ram := init_header ?u (ucast ?bottom) (ucast mm_heap_size)
      (set_size ?m1 ?f (ucast (mmap_len (ram s) e - mm_heap_size))), mm_heap_bottom := ?bottom,
      mm_heap_top := ?bottom + mm_heap_size\<rparr>)"
    using assms(1) by (simp add: init_mm_lists_def Let_def)
  moreover have "init_header ?u (ucast ?bottom) (ucast mm_heap_size)
      (set_size ?m1 ?f (ucast (mmap_len (ram s) e - mm_heap_size))) x = ram s x"
    if "\<not> inreg ?f 16 x" "\<not> inreg ?u 16 x" for x
    using that by (simp add: init_header_def set_outside_node)
  ultimately show ?thesis
    using header_fields [OF assms(2), where m = "ram s" and a = "ucast (?bottom + mm_heap_size)"
        and sz = "ucast (mmap_len (ram s) e - mm_heap_size)" and ua = "ucast ?bottom" and usz = "ucast mm_heap_size"]
    by blast
qed

lemma init_mm_ready:
  fixes L s mbd as
  defines "m0 \<equiv> init_stack (s_used L) (init_stack (s_mb_free L) (ram s))"
    and "e \<equiv> last (available (ram s) as)"
  defines "start \<equiv> ucast (mmap_addr (ram s) e + 4096)" and "sz \<equiv> ucast (mmap_len (ram s) e - 4096)"
  defines "t \<equiv> start + (sz - 1040)"
  assumes map: "map_entries (ram s) (mbd_mmap_addr (ram s) mbd) (limit_of (ram s) mbd) as"
    and counts: "available (ram s) as \<noteq> []" "length (available (ram s) as) \<le> 32" "length (reserved (ram s) as) \<le> 32"
    and clear: "boot_clear L mbd as e t"
    and big: "4096 < unat (mmap_len (ram s) e)" "1040 \<le> unat sz"
  shows "\<exists>s'. init_mm L mbd s = ret s' \<and> chain (mp_next (ram s')) (s_mm_free L) [t]
    \<and> chain (mp_next (ram s')) (s_mm_used L) []
    \<and> mp_address (ram s') (s_mm_free L) = start \<and> mp_size (ram s') (s_mm_free L) = sz - 1040
    \<and> mp_size (ram s') t = 1024 \<and> mp_address (ram s') t = t + 256 \<and> load32 (ram s') 0 = s_mm_used L
    \<and> mp_prev (ram s') t = s_mm_free L
    \<and> (\<exists>m sz bottom top. s' = s\<lparr>ram := m, mem_size := sz, mm_heap_bottom := bottom, mm_heap_top := top\<rparr>)
    \<and> (\<forall>x. inreg (s_mb_free L) 132 x \<or> inreg (s_used L) 132 x \<or> inreg (s_mm_free L) 16 x \<or> inreg (s_mm_used L) 16 x
       \<or> inreg t 16 x \<or> inreg 0 16 x \<or> ram s' x = ram s x)"
proof -
  let ?f = "s_mm_free L" and ?u = "s_mm_used L" and ?sf = "s_mb_free L" and ?su = "s_used L"
  have c: "map_clear L mbd as" "sep ?f 16 ?u 16" "sep ?f 16 e 24" "sep ?f 16 t 16" "sep ?u 16 t 16"
    "sep 0 16 ?f 16" "sep 0 16 ?u 16" "sep 0 16 t 16"
    using clear by (simp_all add: boot_clear_def)
  have e_in: "e \<in> set as" using last_in_set [OF counts(1)] by (simp add: e_def)
  have m0: "m0 x = ram s x" if "\<not> inreg ?sf 132 x" "\<not> inreg ?su 132 x" for x
    using inreg_fields(1) [OF that(1), of 128 4] inreg_fields(1) [OF that(2), of 128 4]
    by (simp add: m0_def init_stack_def c32.st_outside)
  have clear_e: "\<not> inreg ?sf 132 x" "\<not> inreg ?su 132 x" if "b \<in> set as" "inreg b 24 x" for b x
    using c(1) that sep_notin by (auto simp: map_clear_def)
  have clear_m: "\<not> inreg ?sf 132 x" "\<not> inreg ?su 132 x" if "inreg mbd 52 x" for x
    using c(1) that sep_notin by (auto simp: map_clear_def)
  have lim: "limit_of m0 mbd = limit_of (ram s) mbd" "mbd_mmap_addr m0 mbd = mbd_mmap_addr (ram s) mbd"
    by (rule limit_local, rule m0, erule clear_m, erule clear_m)+
  have ents: "map_entries m0 a l as = map_entries (ram s) a l as" for a l
    by (rule map_entries_local, rule m0, erule (1) clear_e, erule (1) clear_e)
  have av: "available m0 as = available (ram s) as" "reserved m0 as = reserved (ram s) as"
    by (rule map_entries_local, rule m0, erule (1) clear_e, erule (1) clear_e)+
  have tops: "stack_top m0 ?sf = 0" "stack_top m0 ?su = 0"
  proof -
    have "sep ?sf 132 ?su 132" using c(1) by (simp add: map_clear_def)
    then show "stack_top m0 ?sf = 0" "stack_top m0 ?su = 0"
      by (simp_all add: m0_def init_stack_def stack_top_def mem_simps sep_fields [where a = ?sf and n = 132 and b = ?su and k = 132])
  qed
  have h: "map_entries m0 (mbd_mmap_addr m0 mbd) (limit_of m0 mbd) as" unfolding lim ents by (rule map)
  have k: "unat (stack_top m0 ?sf) + length (available m0 as) \<le> 32" "unat (stack_top m0 ?su) + length (reserved m0 as) \<le> 32"
    using counts by (simp_all add: tops av)
  obtain m1 where m1: "init_mm_scan L mbd (mbd_mmap_addr m0 mbd) m0 = Some m1"
    "unat (stack_top m1 ?sf) = length (available (ram s) as)"
    "\<forall>i < length (available (ram s) as). load32 m1 (?sf + 4 * of_nat i) = available (ram s) as ! i"
    "\<forall>x. inreg ?sf 132 x \<or> inreg ?su 132 x \<or> m1 x = m0 x"
    using scan_pushes [OF c(1) h k] unfolding av tops unsigned_0 add_0 by blast
  have "stack_top m1 ?sf - 1 = of_nat (length (available (ram s) as) - 1)"
  proof -
    have "of_nat (unat (stack_top m1 ?sf)) = stack_top m1 ?sf" by simp
    then have "stack_top m1 ?sf = of_nat (length (available (ram s) as))" unfolding m1(2) by (rule sym)
    then show ?thesis using counts(1) by (cases "available (ram s) as") simp_all
  qed
  then have pick: "load32 m1 (?sf + 4 * (stack_top m1 ?sf - 1)) = e"
    using m1(3) counts(1) by (simp add: e_def last_conv_nth)
  have "m1 x = ram s x" if "inreg e 24 x" for x
    using m1(4) m0 clear_e [OF e_in that] by metis
  note me = mmap_local [of e m1 "ram s", OF this]
  let ?s1 = "s\<lparr>ram := m1, mem_size := mbd_mem_lower m0 mbd + mbd_mem_upper m0 mbd + 1024\<rparr>"
  have "mm_heap_size < mmap_len (ram ?s1) e"
    using big(1) by (simp add: me mm_heap_size_def word_less_nat_alt)
  from mem_lists_made [OF this c(2,3)] obtain m2 where m2:
    "init_mm_lists L e ?s1 = ret (?s1\<lparr>ram := m2, mm_heap_bottom := mmap_addr (ram s) e, mm_heap_top := mmap_addr (ram s) e + mm_heap_size\<rparr>)"
    "mp_next m2 ?f = 0" "mp_address m2 ?f = start" "mp_size m2 ?f = sz" "mp_next m2 ?u = 0"
    "\<forall>x. inreg ?f 16 x \<or> inreg ?u 16 x \<or> m2 x = m1 x"
    by (auto simp: me start_def sz_def mm_heap_size_def)
  let ?s2 = "?s1\<lparr>ram := m2, mm_heap_bottom := mmap_addr (ram s) e, mm_heap_top := mmap_addr (ram s) e + mm_heap_size\<rparr>"
  define m3 where "m3 = snd (malloc_carve L 1024 ?f m2)"
  note cf = carve_fields [where L = L and m = m2 and l = ?f and sz = 1024, folded m3_def, unfolded m2(3,4)]
  have t': "start + (sz - (1024 + 16)) = t" by (simp add: t_def)
  note cf = cf [unfolded t', OF c(4,2,5)]
  have "malloc L 1024 ?s2 = ret (t, ?s2\<lparr>ram := m3\<rparr>)"
    using malloc_carving [of ?s2 L "[]" 1024 ?f] m2(2,4) big(2) cf(1) by (simp add: m3_def word_le_nat_alt)
  then have run: "init_mm L mbd s = ret (?s2\<lparr>ram := free L t m3\<rparr>)"
    unfolding init_mm_def Let_def m0_def [symmetric] unfolding m1(1) option.case pick m2(1) by simp
  have t0: "t \<noteq> 0" using c(8) by (auto simp: sep_def)
  note fo = free_only [of m3 t ?u ?f L]
  have "mp_next m3 t = 0" "mp_next m3 ?f = 0" using cf m2(2,5) by simp_all
  note fo = fo [OF cf(8) this t0 c(2,4,5,6,7,8) refl]
  have frame: "inreg ?sf 132 x \<or> inreg ?su 132 x \<or> inreg ?f 16 x \<or> inreg ?u 16 x \<or> inreg t 16 x \<or> inreg 0 16 x
      \<or> free L t m3 x = ram s x" for x
    using fo(9) [of x] cf(11) [of x] m2(6) m1(4) m0 [of x] by metis
  have "\<exists>m sz bottom top. ?s2\<lparr>ram := free L t m3\<rparr> = s\<lparr>ram := m, mem_size := sz, mm_heap_bottom := bottom, mm_heap_top := top\<rparr>"
    by (intro exI [of _ "free L t m3"] exI [of _ "mbd_mem_lower m0 mbd + mbd_mem_upper m0 mbd + 1024"]
        exI [of _ "mmap_addr (ram s) e"] exI [of _ "mmap_addr (ram s) e + mm_heap_size"]) simp
  then show ?thesis
    using run fo(1-8) cf(1-10) frame by (intro exI [of _ "?s2\<lparr>ram := free L t m3\<rparr>"]) simp
qed

text \<open>From a memory map with at most 32 available and 32 other regions, \<open>init_mm\<close>
  takes the last available region, leaves its first 4096 bytes out and returns with one free block of 1024
  bytes at its end and the rest in the header of the free list; it also writes the address of the used list
  to address 0.\<close>

theorem init_mm_lists_ready:
  fixes L s mbd as
  defines "m0 \<equiv> init_stack (s_used L) (init_stack (s_mb_free L) (ram s))"
    and "e \<equiv> last (available (ram s) as)"
  defines "start \<equiv> ucast (mmap_addr (ram s) e + 4096)" and "sz \<equiv> ucast (mmap_len (ram s) e - 4096)"
  defines "t \<equiv> start + (sz - 1040)"
  assumes map: "map_entries (ram s) (mbd_mmap_addr (ram s) mbd) (limit_of (ram s) mbd) as"
    and counts: "available (ram s) as \<noteq> []" "length (available (ram s) as) \<le> 32" "length (reserved (ram s) as) \<le> 32"
    and clear: "boot_clear L mbd as e t"
    and big: "4096 < unat (mmap_len (ram s) e)" "1040 \<le> unat sz"
  shows "\<exists>s'. init_mm L mbd s = ret s' \<and> chain (mp_next (ram s')) (s_mm_free L) [t]
    \<and> chain (mp_next (ram s')) (s_mm_used L) []
    \<and> mp_address (ram s') (s_mm_free L) = start \<and> mp_size (ram s') (s_mm_free L) = sz - 1040
    \<and> mp_size (ram s') t = 1024 \<and> mp_address (ram s') t = t + 256 \<and> load32 (ram s') 0 = s_mm_used L"
  using init_mm_ready [OF map counts clear [unfolded t_def sz_def start_def e_def]
      big [unfolded sz_def e_def]]
  unfolding t_def sz_def start_def e_def by blast

definition sample_map :: mem where
  "sample_map = store32 (store32 (store64 (store64 (store32 (store32 (\<lambda>_. 0)
     0x802C 24) 0x8030 0x9000) 0x9004 0x100000) 0x900C 0x800000) 0x9000 20) 0x9014 1"

lemma sample_map_fields:
  "mbd_mmap_length sample_map 0x8000 = 24" "mbd_mmap_addr sample_map 0x8000 = 0x9000"
  "mmap_size sample_map 0x9000 = 20" "mmap_addr sample_map 0x9000 = 0x100000"
  "mmap_len sample_map 0x9000 = 0x800000" "mmap_type sample_map 0x9000 = 1"
  by (simp_all add: sample_map_def mbd_fields mmap_fields mem_simps sep_simps)

text \<open>8 MiB from 1 MiB on, described by one entry.\<close>

lemma init_mm_lists_ready_witness:
  "\<exists>s'. init_mm sample_syms 0x8000 (sample_state\<lparr>ram := sample_map\<rparr>) = ret s'
    \<and> chain (mp_next (ram s')) 0x101200 [0x8FFBF0] \<and> chain (mp_next (ram s')) 0x101210 []
    \<and> mp_address (ram s') 0x101200 = 0x101000 \<and> mp_size (ram s') 0x101200 = 0x7FEBF0
    \<and> mp_size (ram s') 0x8FFBF0 = 1024 \<and> mp_address (ram s') 0x8FFBF0 = 0x8FFCF0 \<and> load32 (ram s') 0 = 0x101210"
proof -
  let ?s = "sample_state\<lparr>ram := sample_map\<rparr>"
  have "map_entries (ram ?s) (mbd_mmap_addr (ram ?s) 0x8000) (limit_of (ram ?s) 0x8000) [0x9000]"
    by (simp add: sample_map_fields limit_of_def)
  moreover have "boot_clear sample_syms 0x8000 [0x9000] 0x9000 0x8FFBF0"
    by (simp add: boot_clear_def map_clear_def sep_simps)
  ultimately show ?thesis
    using init_mm_lists_ready [of ?s "0x8000" "[0x9000]" sample_syms] by (simp add: sample_map_fields)
qed

end
