(* ===== verification/Host_Dasm.thy ===== *)
theory Host_Dasm
  imports Str
begin

text \<open>
  The assembler that runs on the host (\<^verbatim>\<open>dasm/dasm.c\<close>), against the C library: the same program as the
  kernel's assembler, but with the library's \<^verbatim>\<open>strcmp\<close>, \<^verbatim>\<open>strchr\<close>, \<^verbatim>\<open>atoi\<close> and \<^verbatim>\<open>malloc\<close>.
  \<open>None\<close> stands for a run without a defined result: a scan that never meets its end, or an index
  outside the arrays \<^verbatim>\<open>tokens\<close> and \<^verbatim>\<open>ins\<close>.
\<close>

section \<open>The C library\<close>

text \<open>
  The heap of the process: its bytes, and where the blocks handed out so far end. Nothing is ever
  freed; a new block starts some way above the others, as far as \<open>gap\<close> says.
\<close>

record host =
  heap :: "nat \<Rightarrow> byte"
  brk :: nat

type_synonym gap = "nat \<Rightarrow> nat \<Rightarrow> nat"

definition host_malloc :: "gap \<Rightarrow> nat \<Rightarrow> host \<Rightarrow> nat \<times> host" where
  "host_malloc gap n h = (brk h + gap (brk h) n, h\<lparr>brk := brk h + gap (brk h) n + n\<rparr>)"

definition host_put :: "nat \<Rightarrow> byte list \<Rightarrow> host \<Rightarrow> host" where
  "host_put p bs h = h\<lparr>heap := (\<lambda>x. if p \<le> x \<and> x < p + length bs then bs ! (x - p) else heap h x)\<rparr>"

definition host_bytes :: "nat \<Rightarrow> nat \<Rightarrow> host \<Rightarrow> byte list" where
  "host_bytes p n h = map (\<lambda>i. heap h (p + i)) [0..<n]"

partial_function (option) host_strlen_from :: "(nat \<Rightarrow> byte) \<Rightarrow> nat \<Rightarrow> nat \<Rightarrow> nat option" where
  "host_strlen_from m p k = (if m (p + k) = 0 then Some k else host_strlen_from m p (Suc k))"

definition host_strlen :: "(nat \<Rightarrow> byte) \<Rightarrow> nat \<Rightarrow> nat option" where
  "host_strlen m p = host_strlen_from m p 0"

text \<open>\<^verbatim>\<open>strcmp(p, "...") == 0\<close>, and \<^verbatim>\<open>strchr("...", c)\<close> as a condition: the terminator is found too.\<close>

fun host_streq :: "(nat \<Rightarrow> byte) \<Rightarrow> nat \<Rightarrow> byte list \<Rightarrow> bool" where
  "host_streq m p [] \<longleftrightarrow> m p = 0"
| "host_streq m p (c # cs) \<longleftrightarrow> m p = c \<and> host_streq m (Suc p) cs"

definition host_strchr :: "string \<Rightarrow> byte \<Rightarrow> bool" where
  "host_strchr cs c \<longleftrightarrow> c \<in> set (bytes_of cs @ [0])"

text \<open>\<^verbatim>\<open>atoi\<close>: white space, a sign, digits. A value outside \<^verbatim>\<open>int\<close>, for which C promises nothing, is kept as it is.\<close>

partial_function (option) host_skip :: "(nat \<Rightarrow> byte) \<Rightarrow> nat \<Rightarrow> nat option" where
  "host_skip m p = (if m p = 32 \<or> 9 \<le> m p \<and> m p \<le> 13 then host_skip m (Suc p) else Some p)"

partial_function (option) host_digits :: "(nat \<Rightarrow> byte) \<Rightarrow> nat \<Rightarrow> int \<Rightarrow> int option" where
  "host_digits m p r =
     (if 48 \<le> m p \<and> m p \<le> 57 then host_digits m (Suc p) (r * 10 + (uint (m p) - 48)) else Some r)"

definition host_atoi :: "(nat \<Rightarrow> byte) \<Rightarrow> nat \<Rightarrow> int option" where
  "host_atoi m p = do {
     p \<leftarrow> host_skip m p;
     r \<leftarrow> host_digits m (if m p = 43 \<or> m p = 45 then Suc p else p) 0;
     Some (if m p = 45 then - r else r) }"

section \<open>Instructions\<close>

record host_ins =
  h_raw :: nat
  h_tokens :: "nat list"
  h_op_mask :: byte
  h_op :: byte
  h_m0 :: byte
  h_a0 :: "16 word"
  h_m1 :: byte
  h_a1 :: "16 word"

text \<open>The instruction written to the file, \<^verbatim>\<open>vm_ins_t\<close>.\<close>

record host_out =
  o_op_mask :: byte
  o_op :: byte
  o_m0 :: byte
  o_a0 :: "16 word"
  o_m1 :: byte
  o_a1 :: "16 word"

definition host_ins0 :: host_ins where
  "host_ins0 = \<lparr>h_raw = 0, h_tokens = [0, 0, 0], h_op_mask = 0, h_op = 0, h_m0 = 0, h_a0 = 0, h_m1 = 0, h_a1 = 0\<rparr>"

definition host_ops :: "string list" where
  "host_ops = [''hlt'', ''mov'', ''push'', ''pop'']"

definition host_regs :: "string list" where
  "host_regs = [''r0'', ''r1'', ''r2'', ''r3'', ''ip'', ''sp'', ''bp'']"

definition host_code :: string where
  "host_code = ''mov r0 10\<newline>mov sp [12]\<newline>push r0\<newline>pop r1\<newline>mov [r2] r1\<newline>hlt''"

section \<open>Operands\<close>

fun host_index :: "(nat \<Rightarrow> byte) \<Rightarrow> nat \<Rightarrow> nat \<Rightarrow> string list \<Rightarrow> nat option" where
  "host_index m p k [] = None"
| "host_index m p k (n # ns) = (if host_streq m p (bytes_of n) then Some k else host_index m p (Suc k) ns)"

definition host_get_reg :: "(nat \<Rightarrow> byte) \<Rightarrow> nat \<Rightarrow> int" where
  "host_get_reg m reg = (case host_index m reg 0 host_regs of None \<Rightarrow> - 1 | Some k \<Rightarrow> int k)"

text \<open>A text is copied to a block one longer than it, and a NUL stored behind the block.\<close>

definition host_copy :: "gap \<Rightarrow> byte list \<Rightarrow> host \<Rightarrow> nat \<times> host" where
  "host_copy gap bs h =
     (case host_malloc gap (length bs + 1) h of
        (p, h) \<Rightarrow> (p, host_put (p + (length bs + 1)) [0] (host_put p bs h)))"

definition host_register :: "gap \<Rightarrow> nat \<Rightarrow> host \<Rightarrow> 16 word \<times> host" where
  "host_register gap p h =
     (case host_copy gap (host_bytes p 2 h) h of (reg, h) \<Rightarrow> (word_of_int (host_get_reg (heap h) reg), h))"

definition host_pointer :: "gap \<Rightarrow> nat \<Rightarrow> host \<Rightarrow> (16 word \<times> host) option" where
  "host_pointer gap tok h = do {
     n \<leftarrow> host_strlen (heap h) tok;
     let (val, h) = host_malloc gap (n - 1) h;
     n \<leftarrow> host_strlen (heap h) tok;
     let h = host_put val (host_bytes (tok + 1) (n - 2) h) h;
     a \<leftarrow> host_atoi (heap h) val;
     Some (word_of_int a, h) }"

definition host_arg_kind :: "gap \<Rightarrow> nat \<Rightarrow> host \<Rightarrow> (byte \<times> 16 word \<times> host) option" where
  "host_arg_kind gap tok h =
     (let m = heap h; bracket = m tok = 91
      in if bracket \<and> host_strchr ''risbp'' (m (tok + 1)) then Some (3, host_register gap (tok + 1) h)
         else if host_strchr ''0123456789'' (m tok)
              then map_option (\<lambda>a. (0, word_of_int a, h)) (host_atoi m tok)
         else if host_strchr ''risbp'' (m tok) then Some (1, host_register gap tok h)
         else if bracket \<and> host_strchr ''0123456789'' (m (tok + 1))
              then map_option (\<lambda>r. (2, r)) (host_pointer gap tok h)
         else Some (0, 0, h))"

definition host_parse_arg :: "gap \<Rightarrow> nat \<Rightarrow> host_ins \<Rightarrow> host \<Rightarrow> (host_ins \<times> host) option" where
  "host_parse_arg gap t ins h = do {
     (md, a, h) \<leftarrow> host_arg_kind gap (h_tokens ins ! t) h;
     Some (if t = 1 then ins\<lparr>h_m0 := md, h_a0 := a\<rparr>
           else if t = 2 then ins\<lparr>h_m1 := md, h_a1 := a\<rparr> else ins, h) }"

section \<open>Lines and programs\<close>

definition host_parse_op :: "(nat \<Rightarrow> byte) \<Rightarrow> host_ins \<Rightarrow> host_ins" where
  "host_parse_op m ins =
     (case host_index m (h_tokens ins ! 0) 0 host_ops of
        None \<Rightarrow> ins
      | Some k \<Rightarrow> ins\<lparr>h_op := of_nat k, h_op_mask := 0\<rparr>)"

definition host_parse_token :: "gap \<Rightarrow> nat \<Rightarrow> nat \<Rightarrow> nat \<Rightarrow> host_ins \<Rightarrow> host \<Rightarrow> (host_ins \<times> host) option" where
  "host_parse_token gap i tok_len t ins h =
     (if t < 3 then
        (let (p, h) = host_copy gap (host_bytes (h_raw ins + (i - tok_len)) tok_len h) h;
             ins = ins\<lparr>h_tokens := (h_tokens ins)[t := p]\<rparr>
         in if t = 0 then Some (host_parse_op (heap h) ins, h) else host_parse_arg gap t ins h)
      else None)"

partial_function (option) host_parse_from ::
  "gap \<Rightarrow> nat \<Rightarrow> nat \<Rightarrow> nat \<Rightarrow> nat \<Rightarrow> host_ins \<Rightarrow> host \<Rightarrow> (host_ins \<times> host) option" where
  "host_parse_from gap len i tok_len t ins h =
     (if i < len + 1 then
        (let c = heap h (h_raw ins + i)
         in if c = 32 \<or> c = 0
            then Option.bind (host_parse_token gap i tok_len t ins h)
              (\<lambda>r. host_parse_from gap len (i + 2) 1 (t + 1) (fst r) (snd r))
            else host_parse_from gap len (i + 1) (tok_len + 1) t ins h)
      else Some (ins, h))"

definition host_parse :: "gap \<Rightarrow> host_ins \<Rightarrow> host \<Rightarrow> (host_ins \<times> host) option" where
  "host_parse gap ins h =
     Option.bind (host_strlen (heap h) (h_raw ins)) (\<lambda>len. host_parse_from gap len 0 0 0 ins h)"

definition code_at :: "byte list \<Rightarrow> nat \<Rightarrow> byte" where
  "code_at code i = (if i < length code then code ! i else 0)"

definition host_line :: "gap \<Rightarrow> byte list \<Rightarrow> nat \<Rightarrow> nat \<Rightarrow> host_ins \<Rightarrow> host \<Rightarrow> (host_ins \<times> host) option" where
  "host_line gap code ptr tok_len ins h =
     (case host_copy gap (map (\<lambda>i. code_at code (ptr - tok_len + i)) [0..<tok_len]) h of
        (p, h) \<Rightarrow> host_parse gap (ins\<lparr>h_raw := p\<rparr>) h)"

partial_function (option) host_lines ::
  "gap \<Rightarrow> byte list \<Rightarrow> nat \<Rightarrow> nat \<Rightarrow> nat \<Rightarrow> host_ins list \<Rightarrow> host \<Rightarrow> (nat \<times> host_ins list \<times> host) option" where
  "host_lines gap code ptr tok_len cur inss h =
     (if ptr < length code + 1 then
        (if (code_at code ptr = 10 \<or> code_at code ptr = 0) \<and> code_at code (ptr - tok_len) \<noteq> 35
         then (if cur < length inss
               then Option.bind (host_line gap code ptr tok_len (inss ! cur) h)
                 (\<lambda>r. host_lines gap code (ptr + 2) 1 (cur + 1) (inss[cur := fst r]) (snd r))
               else None)
         else host_lines gap code (ptr + 1) (tok_len + 1) cur inss h)
      else Some (cur, inss, h))"

definition host_emit :: "host_ins \<Rightarrow> host_out" where
  "host_emit i = \<lparr>o_op_mask = h_op_mask i, o_op = h_op i, o_m0 = h_m0 i, o_a0 = h_a0 i, o_m1 = h_m1 i, o_a1 = h_a1 i\<rparr>"

text \<open>The program assembles a text of its own, \<open>host_code\<close>; the text is an argument here.\<close>

definition host_assemble :: "gap \<Rightarrow> byte list \<Rightarrow> host \<Rightarrow> (host_out list \<times> host) option" where
  "host_assemble gap code h = do {
     (n, inss, h) \<leftarrow> host_lines gap code 0 0 0 (replicate 255 host_ins0) h;
     Some (map host_emit (take n inss), h) }"

text \<open>The file: ten bytes for each instruction, of which two (\<open>x\<close> and \<open>y\<close>) are padding.\<close>

definition host_record :: "byte \<Rightarrow> byte \<Rightarrow> host_out \<Rightarrow> byte list" where
  "host_record x y i =
     [o_op_mask i, o_op i, o_m0 i, x, ucast (o_a0 i), ucast (drop_bit 8 (o_a0 i)),
      o_m1 i, y, ucast (o_a1 i), ucast (drop_bit 8 (o_a1 i))]"

definition host_file :: "gap \<Rightarrow> byte \<Rightarrow> byte \<Rightarrow> byte list \<Rightarrow> host \<Rightarrow> byte list option" where
  "host_file gap x y code h =
     map_option (\<lambda>r. concat (map (host_record x y) (fst r))) (host_assemble gap code h)"

definition host_main :: "gap \<Rightarrow> byte \<Rightarrow> byte \<Rightarrow> host \<Rightarrow> byte list option" where
  "host_main gap x y h = host_file gap x y (bytes_of host_code) h"

end
