(* ===== verification/Report.thy ===== *)
theory Report
  imports Mem
begin

text \<open>
  What the reporting routines (\<open>term_writenum\<close>, \<open>print_mem_map\<close>, \<open>mem_dump\<close> and others built from
  them) do to the state: they return, and write nothing but the screen and the digit buffer.
\<close>

section \<open>Quiet steps\<close>

definition quiet :: "syms \<Rightarrow> kstate \<Rightarrow> kstate \<Rightarrow> bool" where
  "quiet L s s' \<longleftrightarrow> same_geometry (tty0 s) (tty0 s') \<and> cursor_ok (tty0 s') \<and> rest s' = rest s
     \<and> (\<forall>x. in_frame (tty0 s) x \<or> inreg (s_itoa_buf L + 1) 64 x \<or> ram s' x = ram s x)"

text \<open>The digit buffer ends in a NUL, the literal 0 is in place, and neither is on the screen.\<close>

definition print_ok :: "syms \<Rightarrow> kstate \<Rightarrow> bool" where
  "print_ok L s \<longleftrightarrow> geometry_ok (tty0 s) \<and> cursor_ok (tty0 s)
     \<and> ram s (s_itoa_buf L + 65) = 0 \<and> cstr_at (ram s) (s_zero L) [48]
     \<and> sep (t_buffer (tty0 s)) (frame_bytes (tty0 s)) (s_itoa_buf L + 1) 65
     \<and> sep (t_buffer (tty0 s)) (frame_bytes (tty0 s)) (s_zero L) 2
     \<and> sep (s_itoa_buf L + 1) 64 (s_zero L) 2"

lemma in_frame_geometry: "same_geometry t u \<Longrightarrow> in_frame u = in_frame t"
  using same_geometry_frame by blast

lemma print_ok_apart:
  assumes "print_ok L s"
  shows "inreg (s_itoa_buf L + 1) 65 x \<Longrightarrow> \<not> in_frame (tty0 s) x"
    and "inreg (s_zero L) 2 x \<Longrightarrow> \<not> in_frame (tty0 s) x"
    and "inreg (s_zero L) 2 x \<Longrightarrow> \<not> inreg (s_itoa_buf L + 1) 64 x"
  using assms sep_notin by (auto simp: print_ok_def in_frame_def)

lemma quietD: "quiet L s s' \<Longrightarrow> \<not> in_frame (tty0 s) x \<Longrightarrow> \<not> inreg (s_itoa_buf L + 1) 64 x \<Longrightarrow> ram s' x = ram s x"
  by (auto simp: quiet_def)

lemma quiet_print_ok:
  assumes "quiet L s s'" and "print_ok L s"
  shows "print_ok L s'"
proof -
  have g: "same_geometry (tty0 s) (tty0 s')" using assms(1) by (simp add: quiet_def)
  then have fb: "frame_bytes (tty0 s') = frame_bytes (tty0 s)" "t_buffer (tty0 s') = t_buffer (tty0 s)"
    by (simp_all add: same_geometry_def frame_bytes_def)
  have zero: "ram s' x = ram s x" if "inreg (s_zero L) 2 x" for x
    using quietD [OF assms(1)] print_ok_apart [OF assms(2)] that by blast
  have last: "inreg (s_itoa_buf L + 1) 65 (s_itoa_buf L + 65)"
    "\<not> inreg (s_itoa_buf L + 1) 64 (s_itoa_buf L + 65)"
    by (simp_all add: inreg_def)
  then have "ram s' (s_itoa_buf L + 65) = ram s (s_itoa_buf L + 65)"
    using quietD [OF assms(1)] print_ok_apart(1) [OF assms(2)] by blast
  moreover have "cstr_at (ram s') (s_zero L) [48]"
    by (rule cstr_at_frame [of "ram s"]) (use assms(2) zero in \<open>simp_all add: print_ok_def eval_nat_numeral\<close>)
  ultimately show ?thesis
    using assms g fb same_geometry_ok [OF g] by (simp add: print_ok_def quiet_def)
qed

lemma quiet_refl: "print_ok L s \<Longrightarrow> quiet L s s"
  by (simp add: quiet_def print_ok_def)

lemma quiet_trans [trans]: "quiet L s t \<Longrightarrow> quiet L t u \<Longrightarrow> quiet L s u"
proof -
  assume st: "quiet L s t" and tu: "quiet L t u"
  then have g: "in_frame (tty0 t) = in_frame (tty0 s)"
    by (intro in_frame_geometry) (simp add: quiet_def)
  have "in_frame (tty0 s) x \<or> inreg (s_itoa_buf L + 1) 64 x \<or> ram u x = ram s x" for x
    using quietD [OF st, of x] quietD [OF tu, of x] unfolding g by auto
  then show "quiet L s u"
    using st tu by (auto simp: quiet_def same_geometry_def)
qed

lemma frame_quiet: "term_frame s s' \<Longrightarrow> cursor_ok (tty0 s') \<Longrightarrow> quiet L s s'"
  by (auto simp: quiet_def term_frame_def)

text \<open>A routine that only prints.\<close>

definition prints :: "syms \<Rightarrow> (kstate \<Rightarrow> kstate option) \<Rightarrow> bool" where
  "prints L f \<longleftrightarrow> (\<forall>s. print_ok L s \<longrightarrow> (\<exists>s'. f s = Some s' \<and> quiet L s s'))"

lemma printsD: "prints L f \<Longrightarrow> print_ok L s \<Longrightarrow> \<exists>s'. f s = Some s' \<and> quiet L s s' \<and> print_ok L s'"
  using quiet_print_ok unfolding prints_def by blast

lemma prints_bind:
  assumes "prints L f" and "prints L g"
  shows "prints L (\<lambda>s. Option.bind (f s) g)"
  unfolding prints_def
proof (intro allI impI)
  fix s
  assume "print_ok L s"
  from printsD [OF assms(1) this] obtain t where t: "f s = Some t" "quiet L s t" "print_ok L t" by blast
  from printsD [OF assms(2) t(3)] obtain u where "g t = Some u" "quiet L t u" by blast
  with t show "\<exists>s'. Option.bind (f s) g = Some s' \<and> quiet L s s'"
    using quiet_trans by auto
qed

lemma prints_lit: "prints L (\<lambda>s. Some (term_writelit cs s))"
  using writelit_frame frame_quiet by (fastforce simp: prints_def print_ok_def)

section \<open>Numbers\<close>

lemma cstr_exists: "n < 4294967296 \<Longrightarrow> m (a + of_nat n) = 0 \<Longrightarrow> \<exists>cs. cstr_at m a cs \<and> length cs \<le> n"
proof (induction n arbitrary: a)
  case 0
  then show ?case by (intro exI [of _ "[]"]) simp
next
  case (Suc n)
  show ?case
  proof (cases "m a = 0")
    case True
    then show ?thesis by (intro exI [of _ "[]"]) simp
  next
    case False
    obtain cs where "cstr_at m (a + 1) cs" "length cs \<le> n"
      using Suc.IH [of "a + 1"] Suc.prems by (auto simp: add.assoc)
    then show ?thesis using False by (intro exI [of _ "m a # cs"]) simp
  qed
qed

lemma itoa_loop_region:
  assumes "unat i \<le> 64"
  shows "unat (fst (itoa_loop L base val i m)) \<le> 64
    \<and> (\<forall>x. inreg (s_itoa_buf L + 1) 64 x \<or> snd (itoa_loop L base val i m) x = m x)"
  using assms
proof (induction L base val i m rule: itoa_loop.induct)
  case (1 L base val i m)
  show ?case
  proof (cases "val \<noteq> 0 \<and> i \<noteq> 0")
    case False
    then show ?thesis using 1(2) by (subst (1 2) itoa_loop.simps) auto
  next
    case True
    let ?m = "store8 m (s_itoa_buf L + i) (itoa_digit L m (c_mod val base))"
    have i1: "unat (i - 1) = unat i - 1" using True by (simp add: unat_pred)
    have "inreg (s_itoa_buf L + 1) 64 (s_itoa_buf L + i)"
      using i1 1(2) True by (simp add: inreg_def)
    then have "inreg (s_itoa_buf L + 1) 64 x \<or> ?m x = m x" for x
      by (auto simp: store8_def)
    moreover have "itoa_loop L base val i m = itoa_loop L base (c_div val base) (i - 1) ?m"
      using True by (subst itoa_loop.simps) simp
    moreover have "unat (i - 1) \<le> 64" using i1 1(2) by simp
    note 1(1) [OF True this]
    ultimately show ?thesis by metis
  qed
qed

lemma itoa_region_gen:
  assumes "base \<noteq> 0"
  shows "\<exists>p m'. itoa L val base m = Some (p, m')
    \<and> (\<forall>x. inreg (s_itoa_buf L + 1) 64 x \<or> m' x = m x)
    \<and> (p = s_zero L \<or> (\<exists>j. unat j \<le> 64 \<and> p = s_itoa_buf L + 1 + j))"
proof (cases "val = 0")
  case True
  then show ?thesis by (simp add: itoa_def)
next
  case False
  obtain j m' where it: "itoa_loop L base val 64 m = (j, m')" by (cases "itoa_loop L base val 64 m")
  then have "unat j \<le> 64 \<and> (\<forall>x. inreg (s_itoa_buf L + 1) 64 x \<or> m' x = m x)"
    using itoa_loop_region [of 64 L base val m] by simp
  then show ?thesis
    using False assms it by (auto simp: itoa_def intro!: exI [of _ j])
qed

lemma prints_num: "base \<noteq> 0 \<Longrightarrow> prints L (\<lambda>s. term_writenum L (v s) base s)"
  unfolding prints_def
proof (intro allI impI)
  fix s
  assume b: "base \<noteq> 0" and ok: "print_ok L s"
  let ?b = "s_itoa_buf L"
  obtain p m where it: "itoa L (v s) base (ram s) = Some (p, m)"
    and out: "\<And>x. inreg (?b + 1) 64 x \<or> m x = ram s x"
    and p: "p = s_zero L \<or> (\<exists>j. unat j \<le> 64 \<and> p = ?b + 1 + j)"
    using itoa_region_gen [OF b, of L "v s" "ram s"] by blast
  let ?s = "s\<lparr>ram := m\<rparr>"
  have q: "quiet L s ?s"
    using out ok by (auto simp: quiet_def print_ok_def)
  then have ok': "print_ok L ?s" using ok by (rule quiet_print_ok)
  have "\<exists>cs. cstr_at m p cs \<and> length cs < 4294967296 \<and> (\<forall>x. inreg p (Suc (length cs)) x \<longrightarrow> \<not> in_frame (tty0 s) x)"
  proof (cases "p = s_zero L")
    case True
    have "cstr_at m p [48]" using ok' True by (simp add: print_ok_def)
    moreover have "\<not> in_frame (tty0 s) x" if "inreg p 2 x" for x
      using print_ok_apart(2) [OF ok] that True by simp
    ultimately show ?thesis by (intro exI [of _ "[48]"]) (simp add: numeral_2_eq_2)
  next
    case False
    then obtain j where j: "unat j \<le> 64" "p = ?b + 1 + j" using p by blast
    have "p + of_nat (64 - unat j) = ?b + 65"
      using j by (simp add: of_nat_diff)
    then have "m (p + of_nat (64 - unat j)) = 0" using ok' by (simp add: print_ok_def)
    moreover have "64 - unat j < 4294967296" by linarith
    ultimately obtain cs where cs: "cstr_at m p cs" "length cs \<le> 64 - unat j"
      using cstr_exists [of "64 - unat j" m p] by blast
    have "\<not> in_frame (tty0 s) x" if "inreg p (Suc (length cs)) x" for x
    proof -
      have "inreg (?b + 1) 65 x"
        using that j cs(2) by (intro inreg_sub [of "?b + 1" j "Suc (length cs)"]) auto
      then show ?thesis by (rule print_ok_apart(1) [OF ok])
    qed
    then show ?thesis using cs by (intro exI [of _ cs]) auto
  qed
  then obtain cs where cs: "cstr_at m p cs" "length cs < 4294967296"
    "\<And>x. inreg p (Suc (length cs)) x \<Longrightarrow> \<not> in_frame (tty0 s) x" by blast
  have g: "geometry_ok (tty0 ?s)" "cursor_ok (tty0 ?s)" using ok by (simp_all add: print_ok_def)
  have "term_writestring p ?s = Some (fold term_putchar cs ?s)"
    using cs g by (intro term_writestring_fold) simp_all
  moreover have "quiet L ?s (fold term_putchar cs ?s)"
    using tp.fold_put [OF g] frame_quiet by blast
  ultimately show "\<exists>s'. term_writenum L (v s) base s = Some s' \<and> quiet L s s'"
    using it q quiet_trans by (auto simp: term_writenum_def)
qed

section \<open>Dumps\<close>

lemma prints_dump_from: "prints L (mem_dump_from L data sz i)"
proof -
  have "\<exists>s'. mem_dump_from L data sz i s = Some s' \<and> quiet L s s'" if "print_ok L s" for s
    using that
  proof (induction L data sz i s rule: mem_dump_from.induct)
    case (1 L data sz i s)
    show ?case
    proof (cases "i < sz")
      case False
      then show ?thesis using quiet_refl [OF 1(2)] by (subst mem_dump_from.simps) simp
    next
      case True
      obtain s1 where s1: "term_writenum L (ucast (load8 (ram s) (data + i))) 16 s = Some s1"
        "quiet L s s1" "print_ok L s1"
          using printsD [OF prints_num [where v = "\<lambda>_. ucast (load8 (ram s) (data + i))" and base = 16] 1(2)] by auto
      obtain s2 where s2: "term_writelit '':'' s1 = s2" "quiet L s1 s2" "print_ok L s2"
        using printsD [OF prints_lit s1(3)] by blast
      obtain s3 where s3: "mem_dump_from L data sz (i + 1) s2 = Some s3" "quiet L s2 s3"
        using 1(1) [OF True s1(1)] s2 by blast
      have "quiet L s s3"
        by (rule quiet_trans [OF quiet_trans [OF s1(2) s2(2)] s3(2)])
      moreover have "mem_dump_from L data sz i s = Some s3"
        using True s1(1) s2(1) s3(1) by (subst mem_dump_from.simps) simp
      ultimately show ?thesis by blast
    qed
  qed
  then show ?thesis by (simp add: prints_def)
qed

lemma prints_mem_dump: "prints L (mem_dump L data sz)"
  unfolding mem_dump_def [abs_def]
  by (intro prints_bind prints_lit prints_num prints_dump_from) simp_all

section \<open>The memory map\<close>

text \<open>A node that neither the screen nor the digit buffer overlaps.\<close>

definition node_apart :: "syms \<Rightarrow> term_t \<Rightarrow> addr \<Rightarrow> bool" where
  "node_apart L t q \<longleftrightarrow> (\<forall>x. inreg q 16 x \<longrightarrow> \<not> in_frame t x \<and> \<not> inreg (s_itoa_buf L + 1) 64 x)"

lemma quiet_chain:
  assumes "quiet L s s'" and "\<forall>q \<in> set (p # qs). node_apart L (tty0 s) q" and "chain (mp_next (ram s)) p qs"
  shows "chain (mp_next (ram s')) p qs"
proof (rule chain_cong [OF _ assms(3)])
  fix q
  assume "q \<in> set (p # qs)"
  then have "node_apart L (tty0 s) q" using assms(2) by blast
  then have "ram s' x = ram s x" if "inreg q 16 x" for x
    using quietD [OF assms(1)] that by (simp add: node_apart_def)
  then show "mp_next (ram s') q = mp_next (ram s) q" by (rule mp_local(2))
qed

lemma quiet_apart:
  "quiet L s s' \<Longrightarrow> node_apart L (tty0 s') q = node_apart L (tty0 s) q"
  using in_frame_geometry [of "tty0 s" "tty0 s'"] by (simp add: node_apart_def quiet_def)

lemma prints_entry: "prints L (print_mem_entry L tag entry)"
  unfolding print_mem_entry_def [abs_def]
  by (intro prints_bind prints_lit prints_num) simp_all

lemma print_list_returns:
  assumes "print_ok L s" and "chain (mp_next (ram s)) p qs"
    and "\<forall>q \<in> set (p # qs). node_apart L (tty0 s) q"
  shows "\<exists>s'. print_mem_list L tag p s = Some s' \<and> quiet L s s'"
  using assms
proof (induction qs arbitrary: p s)
  case Nil
  then show ?case using quiet_refl by (simp add: print_mem_list.simps [of L tag p])
next
  case (Cons q qs)
  obtain s1 where s1: "print_mem_entry L tag p s = Some s1" "quiet L s s1" "print_ok L s1"
    using printsD [OF prints_entry Cons.prems(1)] by blast
  have c: "chain (mp_next (ram s1)) p (q # qs)"
    by (rule quiet_chain [OF s1(2) Cons.prems(3,2)])
  have "\<exists>s'. print_mem_list L tag q s1 = Some s' \<and> quiet L s1 s'"
    using c Cons.prems(3) quiet_apart [OF s1(2)] by (intro Cons.IH [OF s1(3)]) auto
  then obtain s2 where s2: "print_mem_list L tag q s1 = Some s2" "quiet L s1 s2" by blast
  have "mp_next (ram s) p = q" "q \<noteq> 0" "mp_next (ram s1) p = q" using c Cons.prems(2) by auto
  then have "print_mem_list L tag p s = Some s2"
    using s1(1) s2(1) by (simp add: print_mem_list.simps [of L tag p])
  then show ?case using quiet_trans [OF s1(2) s2(2)] by blast
qed

text \<open>On well-formed free and used lists \<open>print_mem_map\<close> returns, and changes
  nothing but the screen, the cursor and the digit buffer.\<close>

theorem print_mem_map_quiet:
  assumes "print_ok L s"
    and "chain (mp_next (ram s)) (s_mm_free L) fs" and "chain (mp_next (ram s)) (s_mm_used L) us"
    and "\<forall>q \<in> set (s_mm_free L # fs @ s_mm_used L # us). node_apart L (tty0 s) q"
  shows "\<exists>s'. print_mem_map L s = Some s' \<and> cursor_ok (tty0 s') \<and> rest s' = rest s
    \<and> (\<forall>x. in_frame (tty0 s) x \<or> inreg (s_itoa_buf L + 1) 64 x \<or> ram s' x = ram s x)"
proof -
  obtain s1 where s1: "print_mem_list L ''  [FREE]'' (s_mm_free L) s = Some s1" "quiet L s s1"
    using print_list_returns [OF assms(1,2)] assms(4) by auto
  have ok1: "print_ok L s1" by (rule quiet_print_ok [OF s1(2) assms(1)])
  have c: "chain (mp_next (ram s1)) (s_mm_used L) us"
    by (rule quiet_chain [OF s1(2) _ assms(3)]) (use assms(4) in auto)
  obtain s2 where s2: "print_mem_list L ''  [USED]'' (s_mm_used L) s1 = Some s2" "quiet L s1 s2"
    using print_list_returns [OF ok1 c, of "''  [USED]''"] assms(4) quiet_apart [OF s1(2)] by auto
  have ok2: "print_ok L s2" by (rule quiet_print_ok [OF s2(2) ok1])
  obtain s3 where s3: "Some (term_writelit ''\<newline>'' s2) = Some s3" "quiet L s2 s3"
    using printsD [OF prints_lit ok2] by blast
  have "quiet L s s3" by (rule quiet_trans [OF quiet_trans [OF s1(2) s2(2)] s3(2)])
  then show ?thesis
    using s1(1) s2(1) s3(1) by (intro exI [of _ s3]) (simp add: print_mem_map_def quiet_def)
qed

text \<open>A sample state that can print: the literal 0 is in place.\<close>

definition sample_printer :: kstate where
  "sample_printer = sample_state\<lparr>ram := store8 (\<lambda>_. 0) 0x101420 48\<rparr>"

lemma sample_printer_ok: "print_ok sample_syms sample_printer"
  using sample_screen
  by (simp add: print_ok_def sample_printer_def frame_bytes_def sep_simps store8_def)

lemma apart_regions:
  assumes "sep (t_buffer t) (frame_bytes t) q 16" and "sep (s_itoa_buf L + 1) 64 q 16"
  shows "node_apart L t q"
  using sep_notin [OF assms(1)] sep_notin [OF assms(2)] by (simp add: node_apart_def in_frame_def)

lemma print_mem_map_quiet_witness:
  "\<exists>s'. print_mem_map sample_syms sample_printer = Some s' \<and> cursor_ok (tty0 s')"
proof -
  have "mp_next (ram sample_printer) 0x101200 = 0" "mp_next (ram sample_printer) 0x101210 = 0"
    by (simp_all add: mp_next_def sample_printer_def mem_simps sep_simps)
  moreover have "node_apart sample_syms (tty0 sample_printer) 0x101200"
    "node_apart sample_syms (tty0 sample_printer) 0x101210"
    by (auto simp: sample_printer_def frame_bytes_def sep_simps intro!: apart_regions)
  ultimately show ?thesis
    using print_mem_map_quiet [OF sample_printer_ok, of "[]" "[]"] by auto
qed

end
