(* ===== verification/Vm.thy ===== *)
theory Vm
  imports Report
begin

text \<open>
  The virtual machine (\<^verbatim>\<open>vm.c\<close>, \<^verbatim>\<open>vm_ops.c\<close>): a machine is a struct in memory with a register file
  and a pointer to the allocator's node of its heap; instructions are ten bytes of the heap.
\<close>

section \<open>Machines: vm\_t\<close>

text \<open>
  \<^verbatim>\<open>vm_t\<close>: name 0, id 4, status 8, then \<^verbatim>\<open>vm_regs_t\<close> at 12 (seven 16-bit registers r0, r1, r2, r3, ip,
  sp, bp and the flags byte), heap at 28.
\<close>

definition VM_READY :: "32 word" where "VM_READY = 0"
definition VM_RUN :: "32 word" where "VM_RUN = 1"
definition VM_DONE :: "32 word" where "VM_DONE = 2"

definition FLAG_EQ :: byte where "FLAG_EQ = 0x01"
definition FLAG_GTE :: byte where "FLAG_GTE = 0x02"
definition FLAG_LTE :: byte where "FLAG_LTE = 0x04"

definition vm_status :: "mem \<Rightarrow> addr \<Rightarrow> 32 word" where "vm_status m vm = load32 m (vm + 8)"
definition vm_ip :: "mem \<Rightarrow> addr \<Rightarrow> 16 word" where "vm_ip m vm = load16 m (vm + 20)"
definition vm_sp :: "mem \<Rightarrow> addr \<Rightarrow> 16 word" where "vm_sp m vm = load16 m (vm + 22)"
definition vm_bp :: "mem \<Rightarrow> addr \<Rightarrow> 16 word" where "vm_bp m vm = load16 m (vm + 24)"
definition vm_flags :: "mem \<Rightarrow> addr \<Rightarrow> byte" where "vm_flags m vm = load8 m (vm + 26)"
definition vm_heap :: "mem \<Rightarrow> addr \<Rightarrow> addr" where "vm_heap m vm = load32 m (vm + 28)"

definition vm_heap_address :: "mem \<Rightarrow> addr \<Rightarrow> addr" where
  "vm_heap_address m vm = mp_address m (vm_heap m vm)"

text \<open>\<^verbatim>\<open>vm_ins\<close>: op\_mask 0, op 1, arg0\_mask 2, arg0 4, arg1\_mask 6, arg1 8; ten bytes.\<close>

definition ins_op :: "mem \<Rightarrow> addr \<Rightarrow> byte" where "ins_op m i = load8 m (i + 1)"
definition ins_mask0 :: "mem \<Rightarrow> addr \<Rightarrow> byte" where "ins_mask0 m i = load8 m (i + 2)"
definition ins_arg0 :: "mem \<Rightarrow> addr \<Rightarrow> 16 word" where "ins_arg0 m i = load16 m (i + 4)"
definition ins_mask1 :: "mem \<Rightarrow> addr \<Rightarrow> byte" where "ins_mask1 m i = load8 m (i + 6)"
definition ins_arg1 :: "mem \<Rightarrow> addr \<Rightarrow> 16 word" where "ins_arg1 m i = load16 m (i + 8)"

lemma ins_fields_local:
  assumes "\<And>x. inreg p 10 x \<Longrightarrow> m' x = m x"
  shows "ins_op m' p = ins_op m p" "ins_mask0 m' p = ins_mask0 m p" "ins_arg0 m' p = ins_arg0 m p"
    "ins_mask1 m' p = ins_mask1 m p" "ins_arg1 m' p = ins_arg1 m p"
proof -
  have b: "load8 m' (p + k) = load8 m (p + k)" if "unat k < 10" for k
    by (rule c8.ld_local, rule assms, erule inreg_sub, use that in simp)
  have w: "load16 m' (p + k) = load16 m (p + k)" if "unat k < 9" for k
    by (rule c16.ld_local, rule assms, erule inreg_sub, use that in simp)
  show "ins_op m' p = ins_op m p" "ins_mask0 m' p = ins_mask0 m p" "ins_arg0 m' p = ins_arg0 m p"
    "ins_mask1 m' p = ins_mask1 m p" "ins_arg1 m' p = ins_arg1 m p"
    by (simp_all add: ins_op_def ins_mask0_def ins_mask1_def ins_arg0_def ins_arg1_def b w)
qed

section \<open>Operands\<close>

text \<open>The register file is indexed as bytes: register \<open>k\<close> is the byte at twice \<open>k\<close>.\<close>

definition vm_reg_addr :: "addr \<Rightarrow> 16 word \<Rightarrow> addr" where
  "vm_reg_addr vm arg0 = vm + 12 + 2 * scast arg0"

definition vm_cell_addr :: "mem \<Rightarrow> addr \<Rightarrow> 16 word \<Rightarrow> addr" where
  "vm_cell_addr m vm p = vm_heap_address m vm + (scast p + scast (vm_bp m vm))"

definition vm_write :: "addr \<Rightarrow> byte \<Rightarrow> 16 word \<Rightarrow> 16 word \<Rightarrow> mem \<Rightarrow> mem" where
  "vm_write vm mask0 arg0 val m =
     (if mask0 = 0 then m
      else if mask0 = 1 then store8 m (vm_reg_addr vm arg0) (ucast val)
      else if mask0 = 2 then store8 m (vm_cell_addr m vm arg0) (ucast val)
      else if mask0 = 3 then
        (let p = ucast (load8 m (vm_reg_addr vm arg0)) in store8 m (vm_cell_addr m vm p) (ucast val))
      else m)"

definition vm_read :: "mem \<Rightarrow> addr \<Rightarrow> byte \<Rightarrow> 16 word \<Rightarrow> 16 word" where
  "vm_read m vm mask0 arg0 =
     (if mask0 = 0 then arg0
      else if mask0 = 1 then ucast (load8 m (vm_reg_addr vm arg0))
      else if mask0 = 2 then ucast (load8 m (vm_cell_addr m vm arg0))
      else if mask0 = 3 then
        (let p = ucast (load8 m (vm_reg_addr vm arg0)) in ucast (load8 m (vm_cell_addr m vm p)))
      else 0)"

section \<open>Operations (vm\_ops.c)\<close>

definition op_halt :: "addr \<Rightarrow> addr \<Rightarrow> mem \<Rightarrow> mem" where
  "op_halt vm i m = store32 m (vm + 8) VM_DONE"

definition op_mov :: "addr \<Rightarrow> addr \<Rightarrow> mem \<Rightarrow> mem" where
  "op_mov vm i m = vm_write vm (ins_mask0 m i) (ins_arg0 m i) (vm_read m vm (ins_mask1 m i) (ins_arg1 m i)) m"

definition op_push :: "addr \<Rightarrow> addr \<Rightarrow> mem \<Rightarrow> mem" where
  "op_push vm i m =
     (let heap = vm_heap_address m vm;
          val = vm_read m vm (ins_mask0 m i) (ins_arg0 m i);
          m1 = store8 m (heap + scast (vm_sp m vm)) (ucast val)
      in store16 m1 (vm + 22) (vm_sp m1 vm + 2))"

definition op_pop :: "addr \<Rightarrow> addr \<Rightarrow> mem \<Rightarrow> mem" where
  "op_pop vm i m =
     (let heap = vm_heap_address m vm;
          val = ucast (load8 m (heap + scast (vm_sp m vm))) :: 16 word;
          m1 = store16 m (vm + 22) (vm_sp m vm - 1)
      in vm_write vm (ins_mask0 m1 i) (ins_arg0 m1 i) val m1)"

definition set_flag :: "bool \<Rightarrow> byte \<Rightarrow> byte \<Rightarrow> byte" where
  "set_flag b flag f = (if b then f OR flag else f AND NOT flag)"

definition update_flags :: "addr \<Rightarrow> (byte \<Rightarrow> byte) \<Rightarrow> mem \<Rightarrow> mem" where
  "update_flags vm g m = store8 m (vm + 26) (g (vm_flags m vm))"

definition op_cmp :: "addr \<Rightarrow> addr \<Rightarrow> mem \<Rightarrow> mem" where
  "op_cmp vm i m =
     (let a0 = vm_read m vm (ins_mask0 m i) (ins_arg0 m i);
          a1 = vm_read m vm (ins_mask1 m i) (ins_arg1 m i);
          m = update_flags vm (set_flag (a0 = a1) FLAG_EQ) m;
          m = update_flags vm (set_flag (a1 \<le>s a0) FLAG_GTE) m
      in update_flags vm (set_flag (a0 \<le>s a1) FLAG_LTE) m)"

text \<open>The table holds a function pointer per opcode; its parameter type counts pointers, not structs.\<close>

definition vm_op_register :: "addr \<Rightarrow> addr \<Rightarrow> cint \<Rightarrow> mem \<Rightarrow> mem" where
  "vm_op_register vm_ops op opcode m = store32 m (vm_ops + 4 * opcode) op"

definition vm_ops_init :: "syms \<Rightarrow> mem \<Rightarrow> mem" where
  "vm_ops_init L m =
     (let m = vm_op_register (s_vm_ops L) (f_vm_op L 0) 0 m;
          m = vm_op_register (s_vm_ops L) (f_vm_op L 1) 1 m;
          m = vm_op_register (s_vm_ops L) (f_vm_op L 2) 2 m;
          m = vm_op_register (s_vm_ops L) (f_vm_op L 3) 3 m
      in vm_op_register (s_vm_ops L) (f_vm_op L 4) 4 m)"

definition vm_op_call :: "syms \<Rightarrow> addr \<Rightarrow> addr \<Rightarrow> addr \<Rightarrow> kstate \<Rightarrow> kstate comp" where
  "vm_op_call L f vm i s =
     (if f = f_vm_op L 0 then ret (with_ram (op_halt vm i) s)
      else if f = f_vm_op L 1 then ret (with_ram (op_mov vm i) s)
      else if f = f_vm_op L 2 then ret (with_ram (op_push vm i) s)
      else if f = f_vm_op L 3 then ret (with_ram (op_pop vm i) s)
      else if f = f_vm_op L 4 then ret (with_ram (op_cmp vm i) s)
      else Some (Inl (WildCall f s)))"

section \<open>The machine (vm.c)\<close>

definition vm_get_instuction :: "mem \<Rightarrow> addr \<Rightarrow> addr" where
  "vm_get_instuction m vm = vm_heap_address m vm + scast (vm_ip m vm)"

text \<open>The opcode is a signed \<^verbatim>\<open>char\<close>.\<close>

definition vm_run_op :: "syms \<Rightarrow> addr \<Rightarrow> kstate \<Rightarrow> kstate comp" where
  "vm_run_op L vm s =
     (let i = vm_get_instuction (ram s) vm;
          f = load32 (ram s) (s_vm_ops L + 4 * scast (ins_op (ram s) i))
      in vm_op_call L f vm i s)"

definition vm_init :: "syms \<Rightarrow> addr \<Rightarrow> addr \<Rightarrow> kstate \<Rightarrow> kstate comp" where
  "vm_init L vm name s =
     bindc (malloc L 1024 (with_ram (\<lambda>m. store32 m vm name) s)) (\<lambda>(heap, s).
       let m = store32 (ram s) (vm + 28) heap;
           m = store16 m (vm + 20) 0;
           m = store16 m (vm + 22) 0;
           m = store16 m (vm + 24) 0;
           m = store16 m (vm + 12) 0;
           m = store16 m (vm + 14) 0;
           m = store16 m (vm + 16) 0;
           m = store16 m (vm + 18) 0;
           m = store8 m (vm + 26) 0
       in ret (s\<lparr>ram := store32 m (vm + 8) VM_READY\<rparr>))"

text \<open>\<^verbatim>\<open>vm_pool\<close>: name 0, next\_vm\_slot 4, 1024 machines from 8; the slot is not checked.\<close>

definition vm_add_to_pool :: "addr \<Rightarrow> addr \<Rightarrow> mem \<Rightarrow> mem" where
  "vm_add_to_pool pool vm m =
     (let m = store32 m (pool + 8 + 4 * load32 m (pool + 4)) vm
      in store32 m (pool + 4) (load32 m (pool + 4) + 1))"

definition vm_load_heap :: "addr \<Rightarrow> addr \<Rightarrow> mem \<Rightarrow> mem" where
  "vm_load_heap vm heap m = store32 m (vm + 28) heap"

definition vm_copy_to_heap :: "addr \<Rightarrow> cint \<Rightarrow> addr \<Rightarrow> addr \<Rightarrow> mem \<Rightarrow> mem" where
  "vm_copy_to_heap vm address data sz m = mem_cpy (vm_heap_address m vm + address) data sz m"

definition vm_dump_register :: "syms \<Rightarrow> string \<Rightarrow> cint \<Rightarrow> addr \<Rightarrow> kstate \<Rightarrow> kstate option" where
  "vm_dump_register L label off vm s =
     Option.bind (Some (term_writelit label s)) (\<lambda>s. term_writenum L (scast (load16 (ram s) (vm + off))) 16 s)"

definition vm_dump_registers :: "syms \<Rightarrow> addr \<Rightarrow> kstate \<Rightarrow> kstate option" where
  "vm_dump_registers L vm s = do {
     s \<leftarrow> vm_dump_register L ''  ip: '' 20 vm s;
     s \<leftarrow> vm_dump_register L ''  sp: '' 22 vm s;
     s \<leftarrow> vm_dump_register L ''  bp: '' 24 vm s;
     s \<leftarrow> vm_dump_register L ''  r0: '' 12 vm s;
     s \<leftarrow> vm_dump_register L ''  r1: '' 14 vm s;
     s \<leftarrow> vm_dump_register L ''  r2: '' 16 vm s;
     s \<leftarrow> vm_dump_register L ''  r3: '' 18 vm s;
     s \<leftarrow> Some (term_writelit ''  fr: '' s);
     s \<leftarrow> term_writenum L (scast (vm_flags (ram s) vm)) 2 s;
     Some (term_writelit ''\<newline>'' s) }"

definition vm_report :: "syms \<Rightarrow> addr \<Rightarrow> kstate \<Rightarrow> kstate option" where
  "vm_report L vm s = do {
     s \<leftarrow> mem_dump L (vm_heap_address (ram s) vm + scast (vm_ip (ram s) vm)) 32 s;
     vm_dump_registers L vm s }"

partial_function (option) vm_loop :: "syms \<Rightarrow> addr \<Rightarrow> kstate \<Rightarrow> kstate comp" where
  "vm_loop L vm s =
     (if vm_status (ram s) vm = VM_RUN then
        bindc (vm_run_op L vm s) (\<lambda>s.
        bindc (lift_comp (vm_report L vm s)) (\<lambda>s.
        vm_loop L vm (with_ram (\<lambda>m. store16 m (vm + 20) (vm_ip m vm + 10)) s)))
      else lift_comp (vm_report L vm s))"

definition vm_run :: "syms \<Rightarrow> addr \<Rightarrow> kstate \<Rightarrow> kstate comp" where
  "vm_run L vm s =
     (if vm_status (ram s) vm = VM_READY
      then vm_loop L vm (with_ram (\<lambda>m. store32 m (vm + 8) VM_RUN) s) else ret s)"

lemmas vm_fields = vm_status_def vm_ip_def vm_sp_def vm_bp_def vm_flags_def vm_heap_def

lemma prints_vm_report: "prints L (vm_report L vm)"
proof -
  have r: "prints L (vm_dump_register L label off vm)" for label off
    unfolding vm_dump_register_def [abs_def] by (intro prints_bind prints_lit prints_num) simp
  have d: "prints L (vm_dump_registers L vm)"
    unfolding vm_dump_registers_def [abs_def] by (intro prints_bind prints_lit prints_num r) simp
  have "prints L (\<lambda>s. mem_dump L (vm_heap_address (ram s) vm + scast (vm_ip (ram s) vm)) 32 s)"
    using prints_mem_dump by (auto simp: prints_def)
  then show ?thesis
    unfolding vm_report_def [abs_def] by (rule prints_bind [OF _ d])
qed

end
