(* ===== verification/Dasm.thy ===== *)
theory Dasm
  imports Vm
begin

text \<open>
  The assembler of the kernel (\<^verbatim>\<open>dasm.c\<close>) and the start of the virtual machine manager that uses it
  (\<open>init_vmm\<close> of \<^verbatim>\<open>vm.c\<close>). Lines, tokens and operands are copied into blocks of the allocator.
\<close>

section \<open>Intermediate instructions: ins\_t\<close>

text \<open>\<^verbatim>\<open>ins_t\<close>, 28 bytes: raw 0, three tokens from 4, op\_mask 16, op 17, m0 18, a0 20, m1 22, a1 24.\<close>

definition ins_raw :: "mem \<Rightarrow> addr \<Rightarrow> addr" where "ins_raw m i = load32 m i"

definition ins_token :: "mem \<Rightarrow> addr \<Rightarrow> cint \<Rightarrow> addr" where
  "ins_token m i t = load32 m (i + (4 + 4 * t))"

definition sizeof_ins :: "32 word" where "sizeof_ins = 28"

definition dasm_ops :: "string list" where
  "dasm_ops = [''hlt'', ''mov'', ''push'', ''pop'', ''cmp'']"

definition dasm_regs :: "string list" where
  "dasm_regs = [''r0'', ''r1'', ''r2'', ''r3'', ''ip'', ''sp'', ''bp'']"

section \<open>Names and operands\<close>

text \<open>The loop over a table of names: the index of the first name for which \<open>strcmp\<close> returns 0.\<close>

fun name_index :: "syms \<Rightarrow> mem \<Rightarrow> addr \<Rightarrow> nat \<Rightarrow> string list \<Rightarrow> nat option option" where
  "name_index L m tok k [] = Some None"
| "name_index L m tok k (n # ns) =
     (case strcmp m tok (s_literal L n) of
        None \<Rightarrow> None
      | Some r \<Rightarrow> if r = 0 then Some (Some k) else name_index L m tok (Suc k) ns)"

definition get_reg :: "syms \<Rightarrow> mem \<Rightarrow> addr \<Rightarrow> cint option" where
  "get_reg L m reg =
     map_option (\<lambda>r. case r of None \<Rightarrow> - 1 | Some k \<Rightarrow> of_nat k) (name_index L m reg 0 dasm_regs)"

text \<open>\<^verbatim>\<open>strchr("...", c)\<close> as a condition.\<close>

definition char_in :: "syms \<Rightarrow> mem \<Rightarrow> string \<Rightarrow> byte \<Rightarrow> bool option" where
  "char_in L m cs c = map_option (\<lambda>p. p \<noteq> 0) (strchr m (s_literal L cs) c)"

text \<open>A register operand: two characters of the token from \<open>off\<close> on are copied to a block of three.\<close>

definition arg_register :: "syms \<Rightarrow> addr \<Rightarrow> cint \<Rightarrow> addr \<Rightarrow> kstate \<Rightarrow> (16 word \<times> kstate) comp" where
  "arg_register L ins t off s =
     bindc (malloc_raw L 3 s) (\<lambda>(reg, s).
       let m = mem_cpy reg (ins_token (ram s) ins t + off) 2 (ram s);
           m = store8 m (reg + 3) 0
       in bindc (lift_comp (get_reg L m reg)) (\<lambda>r. ret (ucast r, s\<lparr>ram := m\<rparr>)))"

definition arg_pointer :: "syms \<Rightarrow> addr \<Rightarrow> cint \<Rightarrow> kstate \<Rightarrow> (16 word \<times> kstate) comp" where
  "arg_pointer L ins t s =
     bindc (lift_comp (strlen (ram s) (ins_token (ram s) ins t))) (\<lambda>n.
     bindc (malloc_raw L (n - 1) s) (\<lambda>(val, s).
     bindc (lift_comp (strlen (ram s) (ins_token (ram s) ins t))) (\<lambda>n.
       let m = mem_cpy val (ins_token (ram s) ins t + 1) (n - 2) (ram s)
       in bindc (lift_comp (atoi m val)) (\<lambda>a. ret (ucast a, s\<lparr>ram := m\<rparr>)))))"

definition arg_value :: "addr \<Rightarrow> cint \<Rightarrow> kstate \<Rightarrow> (16 word \<times> kstate) comp" where
  "arg_value ins t s = bindc (lift_comp (atoi (ram s) (ins_token (ram s) ins t))) (\<lambda>a. ret (ucast a, s))"

text \<open>The chain of conditions that tells the kind of the operand: its mode, its value.\<close>

definition arg_kind :: "syms \<Rightarrow> addr \<Rightarrow> cint \<Rightarrow> kstate \<Rightarrow> (byte \<times> 16 word \<times> kstate) comp" where
  "arg_kind L ins t s =
     (let m = ram s; tok = ins_token m ins t; bracket = load8 m tok = 91;
          mode = (\<lambda>k (a, s). ret (k, a, s))
      in bindc (if bracket then lift_comp (char_in L m ''risbp'' (load8 m (tok + 1))) else ret False) (\<lambda>b.
         if b then bindc (arg_register L ins t 1 s) (mode 3)
         else bindc (lift_comp (char_in L m ''0123456789'' (load8 m tok))) (\<lambda>b.
         if b then bindc (arg_value ins t s) (mode 0)
         else bindc (lift_comp (char_in L m ''risbp'' (load8 m tok))) (\<lambda>b.
         if b then bindc (arg_register L ins t 0 s) (mode 1)
         else bindc (if bracket then lift_comp (char_in L m ''0123456789'' (load8 m (tok + 1))) else ret False) (\<lambda>b.
         if b then bindc (arg_pointer L ins t s) (mode 2)
         else ret (0, 0, s))))))"

definition parse_arg :: "syms \<Rightarrow> addr \<Rightarrow> cint \<Rightarrow> kstate \<Rightarrow> kstate comp" where
  "parse_arg L ins t s =
     bindc (arg_kind L ins t s) (\<lambda>(md, a, s).
       ret (if t = 1 then with_ram (\<lambda>m. store16 (store8 m (ins + 18) md) (ins + 20) a) s
            else if t = 2 then with_ram (\<lambda>m. store16 (store8 m (ins + 22) md) (ins + 24) a) s
            else s))"

section \<open>Lines\<close>

definition parse_op :: "syms \<Rightarrow> addr \<Rightarrow> kstate \<Rightarrow> kstate comp" where
  "parse_op L ins s =
     bindc (lift_comp (term_writestring (ins_token (ram s) ins 0) s)) (\<lambda>s.
     bindc (lift_comp (name_index L (ram s) (ins_token (ram s) ins 0) 0 dasm_ops)) (\<lambda>r.
       ret (case r of
              None \<Rightarrow> s
            | Some k \<Rightarrow> with_ram (\<lambda>m. store8 (store8 m (ins + 17) (of_nat k)) (ins + 16) 0) s)))"

text \<open>A token: the characters are copied, and the terminator stored one byte behind its place.\<close>

definition copy_text :: "addr \<Rightarrow> addr \<Rightarrow> cint \<Rightarrow> mem \<Rightarrow> mem" where
  "copy_text dst src n m = store8 (mem_cpy dst src n m) (dst + (n + 1)) 0"

definition parse_token :: "syms \<Rightarrow> addr \<Rightarrow> cint \<Rightarrow> cint \<Rightarrow> cint \<Rightarrow> kstate \<Rightarrow> kstate comp" where
  "parse_token L ins i tok_len t s =
     bindc (malloc_raw L (tok_len + 1) s) (\<lambda>(p, s).
       let s = with_ram (\<lambda>m. store32 m (ins + (4 + 4 * t)) p) s;
           s = with_ram (\<lambda>m. copy_text (ins_token m ins t) (ins_raw m ins + (i - tok_len)) tok_len m) s
       in if t = 0 then parse_op L ins s else parse_arg L ins t s)"

partial_function (option) parse_from ::
  "syms \<Rightarrow> addr \<Rightarrow> cint \<Rightarrow> cint \<Rightarrow> cint \<Rightarrow> cint \<Rightarrow> kstate \<Rightarrow> kstate comp" where
  "parse_from L ins len i tok_len t s =
     (if i <s len + 1 then
        (let c = load8 (ram s) (ins_raw (ram s) ins + i)
         in if c = 32 \<or> c = 0
            then bindc (parse_token L ins i tok_len t s) (\<lambda>s. parse_from L ins len (i + 2) 1 (t + 1) s)
            else parse_from L ins len (i + 1) (tok_len + 1) t s)
      else ret s)"

definition parse :: "syms \<Rightarrow> addr \<Rightarrow> kstate \<Rightarrow> kstate comp" where
  "parse L ins s =
     bindc (lift_comp (strlen (ram s) (ins_raw (ram s) ins))) (\<lambda>len. parse_from L ins len 0 0 0 s)"

section \<open>The program\<close>

definition dasm_line :: "syms \<Rightarrow> addr \<Rightarrow> addr \<Rightarrow> cint \<Rightarrow> cint \<Rightarrow> kstate \<Rightarrow> kstate comp" where
  "dasm_line L ins code ptr tok_len s =
     bindc (malloc_raw L (tok_len + 1) s) (\<lambda>(p, s).
       let s = with_ram (\<lambda>m. store32 m ins p) s;
           s = with_ram (\<lambda>m. copy_text (ins_raw m ins) (code + (ptr - tok_len)) tok_len m) s
       in parse L ins s)"

partial_function (option) dasm_lines ::
  "syms \<Rightarrow> addr \<Rightarrow> addr \<Rightarrow> cint \<Rightarrow> cint \<Rightarrow> cint \<Rightarrow> cint \<Rightarrow> kstate \<Rightarrow> (cint \<times> kstate) comp" where
  "dasm_lines L ins code len ptr tok_len cur_ins s =
     (if ptr <s len + 1 then
        (let c = load8 (ram s) (code + ptr)
         in if (c = 10 \<or> c = 0) \<and> load8 (ram s) (code + (ptr - tok_len)) \<noteq> 35
            then bindc (dasm_line L (ins + sizeof_ins * cur_ins) code ptr tok_len s) (\<lambda>s.
                 dasm_lines L ins code len (ptr + 2) 1 (cur_ins + 1) s)
            else dasm_lines L ins code len (ptr + 1) (tok_len + 1) cur_ins s)
      else ret (cur_ins, s))"

text \<open>
  One instruction of the result. The bytes of \<^verbatim>\<open>vm_ins\<close> between the fields, which C leaves
  unspecified, keep their values.
\<close>

definition emit_ins :: "addr \<Rightarrow> addr \<Rightarrow> mem \<Rightarrow> mem" where
  "emit_ins ins out m =
     (let m' = store8 m out 15;
          m' = store8 m' (out + 1) (load8 m (ins + 17));
          m' = store8 m' (out + 2) (load8 m (ins + 18));
          m' = store16 m' (out + 4) (load16 m (ins + 20));
          m' = store8 m' (out + 6) (load8 m (ins + 22))
      in store16 m' (out + 8) (load16 m (ins + 24)))"

definition emit :: "addr \<Rightarrow> addr \<Rightarrow> nat \<Rightarrow> mem \<Rightarrow> mem" where
  "emit ins out n m = fold (\<lambda>i. emit_ins (ins + of_nat (28 * i)) (out + of_nat (10 * i))) [0..<n] m"

definition dasm :: "syms \<Rightarrow> addr \<Rightarrow> kstate \<Rightarrow> (addr \<times> kstate) comp" where
  "dasm L code s =
     bindc (malloc L (255 * sizeof_ins) s) (\<lambda>(ins_page, s).
     let ins = mp_address (ram s) ins_page
     in bindc (lift_comp (strlen (ram s) code)) (\<lambda>len.
        bindc (dasm_lines L ins code len 0 0 0 s) (\<lambda>(cur_ins, s).
        bindc (malloc_raw L (255 * 10) s) (\<lambda>(out, s).
          let s = with_ram (emit ins out (nat (sint cur_ins))) s
          in ret (out, with_ram (free L ins_page) s)))))"

section \<open>init\_vmm\<close>

definition vmm_program :: string where
  "vmm_program = ''mov r0 1\<newline>mov r1 2\<newline>mov r2 3\<newline>cmp r3 4\<newline>hlt''"

text \<open>\<open>test_vm\<close> is the address of its local; the pool keeps it.\<close>

definition init_vmm :: "syms \<Rightarrow> addr \<Rightarrow> kstate \<Rightarrow> kstate comp" where
  "init_vmm L test_vm s =
     (let s = with_ram (vm_ops_init L) s;
          s = with_ram (\<lambda>m. store32 m (s_vm_pool L) (s_literal L ''Main VM Pool'')) s;
          s = with_ram (\<lambda>m. store32 m (s_vm_pool L + 4) 0) s
      in bindc (vm_init L test_vm (s_literal L ''Test VM'') s) (\<lambda>s.
         let s = with_ram (vm_add_to_pool (s_vm_pool L) test_vm) s
         in bindc (dasm L (s_literal L vmm_program) s) (\<lambda>(code, s).
            vm_run L test_vm (with_ram (vm_copy_to_heap test_vm 0 code (255 * 10)) s))))"

end
