(* ===== verification/Dasm_Spec.thy ===== *)
theory Dasm_Spec
  imports Dasm
begin

text \<open>
  What the kernel's assembler does with names, numbers and comments, and how it lays out the
  program: its calls of \<open>strcmp\<close> expect the convention of the C library, the kernel's own is opposite.
\<close>

section \<open>Names\<close>

definition names_at :: "syms \<Rightarrow> mem \<Rightarrow> string list \<Rightarrow> bool" where
  "names_at L m ns \<longleftrightarrow> (\<forall>n \<in> set ns. cstr_at m (s_literal L n) (bytes_of n))"

lemma name_index_Cons:
  assumes "names_at L m (n # ns)" and "cstr_at m tok cs"
  shows "name_index L m tok k (n # ns) = (if cs = bytes_of n then name_index L m tok (Suc k) ns else Some (Some k))"
proof -
  have "strcmp m tok (s_literal L n) = Some (if cs = bytes_of n then 1 else 0)"
    using assms by (intro strcmp_cstr) (simp_all add: names_at_def)
  then show ?thesis by simp
qed

text \<open>Of two different names at the head of a table, the first that is not the text is taken.\<close>

lemma name_index_head:
  assumes "names_at L m (n # n' # ns)" and "cstr_at m tok cs" and "bytes_of n' \<noteq> bytes_of n"
  shows "name_index L m tok k (n # n' # ns) = Some (Some (if cs = bytes_of n then Suc k else k))"
proof -
  have "names_at L m (n' # ns)" using assms(1) by (simp add: names_at_def)
  then show ?thesis
    using name_index_Cons [OF assms(1,2), of k] name_index_Cons [OF _ assms(2), of L n' ns "Suc k"] assms(3)
    by (simp del: name_index.simps)
qed

lemma op_index:
  assumes "names_at L m dasm_ops" and "cstr_at m tok cs"
  shows "name_index L m tok k dasm_ops = Some (Some (if cs = bytes_of ''hlt'' then Suc k else k))"
  using assms name_index_head [of L m "''hlt''" "''mov''" _ tok cs] unfolding dasm_ops_def by simp

lemma get_reg_value:
  assumes "names_at L m dasm_regs" and "cstr_at m reg cs"
  shows "get_reg L m reg = Some (if cs = bytes_of ''r0'' then 1 else 0)"
proof -
  have "name_index L m reg 0 dasm_regs = Some (Some (if cs = bytes_of ''r0'' then 1 else 0))"
    using assms name_index_head [of L m "''r0''" "''r1''" _ reg cs 0] unfolding dasm_regs_def by simp
  then show ?thesis by (simp add: get_reg_def)
qed

text \<open>\<open>get_reg\<close> answers 0 for every register name, and for every other text, but
  \<open>r0\<close>, for which it answers 1.\<close>

theorem get_reg_inverted:
  assumes "names_at L m dasm_regs" and "cstr_at m reg cs"
  shows "get_reg L m reg = Some (if cs = bytes_of ''r0'' then 1 else 0)"
  using assms by (rule get_reg_value)

section \<open>Operation names\<close>

definition off_screen :: "kstate \<Rightarrow> addr \<Rightarrow> nat \<Rightarrow> bool" where
  "off_screen s a n \<longleftrightarrow> sep (t_buffer (tty0 s)) (frame_bytes (tty0 s)) a n"

lemma off_screenD: "off_screen s a n \<Longrightarrow> inreg a n x \<Longrightarrow> \<not> in_frame (tty0 s) x"
  using sep_notin by (simp add: off_screen_def in_frame_def)

text \<open>\<open>parse_op\<close> prints the first token of a line and takes \<open>hlt\<close> for \<open>mov\<close> and every
  other name, \<open>mov\<close> and names it does not know included, for \<open>hlt\<close>.\<close>

theorem parse_op_inverted:
  assumes "cstr_at (ram s) (ins_token (ram s) ins 0) cs" and "length cs < 4294967295"
    and "names_at L (ram s) dasm_ops" and "geometry_ok (tty0 s)" and "cursor_ok (tty0 s)"
    and "off_screen s (ins_token (ram s) ins 0) (Suc (length cs))" and "off_screen s ins 28"
    and "\<forall>n \<in> set dasm_ops. off_screen s (s_literal L n) (Suc (length n))"
  shows "\<exists>s'. parse_op L ins s = ret s' \<and> load8 (ram s') (ins + 17) = (if cs = bytes_of ''hlt'' then 1 else 0)
    \<and> load8 (ram s') (ins + 16) = 0"
proof -
  let ?tok = "ins_token (ram s) ins 0" and ?s = "fold term_putchar cs s"
  have w: "term_writestring ?tok s = Some ?s"
    using assms(1,2,4-6) off_screenD by (intro term_writestring_fold) auto
  have "term_frame s ?s" using tp.fold_put [OF assms(4,5)] by blast
  then have keep: "ram ?s x = ram s x" if "\<not> in_frame (tty0 s) x" for x
    using that by (simp add: term_frame_def)
  have tok: "ins_token (ram ?s) ins 0 = ?tok"
    unfolding ins_token_def
    by (rule c32.ld_local, rule keep, rule off_screenD [OF assms(7)], erule inreg_sub) simp
  have "cstr_at (ram ?s) ?tok cs"
    by (rule cstr_at_frame [OF assms(1)], rule keep, erule off_screenD [OF assms(6)])
  moreover have "names_at L (ram ?s) dasm_ops"
    unfolding names_at_def
  proof
    fix n
    assume n: "n \<in> set dasm_ops"
    have "cstr_at (ram s) (s_literal L n) (bytes_of n)" using assms(3) n by (simp add: names_at_def)
    then show "cstr_at (ram ?s) (s_literal L n) (bytes_of n)"
      by (rule cstr_at_frame) (use assms(8) n keep off_screenD in auto)
  qed
  ultimately have "name_index L (ram ?s) ?tok 0 dasm_ops = Some (Some (if cs = bytes_of ''hlt'' then 1 else 0))"
    using op_index by simp
  then show ?thesis
    by (simp add: parse_op_def w tok load8_def store8_apply)
qed

section \<open>Comments\<close>

lemma sint_Suc_less:
  assumes "(a :: cint) <s b"
  shows "sint (a + 1) = sint a + 1"
proof -
  have "sint a < sint b" using assms by (simp add: word_sless_alt)
  moreover have "sint b < 2147483648" "- 2147483648 \<le> sint a" using sint_lt [of b] sint_ge [of a] by simp_all
  ultimately show ?thesis by (simp add: sint_word_ariths signed_take_bit_int_eq_self)
qed

text \<open>A line that starts with \<open>#\<close> is not assembled, and nothing behind it is: the
  assembler goes on looking at the start of the comment to the end of the program.\<close>

theorem comment_swallows:
  assumes "load8 (ram s) (code + (ptr - tok_len)) = 35"
  shows "dasm_lines L ins code len ptr tok_len cur_ins s = ret (cur_ins, s)"
  using assms
proof (induction "nat (sint (len + 1) - sint ptr)" arbitrary: ptr tok_len rule: less_induct)
  case less
  show ?case
  proof (cases "ptr <s len + 1")
    case False
    then show ?thesis by (subst dasm_lines.simps) simp
  next
    case True
    then have "nat (sint (len + 1) - sint (ptr + 1)) < nat (sint (len + 1) - sint ptr)"
      by (simp add: sint_Suc_less word_sless_alt)
    moreover have "ptr + 1 - (tok_len + 1) = ptr - tok_len" by simp
    ultimately have "dasm_lines L ins code len (ptr + 1) (tok_len + 1) cur_ins s = ret (cur_ins, s)"
      using less by metis
    then show ?thesis using True less(2) by (subst dasm_lines.simps) simp
  qed
qed

lemma comment_swallows_witness:
  "dasm_lines sample_syms 0x200000 0x300000 8 0 0 3 (sample_state\<lparr>ram := store8 (\<lambda>_. 0) 0x300000 35\<rparr>) =
    ret (3, sample_state\<lparr>ram := store8 (\<lambda>_. 0) 0x300000 35\<rparr>)"
  by (rule comment_swallows) (simp add: mem_simps)

section \<open>Numbers\<close>

definition text_at :: "syms \<Rightarrow> mem \<Rightarrow> string \<Rightarrow> bool" where
  "text_at L m cs \<longleftrightarrow> cstr_at m (s_literal L cs) (bytes_of cs) \<and> 0 < unat (s_literal L cs)
     \<and> unat (s_literal L cs) + length cs < 4294967296"

lemma char_in_text:
  assumes "text_at L m cs" and "c \<noteq> 0"
  shows "char_in L m cs c = Some (c \<in> set (bytes_of cs))"
proof -
  let ?a = "s_literal L cs" and ?k = "length (takeWhile (\<lambda>x. x \<noteq> c) (bytes_of cs))"
  have "?k \<le> length cs" using length_takeWhile_le [of "\<lambda>x. x \<noteq> c" "bytes_of cs"] by simp
  then have "unat (?a + of_nat ?k) = unat ?a + ?k"
    using assms(1) by (simp add: text_at_def unat_word_ariths unat_of_nat take_bit_nat_eq_self)
  then have "?a + of_nat ?k \<noteq> 0" using assms(1) by (auto simp: text_at_def)
  then show ?thesis
    using assms strchr_cstr [of m ?a "bytes_of cs" c] by (auto simp: char_in_def text_at_def)
qed

lemma itoa_chars_head:
  assumes "0 < n"
  obtains d cs where "itoa_chars 10 n = itoa_digits ! d # cs" and "d < 10"
proof -
  have "digits_of 10 n \<noteq> []" using digits_of_nonempty [of n 10] assms by simp
  then obtain d ds where d: "digits_of 10 n = d # ds" by (cases "digits_of 10 n") auto
  then have "d < 10" using digits_of_less [of d 10 n] by simp
  then show ?thesis using that d by (simp add: itoa_chars_def)
qed

lemma digit_facts:
  assumes "d < 10"
  shows "itoa_digits ! d \<in> set (bytes_of ''0123456789'')" "itoa_digits ! d \<noteq> 91" "itoa_digits ! d \<noteq> 0"
proof -
  have t: "take 10 itoa_digits = bytes_of ''0123456789''" and l: "length itoa_digits = 16"
    by (simp_all add: itoa_digits_def)
  have "take 10 itoa_digits ! d \<in> set (take 10 itoa_digits)" using assms l by (intro nth_mem) simp
  then have "itoa_digits ! d \<in> set (take 10 itoa_digits)" using assms by simp
  then show i: "itoa_digits ! d \<in> set (bytes_of ''0123456789'')" unfolding t .
  have "91 \<notin> set (bytes_of ''0123456789'')" "0 \<notin> set (bytes_of ''0123456789'')" by simp_all
  then show "itoa_digits ! d \<noteq> 91" "itoa_digits ! d \<noteq> 0" using i by metis+
qed

text \<open>A token that is a positive number in decimal, as \<open>itoa\<close> would print it, is an
  immediate operand with that number modulo 65536 as its value, and nothing is allocated or written.\<close>

theorem number_operand:
  assumes "cstr_at (ram s) (ins_token (ram s) ins t) (itoa_chars 10 n)" and "0 < n"
    and "text_at L (ram s) ''0123456789''"
  shows "arg_kind L ins t s = ret (0, of_nat n, s)"
proof -
  let ?tok = "ins_token (ram s) ins t"
  obtain d cs where d: "itoa_chars 10 n = itoa_digits ! d # cs" "d < 10" using itoa_chars_head [OF assms(2)] .
  then have c: "load8 (ram s) ?tok = itoa_digits ! d" using assms(1) by (simp add: load8_def)
  have "char_in L (ram s) ''0123456789'' (load8 (ram s) ?tok) = Some True"
    using char_in_text [OF assms(3)] digit_facts [OF d(2)] by (simp only: c) simp
  moreover have "load8 (ram s) ?tok \<noteq> 91" using digit_facts(2) [OF d(2)] c by simp
  moreover have "atoi (ram s) ?tok = Some (of_nat n)"
    using atoi_cstr [OF assms(1)] by (simp add: dec_value_itoa_chars)
  moreover have "(ucast (of_nat n :: cint) :: 16 word) = of_nat n"
    by (rule word_unat_eq_iff [THEN iffD2]) (simp add: unsigned_ucast_eq unat_of_nat unsigned_of_nat take_bit_eq_mod mod_mod_cancel)
  ultimately show ?thesis by (simp add: arg_kind_def Let_def arg_value_def)
qed

section \<open>The program\<close>

lemma emit_ins_fields:
  "ins_op (emit_ins i out m) out = load8 m (i + 17)" "ins_mask0 (emit_ins i out m) out = load8 m (i + 18)"
  "ins_arg0 (emit_ins i out m) out = load16 m (i + 20)" "ins_mask1 (emit_ins i out m) out = load8 m (i + 22)"
  "ins_arg1 (emit_ins i out m) out = load16 m (i + 24)"
  by (simp_all add: emit_ins_def Let_def ins_op_def ins_mask0_def ins_arg0_def ins_mask1_def ins_arg1_def
      mem_simps sep_simps)

lemma emit_ins_outside: "\<not> inreg out 10 x \<Longrightarrow> emit_ins i out m x = m x"
  using inreg_fields [of out 10 x]
  by (simp add: emit_ins_def Let_def c8.st_outside c16.st_outside)

lemma emit_Suc: "emit ins out (Suc n) m =
    emit_ins (ins + of_nat (28 * n)) (out + of_nat (10 * n)) (emit ins out n m)"
  by (simp add: emit_def)

lemma emit_outside: "10 * n < 4294967296 \<Longrightarrow> \<not> inreg out (10 * n) x \<Longrightarrow> emit ins out n m x = m x"
proof (induction n)
  case 0
  then show ?case by (simp add: emit_def)
next
  case (Suc n)
  have "\<not> inreg (out + of_nat (10 * n)) 10 x"
    using Suc.prems in_array [of out 10 n x "Suc n"] by auto
  moreover have "\<not> inreg out (10 * n) x"
    using Suc.prems(2) inreg_mono [of out "10 * n" x "10 * Suc n"] by auto
  ultimately show ?case using Suc by (simp add: emit_Suc emit_ins_outside)
qed

text \<open>C23. The program the assembler returns is an array of ten-byte instructions the virtual
  machine decodes to the fields of the intermediate ones, in order, and nothing else is written.\<close>

theorem emit_layout:
  assumes "i < n" and "n \<le> 255" and "sep ins (28 * n) out (10 * n)"
  shows "ins_op (emit ins out n m) (out + of_nat (10 * i)) = load8 m (ins + of_nat (28 * i) + 17)
    \<and> ins_mask0 (emit ins out n m) (out + of_nat (10 * i)) = load8 m (ins + of_nat (28 * i) + 18)
    \<and> ins_arg0 (emit ins out n m) (out + of_nat (10 * i)) = load16 m (ins + of_nat (28 * i) + 20)
    \<and> ins_mask1 (emit ins out n m) (out + of_nat (10 * i)) = load8 m (ins + of_nat (28 * i) + 22)
    \<and> ins_arg1 (emit ins out n m) (out + of_nat (10 * i)) = load16 m (ins + of_nat (28 * i) + 24)
    \<and> (\<forall>x. inreg out (10 * n) x \<or> emit ins out n m x = m x)"
proof -
  have fields: "ins_op (emit ins out n m) (out + of_nat (10 * i)) = load8 m (ins + of_nat (28 * i) + 17)
    \<and> ins_mask0 (emit ins out n m) (out + of_nat (10 * i)) = load8 m (ins + of_nat (28 * i) + 18)
    \<and> ins_arg0 (emit ins out n m) (out + of_nat (10 * i)) = load16 m (ins + of_nat (28 * i) + 20)
    \<and> ins_mask1 (emit ins out n m) (out + of_nat (10 * i)) = load8 m (ins + of_nat (28 * i) + 22)
    \<and> ins_arg1 (emit ins out n m) (out + of_nat (10 * i)) = load16 m (ins + of_nat (28 * i) + 24)"
    using assms
  proof (induction n)
    case (Suc n)
    let ?p = "out + of_nat (10 * i)" and ?m = "emit ins out n m" and ?q = "out + of_nat (10 * n)"
    show ?case
    proof (cases "i = n")
      case True
      have *: "?m x = m x" if "inreg (ins + of_nat (28 * n)) 28 x" for x
      proof (rule emit_outside)
        show "10 * n < 4294967296" using Suc.prems(2) by simp
        have "inreg ins (28 * Suc n) x" by (rule in_array [OF that]) (use Suc.prems(2) in simp_all)
        then have "\<not> inreg out (10 * Suc n) x"
          using Suc.prems(3) by (intro sep_notin [of out _ ins]) (simp_all add: sep_sym)
        then show "\<not> inreg out (10 * n) x" using inreg_mono [of out "10 * n" x "10 * Suc n"] by auto
      qed
      have b: "load8 ?m (ins + of_nat (28 * n) + k) = load8 m (ins + of_nat (28 * n) + k)" if "unat k < 28" for k
        by (rule c8.ld_local, rule *, erule inreg_sub, use that in simp)
      have w: "load16 ?m (ins + of_nat (28 * n) + k) = load16 m (ins + of_nat (28 * n) + k)" if "unat k < 27" for k
        by (rule c16.ld_local, rule *, erule inreg_sub, use that in simp)
      show ?thesis unfolding True emit_Suc emit_ins_fields by (simp add: b w del: of_nat_mult)
    next
      case False
      have "sep ?q 10 ?p 10" using False Suc.prems(1,2) by (intro array_sep [of n i "Suc n"]) simp_all
      then have keep: "emit ins out (Suc n) m x = ?m x" if "inreg ?p 10 x" for x
        using sep_notin [OF _ that] by (simp add: emit_Suc emit_ins_outside)
      let ?m' = "emit ins out (Suc n) m"
      have eq: "ins_op ?m' ?p = ins_op ?m ?p" "ins_mask0 ?m' ?p = ins_mask0 ?m ?p" "ins_arg0 ?m' ?p = ins_arg0 ?m ?p"
        "ins_mask1 ?m' ?p = ins_mask1 ?m ?p" "ins_arg1 ?m' ?p = ins_arg1 ?m ?p"
        by (rule ins_fields_local, erule keep)+
      have "sep ins (28 * n) out (10 * n)"
        by (rule sep_shrink [OF Suc.prems(3)]) simp_all
      then show ?thesis using Suc.IH Suc.prems(1,2) False unfolding eq by (simp del: of_nat_mult)
    qed
  qed simp
  have "inreg out (10 * n) x \<or> emit ins out n m x = m x" for x
    using emit_outside [of n out x ins m] assms(2) by auto
  then show ?thesis using fields by blast
qed

section \<open>Instances\<close>

lemma sample_names: "names_at sample_syms sample_rodata dasm_ops" "names_at sample_syms sample_rodata dasm_regs"
  by (simp_all add: names_at_def dasm_ops_def dasm_regs_def sample_literal_def sample_literals_def
      sample_rodata_def Let_def)

lemma get_reg_inverted_witness: "get_reg sample_syms sample_rodata (sample_literal ''sp'') = Some 0"
  using get_reg_inverted [OF sample_names(2), of "sample_literal ''sp''" "bytes_of ''sp''"] sample_names(2)
  by (simp add: names_at_def dasm_regs_def)

text \<open>A line whose first token is \<^verbatim>\<open>mov\<close>: its instruction at 0x200000, the token read from the literal.\<close>

lemma parse_op_inverted_witness:
  "\<exists>s'. parse_op sample_syms 0x200000
      (sample_state\<lparr>ram := store32 sample_rodata 0x200004 (sample_literal ''mov'')\<rparr>) = ret s'
    \<and> load8 (ram s') 0x200011 = 0"
proof -
  let ?m = "store32 sample_rodata 0x200004 (sample_literal ''mov'')"
  let ?s = "sample_state\<lparr>ram := ?m\<rparr>"
  have keep: "cstr_at ?m a cs" if "cstr_at sample_rodata a cs" "sep 0x200004 4 a (Suc (length cs))" for a cs
    by (rule cstr_at_frame [OF that(1)]) (simp add: c32.st_sep [OF that(2)])
  have lit: "\<forall>n \<in> set dasm_ops. sep 0x200004 4 (sample_literal n) (Suc (length n))
      \<and> sep 0xB8000 4000 (sample_literal n) (Suc (length n))"
    by (simp add: dasm_ops_def sample_literal_def sample_literals_def sep_simps)
  then have names: "names_at sample_syms ?m dasm_ops"
    using sample_names(1) by (auto simp: names_at_def intro!: keep)
  have off: "off_screen ?s (sample_literal n) (Suc (length n))" if "n \<in> set dasm_ops" for n
    using lit that by (simp add: off_screen_def frame_bytes_def)
  have mov: "''mov'' \<in> set dasm_ops" by (simp add: dasm_ops_def)
  have "ins_token ?m 0x200000 0 = sample_literal ''mov''" by (simp add: ins_token_def mem_simps)
  moreover have "cstr_at ?m (sample_literal ''mov'') (bytes_of ''mov'')"
    using names mov by (simp only: names_at_def sample_syms_simps)
  moreover have "off_screen ?s 0x200000 28" by (simp add: off_screen_def frame_bytes_def sep_simps)
  moreover have "length (bytes_of ''mov'') = 3" "bytes_of ''mov'' \<noteq> bytes_of ''hlt''" by simp_all
  ultimately show ?thesis
    using parse_op_inverted [of ?s "0x200000" "bytes_of ''mov''" sample_syms] names off off [OF mov] sample_screen
    by (simp, blast)
qed

lemma number_operand_witness:
  "arg_kind sample_syms 0x200000 1
     (sample_state\<lparr>ram := store8 (store32 sample_rodata 0x200008 0x300000) 0x300000 55\<rparr>) =
   ret (0, 7, sample_state\<lparr>ram := store8 (store32 sample_rodata 0x200008 0x300000) 0x300000 55\<rparr>)"
proof -
  let ?m = "store8 (store32 sample_rodata 0x200008 0x300000) 0x300000 55"
  let ?s = "sample_state\<lparr>ram := ?m\<rparr>"
  have tok: "ins_token ?m 0x200000 1 = 0x300000" by (simp add: ins_token_def mem_simps sep_simps)
  have "store32 sample_rodata 0x200008 0x300000 0x300001 = 0"
    by (simp add: c32.st_outside inreg_def sample_rodata_def sample_literals_def Let_def)
  then have "cstr_at ?m 0x300000 [55]" by (simp add: store8_apply)
  moreover have "itoa_chars 10 7 = [55]"
    by (simp add: itoa_chars_def digits_of.simps [of 10 7] digits_of.simps [of 10 0] itoa_digits_def)
  moreover have "cstr_at ?m (sample_literal ''0123456789'') (bytes_of ''0123456789'')"
  proof (rule cstr_at_frame)
    show "cstr_at sample_rodata (sample_literal ''0123456789'') (bytes_of ''0123456789'')"
      by (simp add: sample_literal_def sample_literals_def sample_rodata_def Let_def)
    show "?m x = sample_rodata x" if "inreg (sample_literal ''0123456789'') (Suc (length (bytes_of ''0123456789''))) x" for x
    proof -
      have "Suc (length (bytes_of ''0123456789'')) = 11" by simp
      moreover have "sample_literal ''0123456789'' = 0x107340"
        by (simp add: sample_literal_def sample_literals_def)
      ultimately have x: "inreg 0x107340 11 x" using that by (simp only:)
      show ?thesis by (simp add: c32.st_sep [OF _ x] c8.st_sep [OF _ x] sep_simps)
    qed
  qed
  then have "text_at sample_syms ?m ''0123456789''"
    by (simp add: text_at_def sample_literal_def sample_literals_def)
  ultimately show ?thesis
    using number_operand [of ?s "0x200000" 1 7 sample_syms] tok by simp
qed

text \<open>Two instructions; the second is \<^verbatim>\<open>mov r0 5\<close> as the fields of \<^verbatim>\<open>ins_t\<close> would hold it.\<close>

lemma emit_layout_witness:
  "ins_op (emit 0x200000 0x300000 2 (store16 (store8 (\<lambda>_. 0) 0x20002D 1) 0x200034 5)) 0x30000A = 1
   \<and> ins_arg1 (emit 0x200000 0x300000 2 (store16 (store8 (\<lambda>_. 0) 0x20002D 1) 0x200034 5)) 0x30000A = 5"
  using emit_layout [of 1 2 "0x200000" "0x300000" "store16 (store8 (\<lambda>_. 0) 0x20002D 1) 0x200034 5"]
  by (simp add: sep_simps mem_simps)

end
