(* ===== verification/Host_Spec.thy ===== *)
theory Host_Spec
  imports Host_Dasm Dasm_Spec
begin

text \<open>
  The host assembler against a reference: programs as abstract syntax, their text, and the
  instructions they stand for.
\<close>

section \<open>Texts on the heap\<close>

text \<open>Memory behind the last block is still zero.\<close>

definition fresh :: "host \<Rightarrow> bool" where
  "fresh h \<longleftrightarrow> (\<forall>x. brk h \<le> x \<longrightarrow> heap h x = 0)"

definition htext :: "host \<Rightarrow> nat \<Rightarrow> byte list \<Rightarrow> bool" where
  "htext h p cs \<longleftrightarrow> p + length cs < brk h \<and> (\<forall>i < length cs. heap h (p + i) = cs ! i) \<and> heap h (p + length cs) = 0"

text \<open>Allocating and filling new blocks keeps the old ones.\<close>

definition grows :: "host \<Rightarrow> host \<Rightarrow> bool" where
  "grows h h' \<longleftrightarrow> brk h \<le> brk h' \<and> fresh h' \<and> (\<forall>x < brk h. heap h' x = heap h x)"

lemma grows_refl: "fresh h \<Longrightarrow> grows h h"
  by (simp add: grows_def)

lemma grows_trans: "grows h h' \<Longrightarrow> grows h' h'' \<Longrightarrow> grows h h''"
  by (simp add: grows_def)

lemma grows_fresh: "grows h h' \<Longrightarrow> fresh h'"
  by (simp add: grows_def)

lemma grows_htext: "grows h h' \<Longrightarrow> htext h p cs \<Longrightarrow> htext h' p cs"
  by (simp add: grows_def htext_def)

lemma htext_nth: "htext h p cs \<Longrightarrow> i < length cs \<Longrightarrow> heap h (p + i) = cs ! i"
  by (simp add: htext_def)

lemma htext_drop: "htext h p cs \<Longrightarrow> n \<le> length cs \<Longrightarrow> htext h (p + n) (drop n cs)"
  by (simp add: htext_def add.assoc)

lemma htext_Cons: "htext h p (c # cs) \<Longrightarrow> heap h p = c \<and> htext h (Suc p) cs"
  using htext_drop [of h p "c # cs" 1] htext_nth [of h p "c # cs" 0] by simp

lemma htext_Nil: "htext h p [] \<Longrightarrow> heap h p = 0"
  by (simp add: htext_def)

lemma host_bytes_text: "htext h p cs \<Longrightarrow> k + n \<le> length cs \<Longrightarrow> host_bytes (p + k) n h = take n (drop k cs)"
  by (rule nth_equalityI) (simp_all add: host_bytes_def htext_def add.assoc)

lemma copy_text:
  assumes "fresh h" and "host_copy gap bs h = (p, h')"
  shows "htext h' p bs" and "grows h h'"
proof -
  have p: "p = brk h + gap (brk h) (length bs + 1)"
    and h': "h' = host_put (p + (length bs + 1)) [0] (host_put p bs (h\<lparr>brk := p + (length bs + 1)\<rparr>))"
    using assms(2) by (auto simp: host_copy_def host_malloc_def)
  show "htext h' p bs" using assms(1) p by (auto simp: htext_def h' host_put_def fresh_def)
  show "grows h h'" using assms(1) p by (auto simp: grows_def h' host_put_def fresh_def)
qed

lemma strlen_from_text: "htext h (p + k) cs \<Longrightarrow> 0 \<notin> set cs \<Longrightarrow> host_strlen_from (heap h) p k = Some (k + length cs)"
proof (induction cs arbitrary: k)
  case Nil
  then show ?case by (subst host_strlen_from.simps) (simp add: htext_Nil)
next
  case (Cons c cs)
  then show ?case using htext_Cons [OF Cons.prems(1)] Cons.IH [of "Suc k"] by (subst host_strlen_from.simps) simp
qed

lemma strlen_text: "htext h p cs \<Longrightarrow> 0 \<notin> set cs \<Longrightarrow> host_strlen (heap h) p = Some (length cs)"
  using strlen_from_text [of h p 0 cs] by (simp add: host_strlen_def)

lemma streq_text:
  assumes "htext h p cs" and "0 \<notin> set cs" and "0 \<notin> set ds"
  shows "host_streq (heap h) p ds \<longleftrightarrow> cs = ds"
  using assms
proof (induction ds arbitrary: p cs)
  case Nil
  then show ?case by (cases cs) (auto dest: htext_Cons htext_Nil)
next
  case (Cons d ds)
  then show ?case by (cases cs) (auto dest: htext_Cons htext_Nil)
qed

lemma index_text:
  assumes "htext h p (bytes_of (ns ! r))" and "0 \<notin> set (bytes_of (ns ! r))"
    and "\<forall>n \<in> set ns. 0 \<notin> set (bytes_of n)" and "distinct (map bytes_of ns)" and "r < length ns"
  shows "host_index (heap h) p k ns = Some (k + r)"
  using assms
proof (induction ns arbitrary: r k)
  case (Cons n ns)
  show ?case
  proof (cases r)
    case 0
    then show ?thesis using Cons.prems streq_text by simp
  next
    case (Suc j)
    then have "bytes_of (ns ! j) \<in> bytes_of ` set ns" using Cons.prems(5) by simp
    then have "bytes_of (ns ! j) \<noteq> bytes_of n" using Cons.prems(4) by auto
    then have "\<not> host_streq (heap h) p (bytes_of n)"
      using Cons.prems Suc streq_text [of h p "bytes_of (ns ! j)" "bytes_of n"] by simp
    moreover have "host_index (heap h) p (Suc k) ns = Some (Suc k + j)"
      by (rule Cons.IH) (use Cons.prems Suc in simp_all)
    ultimately show ?thesis using Suc by simp
  qed
qed simp

lemma tables:
  "\<forall>n \<in> set host_ops. 0 \<notin> set (bytes_of n)" "\<forall>n \<in> set host_regs. 0 \<notin> set (bytes_of n)"
  "distinct (map bytes_of host_ops)" "distinct (map bytes_of host_regs)"
  "length host_ops = 4" "length host_regs = 7"
  by (simp_all add: host_ops_def host_regs_def)

lemma get_reg_text:
  assumes "htext h p (bytes_of (host_regs ! r))" and "r < 7"
  shows "host_get_reg (heap h) p = int r"
proof -
  have "host_index (heap h) p 0 host_regs = Some r"
    using index_text [of h p host_regs r 0] assms tables by (simp add: nth_mem)
  then show ?thesis by (simp add: host_get_reg_def)
qed

section \<open>Numbers\<close>

definition dec_text :: "nat \<Rightarrow> byte list" where
  "dec_text n = (if n = 0 then [48] else itoa_chars 10 n)"

lemma digit_byte:
  assumes "d < 10"
  shows "48 \<le> itoa_digits ! d" "itoa_digits ! d \<le> 57" "uint (itoa_digits ! d) = 48 + int d"
proof -
  have "d = 0 \<or> d = 1 \<or> d = 2 \<or> d = 3 \<or> d = 4 \<or> d = 5 \<or> d = 6 \<or> d = 7 \<or> d = 8 \<or> d = 9"
    using assms by presburger
  then show "48 \<le> itoa_digits ! d" "itoa_digits ! d \<le> 57" "uint (itoa_digits ! d) = 48 + int d"
    by (elim disjE; simp add: itoa_digits_def)+
qed

lemma digits_text:
  assumes "htext h p cs" and "\<forall>c \<in> set cs. \<exists>d < 10. c = itoa_digits ! d"
  shows "host_digits (heap h) p r = Some (foldl (\<lambda>r c. r * 10 + (uint c - 48)) r cs)"
  using assms
proof (induction cs arbitrary: p r)
  case Nil
  then have "heap h p = 0" by (rule_tac htext_Nil)
  then show ?case by (subst host_digits.simps) simp
next
  case (Cons c cs)
  obtain d where "d < 10" "c = itoa_digits ! d" using Cons.prems(2) by auto
  then have "48 \<le> c" "c \<le> 57" using digit_byte by simp_all
  then show ?case
    using Cons.IH [of "Suc p"] Cons.prems htext_Cons [OF Cons.prems(1)] by (subst host_digits.simps) simp
qed

lemma dec_value_int:
  "foldl (\<lambda>r c. r * 10 + (uint c - 48)) 0 (itoa_chars 10 n) = int n"
proof (induction n rule: less_induct)
  case (less n)
  show ?case
  proof (cases "n = 0")
    case True
    then show ?thesis by (simp add: itoa_chars_def digits_of.simps)
  next
    case False
    then have "itoa_chars 10 n = itoa_chars 10 (n div 10) @ [itoa_digits ! (n mod 10)]"
      by (simp add: itoa_chars_def digits_of.simps [of 10 n])
    then show ?thesis
      using less [of "n div 10"] False digit_byte(3) [of "n mod 10"] by (simp add: zdiv_int zmod_int)
  qed
qed

lemma dec_text_digits: "\<forall>c \<in> set (dec_text n). \<exists>d < 10. c = itoa_digits ! d"
proof
  fix c
  assume "c \<in> set (dec_text n)"
  moreover have "itoa_digits ! 0 = 48" by (simp add: itoa_digits_def)
  ultimately show "\<exists>d < 10. c = itoa_digits ! d"
    using digits_of_less [of _ 10 n] unfolding dec_text_def itoa_chars_def
    by (auto split: if_splits intro: exI [of _ "0 :: nat"])
qed

lemma dec_text_nonempty: "dec_text n \<noteq> []"
  using digits_of_nonempty [of n 10] by (simp add: dec_text_def itoa_chars_def)

lemma atoi_text:
  assumes "htext h p (dec_text n)"
  shows "host_atoi (heap h) p = Some (int n)"
proof -
  obtain c cs where c: "dec_text n = c # cs" using dec_text_nonempty by (cases "dec_text n") auto
  then obtain d where "d < 10" "c = itoa_digits ! d" using dec_text_digits [of n] by auto
  then have g: "48 \<le> c" "c \<le> 57" using digit_byte by simp_all
  have p: "heap h p = c" using htext_Cons assms c by metis
  have space: "\<not> (c = 32 \<or> 9 \<le> c \<and> c \<le> 13)" and sign: "c \<noteq> 43" "c \<noteq> 45"
    using g by (auto simp: word_le_nat_alt)
  have "host_skip (heap h) p = Some p" by (subst host_skip.simps) (simp only: p space if_False)
  moreover have "host_digits (heap h) p 0 = Some (int n)"
    using digits_text [OF assms dec_text_digits, of 0] dec_value_int [of n] by (simp add: dec_text_def split: if_splits)
  ultimately show ?thesis using sign by (simp add: host_atoi_def p)
qed

section \<open>Operands\<close>

datatype h_operand = H_Const nat | H_Reg nat | H_Cell nat | H_At nat

fun operand_text :: "h_operand \<Rightarrow> byte list" where
  "operand_text (H_Const n) = dec_text n"
| "operand_text (H_Reg r) = bytes_of (host_regs ! r)"
| "operand_text (H_Cell n) = 91 # dec_text n @ [93]"
| "operand_text (H_At r) = 91 # bytes_of (host_regs ! r) @ [93]"

fun operand_ok :: "h_operand \<Rightarrow> bool" where
  "operand_ok (H_Const n) \<longleftrightarrow> n < 2147483648"
| "operand_ok (H_Reg r) \<longleftrightarrow> r < 7"
| "operand_ok (H_Cell n) \<longleftrightarrow> n < 2147483648"
| "operand_ok (H_At r) \<longleftrightarrow> r < 7"

fun operand_code :: "h_operand \<Rightarrow> byte \<times> 16 word" where
  "operand_code (H_Const n) = (0, of_nat n)"
| "operand_code (H_Reg r) = (1, of_nat r)"
| "operand_code (H_Cell n) = (2, of_nat n)"
| "operand_code (H_At r) = (3, of_nat r)"

lemma reg_chars:
  assumes "r < 7"
  obtains a b where "bytes_of (host_regs ! r) = [a, b]" and "host_strchr ''risbp'' a"
    and "\<not> host_strchr ''0123456789'' a" and "a \<noteq> 91" and "a \<noteq> 0" "a \<noteq> 32" "a \<noteq> 10" and "b \<noteq> 0" "b \<noteq> 32" "b \<noteq> 10"
proof -
  have "r = 0 \<or> r = 1 \<or> r = 2 \<or> r = 3 \<or> r = 4 \<or> r = 5 \<or> r = 6" using assms by presburger
  then have "\<exists>a b. bytes_of (host_regs ! r) = [a, b] \<and> host_strchr ''risbp'' a \<and> \<not> host_strchr ''0123456789'' a
    \<and> a \<noteq> 91 \<and> a \<noteq> 0 \<and> a \<noteq> 32 \<and> a \<noteq> 10 \<and> b \<noteq> 0 \<and> b \<noteq> 32 \<and> b \<noteq> 10"
    by (elim disjE) (simp_all add: host_regs_def host_strchr_def)
  then show ?thesis using that by metis
qed

lemma digit_chars:
  assumes "d < 10"
  shows "host_strchr ''0123456789'' (itoa_digits ! d)" "\<not> host_strchr ''risbp'' (itoa_digits ! d)"
    "itoa_digits ! d \<notin> {0, 10, 32, 35, 91}"
proof -
  have "d = 0 \<or> d = 1 \<or> d = 2 \<or> d = 3 \<or> d = 4 \<or> d = 5 \<or> d = 6 \<or> d = 7 \<or> d = 8 \<or> d = 9"
    using assms by presburger
  then show "host_strchr ''0123456789'' (itoa_digits ! d)" "\<not> host_strchr ''risbp'' (itoa_digits ! d)"
    "itoa_digits ! d \<notin> {0, 10, 32, 35, 91}"
    by (elim disjE; simp add: itoa_digits_def host_strchr_def)+
qed

lemma bracket_chars: "\<not> host_strchr ''0123456789'' 91" "\<not> host_strchr ''risbp'' 91"
  by (simp_all add: host_strchr_def)

lemma dec_text_head:
  obtains c cs where "dec_text n = c # cs" and "host_strchr ''0123456789'' c" and "\<not> host_strchr ''risbp'' c" and "c \<noteq> 91"
proof -
  obtain c cs where c: "dec_text n = c # cs" using dec_text_nonempty by (cases "dec_text n") auto
  then obtain d where "d < 10" "c = itoa_digits ! d" using dec_text_digits [of n] by auto
  then show ?thesis using that c digit_chars [of d] by simp
qed

lemma register_text:
  assumes "fresh h" and "host_bytes p 2 h = bytes_of (host_regs ! r)" and "r < 7"
  shows "\<exists>h'. host_register gap p h = (of_nat r, h') \<and> grows h h'"
proof -
  obtain q h' where q: "host_copy gap (bytes_of (host_regs ! r)) h = (q, h')" by (cases "host_copy gap (bytes_of (host_regs ! r)) h")
  note c = copy_text [OF assms(1) q]
  show ?thesis using get_reg_text [OF c(1) assms(3)] c(2) q by (simp add: host_register_def assms(2))
qed

lemma pointer_text:
  assumes "fresh h" and "htext h tok (91 # dec_text n @ [93])"
  shows "\<exists>h'. host_pointer gap tok h = Some (of_nat n, h') \<and> grows h h'"
proof -
  let ?cs = "91 # dec_text n @ [93]" and ?k = "length (dec_text n)"
  let ?val = "brk h + gap (brk h) (?k + 1)"
  let ?h = "h\<lparr>brk := ?val + (?k + 1)\<rparr>"
  let ?h' = "host_put ?val (dec_text n) ?h"
  have nul: "0 \<notin> set ?cs" using dec_text_digits [of n] digit_chars(3) by force
  have len: "host_strlen (heap h) tok = Some (?k + 2)" using strlen_text [OF assms(2) nul] by simp
  have "htext ?h tok ?cs" using assms(2) by (simp add: htext_def)
  then have bytes: "host_bytes (tok + 1) ?k ?h = dec_text n" using host_bytes_text [of ?h tok ?cs 1 ?k] by simp
  have t: "htext ?h' ?val (dec_text n)" and g: "grows h ?h'"
    using assms(1) by (auto simp: htext_def grows_def host_put_def fresh_def)
  have "host_pointer gap tok h = Some (word_of_int (int n), ?h')"
    using atoi_text [OF t] bytes by (simp add: host_pointer_def len host_malloc_def Let_def)
  then show ?thesis using g by simp
qed

lemma arg_kind_text:
  assumes "fresh h" and "htext h tok (operand_text x)" and "operand_ok x"
  shows "\<exists>h'. host_arg_kind gap tok h = Some (fst (operand_code x), snd (operand_code x), h') \<and> grows h h'"
proof (cases x)
  case (H_Const n)
  obtain c cs where c: "dec_text n = c # cs" "host_strchr ''0123456789'' c" "c \<noteq> 91" using dec_text_head .
  have "heap h tok = c" using htext_Cons assms(2) H_Const c(1) by (metis operand_text.simps(1))
  moreover have "host_atoi (heap h) tok = Some (int n)" using atoi_text assms(2) H_Const by simp
  ultimately show ?thesis using c grows_refl [OF assms(1)] H_Const by (simp add: host_arg_kind_def)
next
  case (H_Reg r)
  have r: "r < 7" "htext h tok (bytes_of (host_regs ! r))" using assms H_Reg by simp_all
  from reg_chars [OF r(1)] obtain a b where a: "bytes_of (host_regs ! r) = [a, b]" "host_strchr ''risbp'' a"
    "\<not> host_strchr ''0123456789'' a" "a \<noteq> 91" by metis
  have "heap h tok = a" using htext_Cons r(2) a(1) by metis
  moreover have "host_bytes tok 2 h = bytes_of (host_regs ! r)"
    using host_bytes_text [OF r(2), of 0 2] a(1) by simp
  ultimately show ?thesis using register_text [OF assms(1) _ r(1)] a H_Reg by (auto simp: host_arg_kind_def)
next
  case (H_Cell n)
  obtain c cs where c: "dec_text n = c # cs" "host_strchr ''0123456789'' c" "\<not> host_strchr ''risbp'' c" using dec_text_head .
  have t: "htext h tok (91 # dec_text n @ [93])" using assms(2) H_Cell by simp
  then have "heap h tok = 91" "htext h (tok + 1) (c # cs @ [93])" using htext_Cons c(1) by fastforce+
  then have "heap h tok = 91" "heap h (tok + 1) = c" using htext_Cons by blast+
  then show ?thesis using pointer_text [OF assms(1) t] c bracket_chars H_Cell by (auto simp: host_arg_kind_def)
next
  case (H_At r)
  have r: "r < 7" "htext h tok (91 # bytes_of (host_regs ! r) @ [93])" using assms H_At by simp_all
  from reg_chars [OF r(1)] obtain a b where a: "bytes_of (host_regs ! r) = [a, b]" "host_strchr ''risbp'' a" by metis
  have "heap h tok = 91" "htext h (tok + 1) ([a, b] @ [93])" using htext_Cons r(2) a(1) by fastforce+
  then have "heap h tok = 91" "heap h (tok + 1) = a" using htext_Cons by fastforce+
  moreover have "host_bytes (tok + 1) 2 h = bytes_of (host_regs ! r)"
    using host_bytes_text [OF r(2), of 1 2] a(1) by simp
  ultimately show ?thesis using register_text [OF assms(1) _ r(1)] a H_At by (auto simp: host_arg_kind_def)
qed

section \<open>Lines\<close>

fun join :: "byte \<Rightarrow> byte list list \<Rightarrow> byte list" where
  "join c [] = []"
| "join c [x] = x"
| "join c (x # y # ys) = x @ c # join c (y # ys)"

definition plain :: "byte set \<Rightarrow> byte list \<Rightarrow> bool" where
  "plain cs w \<longleftrightarrow> w \<noteq> [] \<and> set w \<inter> cs = {}"

lemma set_join: "set (join c ws) \<subseteq> insert c (\<Union> (set ` set ws))"
  by (induction c ws rule: join.induct) auto

text \<open>\<open>token_does gap t w f\<close>: the \<open>t\<close>th token of a line, when it is \<open>w\<close>, changes the instruction by \<open>f\<close>.\<close>

definition token_does :: "gap \<Rightarrow> nat \<Rightarrow> byte list \<Rightarrow> (host_out \<Rightarrow> host_out) \<Rightarrow> bool" where
  "token_does gap t w f \<longleftrightarrow> (\<forall>ins h s. fresh h \<and> length (h_tokens ins) = 3 \<and> host_bytes (h_raw ins + s) (length w) h = w \<longrightarrow>
     (\<exists>ins' h'. host_parse_token gap (s + length w) (length w) t ins h = Some (ins', h') \<and> grows h h'
        \<and> host_emit ins' = f (host_emit ins) \<and> h_raw ins' = h_raw ins \<and> length (h_tokens ins') = 3))"

fun tokens_do :: "gap \<Rightarrow> nat \<Rightarrow> byte list list \<Rightarrow> (host_out \<Rightarrow> host_out) list \<Rightarrow> bool" where
  "tokens_do gap t [] [] = True"
| "tokens_do gap t (w # ws) (f # fs) \<longleftrightarrow> token_does gap t w f \<and> tokens_do gap (Suc t) ws fs"
| "tokens_do gap t _ _ = False"

lemma scan_token:
  assumes "htext h (h_raw ins) (pre @ w @ tail)" and "plain {0, 32} w" and "j \<le> length w" and "len = length (pre @ w @ tail)"
  shows "host_parse_from gap len (length pre + j) j t ins h = host_parse_from gap len (length pre + length w) (length w) t ins h"
  using assms(3)
proof (induction j rule: inc_induct)
  case (step j)
  have "heap h (h_raw ins + (length pre + j)) = w ! j"
    using htext_nth [OF assms(1), of "length pre + j"] step.hyps by (simp add: nth_append add.assoc)
  moreover have "w ! j \<in> set w" using step.hyps by simp
  then have "w ! j \<noteq> 0" "w ! j \<noteq> 32" using assms(2) by (auto simp: plain_def)
  ultimately show ?case using step assms(4) by (subst host_parse_from.simps) (simp add: add.assoc)
qed simp

lemma parse_tokens:
  assumes "ws \<noteq> []" and "tokens_do gap t ws fs" and "\<forall>w \<in> set ws. plain {0, 32} w" and "fresh h"
    and "htext h (h_raw ins) (pre @ join 32 ws)" and "length (h_tokens ins) = 3" and "j \<le> 1"
  shows "\<exists>ins' h'. host_parse_from gap (length (pre @ join 32 ws)) (length pre + j) j t ins h = Some (ins', h')
    \<and> grows h h' \<and> host_emit ins' = fold (\<lambda>f. f) fs (host_emit ins)"
  using assms
proof (induction ws arbitrary: t fs pre ins h j)
  case (Cons w ws)
  let ?line = "pre @ join 32 (w # ws)" and ?i = "length pre + length w"
  obtain f fs' where fs: "fs = f # fs'" "token_does gap t w f" "tokens_do gap (Suc t) ws fs'"
    using Cons.prems(2) by (cases fs) auto
  have w: "plain {0, 32} w" using Cons.prems(3) by simp
  then have "1 \<le> length w" by (cases w) (simp_all add: plain_def)
  then have j: "j \<le> length w" using Cons.prems(7) by (rule le_trans [rotated])
  obtain tail where line: "?line = pre @ w @ tail" and tail: "ws = [] \<Longrightarrow> tail = []" "ws \<noteq> [] \<Longrightarrow> tail = 32 # join 32 ws"
    by (cases ws) auto
  have ht: "htext h (h_raw ins) (pre @ w @ tail)" using Cons.prems(5) unfolding line .
  note scan = scan_token [OF ht w j refl, where gap = gap and t = t]
  have "host_bytes (h_raw ins + length pre) (length w) h = w"
    using host_bytes_text [OF ht, of "length pre" "length w"] by simp
  then obtain ins' h' where tok: "host_parse_token gap ?i (length w) t ins h = Some (ins', h')" "grows h h'"
    "host_emit ins' = f (host_emit ins)" "h_raw ins' = h_raw ins" "length (h_tokens ins') = 3"
    using fs(2) Cons.prems(4,6) unfolding token_does_def by blast
  have c: "heap h (h_raw ins + ?i) = 32 \<or> heap h (h_raw ins + ?i) = 0"
  proof (cases "ws = []")
    case True
    then show ?thesis using ht tail by (simp add: htext_def add.assoc)
  next
    case False
    then show ?thesis using htext_nth [OF ht, of ?i] tail by (simp add: nth_append add.assoc)
  qed
  have step: "host_parse_from gap (length ?line) (length pre + j) j t ins h =
      host_parse_from gap (length ?line) (?i + 2) 1 (t + 1) ins' h'"
    unfolding line scan using c by (subst host_parse_from.simps) (simp add: tok(1))
  show ?case
  proof (cases "ws = []")
    case True
    then have "fs' = []" using fs(3) by (cases fs') auto
    moreover have "host_parse_from gap (length ?line) (?i + 2) 1 (t + 1) ins' h' = Some (ins', h')"
      using True by (subst host_parse_from.simps) simp
    ultimately show ?thesis using step tok fs(1) by simp
  next
    case False
    have l2: "?line = (pre @ w @ [32]) @ join 32 ws" using line tail False by simp
    have "htext h' (h_raw ins') ((pre @ w @ [32]) @ join 32 ws)"
      using grows_htext [OF tok(2) Cons.prems(5)] unfolding l2 tok(4) .
    from Cons.IH [OF False fs(3) _ grows_fresh [OF tok(2)] this tok(5), of 1] Cons.prems(3)
    obtain ins'' h'' where "host_parse_from gap (length ?line) (length (pre @ w @ [32]) + 1) 1 (Suc t) ins' h' = Some (ins'', h'')"
      "grows h' h''" "host_emit ins'' = fold (\<lambda>f. f) fs' (host_emit ins')" unfolding l2 by auto
    then show ?thesis using step grows_trans [OF tok(2)] fs(1) tok(3) by simp
  qed
qed simp

text \<open>What the tokens of an instruction do.\<close>

definition put_op :: "nat \<Rightarrow> host_out \<Rightarrow> host_out" where
  "put_op k e = e\<lparr>o_op_mask := 0, o_op := of_nat k\<rparr>"

definition put_operand :: "nat \<Rightarrow> h_operand \<Rightarrow> host_out \<Rightarrow> host_out" where
  "put_operand t x e =
     (if t = 1 then e\<lparr>o_m0 := fst (operand_code x), o_a0 := snd (operand_code x)\<rparr>
      else e\<lparr>o_m1 := fst (operand_code x), o_a1 := snd (operand_code x)\<rparr>)"

lemma op_token:
  assumes "k < 4"
  shows "token_does gap 0 (bytes_of (host_ops ! k)) (put_op k)"
  unfolding token_does_def
proof (intro allI impI)
  fix ins :: host_ins and h s
  let ?w = "bytes_of (host_ops ! k)"
  assume a: "fresh h \<and> length (h_tokens ins) = 3 \<and> host_bytes (h_raw ins + s) (length ?w) h = ?w"
  obtain p h' where p: "host_copy gap ?w h = (p, h')" by (cases "host_copy gap ?w h")
  note c = copy_text [OF _ p]
  let ?ins = "ins\<lparr>h_tokens := (h_tokens ins)[0 := p]\<rparr>"
  have "htext h' (h_tokens ?ins ! 0) ?w" using c(1) a by simp
  then have "host_index (heap h') (h_tokens ?ins ! 0) 0 host_ops = Some k"
    using index_text [of h' _ host_ops k 0] assms tables by (simp add: nth_mem)
  then have "host_parse_op (heap h') ?ins = ?ins\<lparr>h_op := of_nat k, h_op_mask := 0\<rparr>"
    by (simp add: host_parse_op_def)
  then have "host_parse_token gap (s + length ?w) (length ?w) 0 ins h = Some (?ins\<lparr>h_op := of_nat k, h_op_mask := 0\<rparr>, h')"
    using a p by (simp add: host_parse_token_def)
  then show "\<exists>ins' h'. host_parse_token gap (s + length ?w) (length ?w) 0 ins h = Some (ins', h') \<and> grows h h'
      \<and> host_emit ins' = put_op k (host_emit ins) \<and> h_raw ins' = h_raw ins \<and> length (h_tokens ins') = 3"
    using a c(2) by (simp add: host_emit_def put_op_def)
qed

lemma operand_token:
  assumes "operand_ok x" and "t = 1 \<or> t = 2"
  shows "token_does gap t (operand_text x) (put_operand t x)"
  unfolding token_does_def
proof (intro allI impI)
  fix ins :: host_ins and h s
  let ?w = "operand_text x"
  assume a: "fresh h \<and> length (h_tokens ins) = 3 \<and> host_bytes (h_raw ins + s) (length ?w) h = ?w"
  obtain p h1 where p: "host_copy gap ?w h = (p, h1)" by (cases "host_copy gap ?w h")
  have c: "htext h1 p ?w" "grows h h1" using copy_text [OF _ p] a by simp_all
  let ?ins = "ins\<lparr>h_tokens := (h_tokens ins)[t := p]\<rparr>"
  have tok: "h_tokens ?ins ! t = p" using a assms(2) by auto
  obtain h2 where h2: "host_arg_kind gap p h1 = Some (fst (operand_code x), snd (operand_code x), h2)" "grows h1 h2"
    using arg_kind_text [OF grows_fresh [OF c(2)] c(1) assms(1)] by blast
  have "host_parse_token gap (s + length ?w) (length ?w) t ins h = host_parse_arg gap t ?ins h1"
    using a p assms(2) by (auto simp: host_parse_token_def)
  then show "\<exists>ins' h'. host_parse_token gap (s + length ?w) (length ?w) t ins h = Some (ins', h') \<and> grows h h'
      \<and> host_emit ins' = put_operand t x (host_emit ins) \<and> h_raw ins' = h_raw ins \<and> length (h_tokens ins') = 3"
    using a assms(2) tok h2 grows_trans [OF c(2) h2(2)]
    by (auto simp: host_parse_arg_def host_emit_def put_operand_def)
qed

text \<open>Instructions: the number of an operation and at most two operands.\<close>

type_synonym h_instr = "nat \<times> h_operand list"

fun instr_text :: "h_instr \<Rightarrow> byte list" where
  "instr_text (k, xs) = join 32 (bytes_of (host_ops ! k) # map operand_text xs)"

fun instr_ok :: "h_instr \<Rightarrow> bool" where
  "instr_ok (k, xs) \<longleftrightarrow> k < 4 \<and> length xs \<le> 2 \<and> list_all operand_ok xs"

fun instr_code :: "h_instr \<Rightarrow> host_out" where
  "instr_code (k, xs) =
     (let c = (\<lambda>i. if i < length xs then operand_code (xs ! i) else (0, 0))
      in \<lparr>o_op_mask = 0, o_op = of_nat k, o_m0 = fst (c 0), o_a0 = snd (c 0), o_m1 = fst (c 1), o_a1 = snd (c 1)\<rparr>)"

lemma plain_op: "k < 4 \<Longrightarrow> plain {0, 10, 32} (bytes_of (host_ops ! k)) \<and> hd (bytes_of (host_ops ! k)) \<noteq> 35"
proof -
  assume "k < 4"
  then have "k = 0 \<or> k = 1 \<or> k = 2 \<or> k = 3" by presburger
  then show ?thesis by (elim disjE) (simp_all add: host_ops_def plain_def)
qed

lemma plain_dec: "plain {0, 10, 32} (dec_text n)"
proof -
  have "c \<notin> {0, 10, 32}" if "c \<in> set (dec_text n)" for c
    using that dec_text_digits [of n] digit_chars(3) by fastforce
  then show ?thesis using dec_text_nonempty [of n] by (auto simp: plain_def)
qed

lemma plain_reg: "r < 7 \<Longrightarrow> plain {0, 10, 32} (bytes_of (host_regs ! r))"
  by (erule reg_chars) (auto simp: plain_def)

lemma plain_operand: "operand_ok x \<Longrightarrow> plain {0, 10, 32} (operand_text x)"
  using plain_dec plain_reg by (cases x) (auto simp: plain_def)

lemma parse_line:
  assumes "instr_ok c" and "fresh h" and "htext h (h_raw ins) (instr_text c)" and "length (h_tokens ins) = 3"
    and "host_emit ins = host_emit host_ins0"
  shows "\<exists>ins' h'. host_parse gap ins h = Some (ins', h') \<and> grows h h' \<and> host_emit ins' = instr_code c"
proof -
  obtain k xs where c: "c = (k, xs)" by (cases c)
  let ?ws = "bytes_of (host_ops ! k) # map operand_text xs"
  have ok: "k < 4" "length xs \<le> 2" "\<forall>x \<in> set xs. operand_ok x" using assms(1) c by (simp_all add: list_all_iff)
  have plain: "\<forall>w \<in> set ?ws. plain {0, 10, 32} w" using plain_op plain_operand ok by auto
  then have w: "\<forall>w \<in> set ?ws. plain {0, 32} w" by (auto simp: plain_def)
  have "0 \<notin> set (instr_text c)" using set_join [of 32 ?ws] plain c by (auto simp: plain_def)
  then have len: "host_strlen (heap h) (h_raw ins) = Some (length (instr_text c))" by (rule strlen_text [OF assms(3)])
  have "\<exists>fs. tokens_do gap 0 ?ws fs \<and> fold (\<lambda>f. f) fs (host_emit host_ins0) = instr_code c"
  proof -
    note d = op_token [OF ok(1)] operand_token
    have "xs = [] \<or> (\<exists>x. xs = [x]) \<or> (\<exists>x y. xs = [x, y])"
      using ok(2) by (cases xs; cases "tl xs") auto
    then consider "xs = []" | x where "xs = [x]" | x y where "xs = [x, y]" by blast
    then show ?thesis
    proof cases
      case 1
      then show ?thesis using d c
        by (intro exI [of _ "[put_op k]"]) (simp add: put_op_def host_emit_def host_ins0_def)
    next
      case (2 x)
      then show ?thesis using d c ok
        by (intro exI [of _ "[put_op k, put_operand 1 x]"]) (simp add: put_op_def put_operand_def host_emit_def host_ins0_def)
    next
      case (3 x y)
      then show ?thesis using d c ok
        by (intro exI [of _ "[put_op k, put_operand 1 x, put_operand 2 y]"])
          (simp add: put_op_def put_operand_def host_emit_def host_ins0_def numeral_2_eq_2)
    qed
  qed
  then obtain fs where fs: "tokens_do gap 0 ?ws fs" "fold (\<lambda>f. f) fs (host_emit host_ins0) = instr_code c" by blast
  have "htext h (h_raw ins) ([] @ join 32 ?ws)" using assms(3) c by simp
  from parse_tokens [OF _ fs(1) w assms(2) this assms(4), of 0] show ?thesis
    using fs(2) assms(5) len c by (auto simp: host_parse_def)
qed

section \<open>Programs\<close>

definition program_text :: "h_instr list \<Rightarrow> byte list" where
  "program_text cs = join 10 (map instr_text cs)"

lemma instr_text_plain:
  assumes "instr_ok c"
  shows "plain {0, 10} (instr_text c)" and "hd (instr_text c) \<noteq> 35"
proof -
  obtain k xs where c: "c = (k, xs)" by (cases c)
  let ?op = "bytes_of (host_ops ! k)"
  let ?ws = "?op # map operand_text xs"
  have k: "k < 4" and xs: "\<forall>x \<in> set xs. operand_ok x" using assms c by (simp_all add: list_all_iff)
  have op: "plain {0, 10, 32} ?op" "hd ?op \<noteq> 35" using plain_op [OF k] by simp_all
  obtain tail where t: "instr_text c = ?op @ tail" using c by (cases xs) auto
  have "\<forall>w \<in> set ?ws. plain {0, 10, 32} w" using op plain_operand xs by auto
  then have "set (instr_text c) \<inter> {0, 10} = {}" using set_join [of 32 ?ws] c by (auto simp: plain_def)
  then show "plain {0, 10} (instr_text c)" using op(1) t by (auto simp: plain_def)
  show "hd (instr_text c) \<noteq> 35" using op t by (simp add: plain_def)
qed

lemma scan_line:
  assumes "code = pre @ w @ tail" and "plain {0, 10} w" and "j \<le> length w"
  shows "host_lines gap code (length pre + j) j cur inss h = host_lines gap code (length pre + length w) (length w) cur inss h"
  using assms(3)
proof (induction j rule: inc_induct)
  case (step j)
  have "code_at code (length pre + j) = w ! j" using step.hyps assms(1) by (simp add: code_at_def nth_append)
  moreover have "w ! j \<in> set w" using step.hyps by simp
  then have "w ! j \<noteq> 0" "w ! j \<noteq> 10" using assms(2) by (auto simp: plain_def)
  ultimately show ?case using step assms(1) by (subst host_lines.simps) (simp add: add.assoc)
qed simp

lemma assemble_lines:
  assumes "cs \<noteq> []" and "\<forall>c \<in> set cs. instr_ok c" and "fresh h" and "cur + length cs \<le> length inss"
    and "\<forall>i. cur \<le> i \<and> i < length inss \<longrightarrow> inss ! i = host_ins0" and "j \<le> 1" and "code = pre @ program_text cs"
  shows "\<exists>inss' h'. host_lines gap code (length pre + j) j cur inss h = Some (cur + length cs, inss', h')
    \<and> length inss' = length inss \<and> take cur inss' = take cur inss
    \<and> map host_emit (take (length cs) (drop cur inss')) = map instr_code cs"
  using assms
proof (induction cs arbitrary: pre inss h j cur)
  case (Cons c cs)
  let ?w = "instr_text c" and ?i = "length pre + length (instr_text c)"
  have ok: "instr_ok c" and w: "plain {0, 10} ?w" "hd ?w \<noteq> 35" using Cons.prems(2) instr_text_plain by simp_all
  then have "?w \<noteq> []" by (simp add: plain_def)
  then have j: "j \<le> length ?w" using Cons.prems(6) by (cases ?w) auto
  obtain tail where code: "code = pre @ ?w @ tail" and tail: "cs = [] \<Longrightarrow> tail = []" "cs \<noteq> [] \<Longrightarrow> tail = 10 # program_text cs"
    using Cons.prems(7) by (cases cs) (auto simp: program_text_def)
  have stop: "code_at code ?i = 10 \<or> code_at code ?i = 0"
    using code tail by (cases "cs = []") (simp_all add: code_at_def nth_append)
  have "code_at code (?i - length ?w) = hd ?w" using code \<open>?w \<noteq> []\<close> by (simp add: code_at_def nth_append hd_conv_nth)
  then have hash: "code_at code (?i - length ?w) \<noteq> 35" using w(2) by simp
  have bytes: "map (\<lambda>i. code_at code (?i - length ?w + i)) [0..<length ?w] = ?w"
    by (rule nth_equalityI) (simp_all add: code code_at_def nth_append)
  obtain p h1 where p: "host_copy gap ?w h = (p, h1)" by (cases "host_copy gap ?w h")
  note cp = copy_text [OF Cons.prems(3) p]
  have cur: "cur < length inss" "inss ! cur = host_ins0" using Cons.prems(4,5) by simp_all
  obtain ins h2 where ins: "host_parse gap (host_ins0\<lparr>h_raw := p\<rparr>) h1 = Some (ins, h2)" "grows h1 h2" "host_emit ins = instr_code c"
    using parse_line [OF ok grows_fresh [OF cp(2)], of "host_ins0\<lparr>h_raw := p\<rparr>" gap] cp(1)
    by (auto simp: host_ins0_def host_emit_def)
  have step: "host_lines gap code (length pre + j) j cur inss h = host_lines gap code (?i + 2) 1 (cur + 1) (inss[cur := ins]) h2"
    unfolding scan_line [OF code w(1) j] using stop hash cur p ins(1) bytes code
    by (subst host_lines.simps) (simp add: host_line_def)
  show ?case
  proof (cases "cs = []")
    case True
    then have "host_lines gap code (?i + 2) 1 (cur + 1) (inss[cur := ins]) h2 = Some (cur + 1, inss[cur := ins], h2)"
      using code tail by (subst host_lines.simps) simp
    then show ?thesis using step True ins(3) cur(1) by (simp add: take_Suc_conv_app_nth hd_drop_conv_nth)
  next
    case False
    have code2: "code = (pre @ ?w @ [10]) @ program_text cs" using code tail False by simp
    have "\<forall>i. Suc cur \<le> i \<and> i < length (inss[cur := ins]) \<longrightarrow> (inss[cur := ins]) ! i = host_ins0"
      using Cons.prems(5) by simp
    from Cons.IH [OF False _ grows_fresh [OF ins(2)] _ this order_refl code2] Cons.prems(2,4)
    obtain inss' h' where r: "host_lines gap code (?i + 2) 1 (cur + 1) (inss[cur := ins]) h2 = Some (Suc cur + length cs, inss', h')"
      "length inss' = length inss" "take (Suc cur) inss' = take (Suc cur) (inss[cur := ins])"
      "map host_emit (take (length cs) (drop (Suc cur) inss')) = map instr_code cs" by auto
    have "inss' ! cur = take (Suc cur) inss' ! cur" by simp
    also have "\<dots> = ins" unfolding r(3) using cur(1) by simp
    finally have at: "inss' ! cur = ins" .
    have "take cur inss' = take cur (take (Suc cur) inss')" by simp
    also have "\<dots> = take cur inss" unfolding r(3) by simp
    finally have before: "take cur inss' = take cur inss" .
    have "drop cur inss' = ins # drop (Suc cur) inss'" using at cur(1) r(2) Cons_nth_drop_Suc by metis
    then show ?thesis using step r before ins(3) by simp
  qed
qed simp

lemma assembled:
  assumes "cs \<noteq> []" and "length cs \<le> 255" and "\<forall>c \<in> set cs. instr_ok c" and "fresh h"
  shows "map_option fst (host_assemble gap (program_text cs) h) = Some (map instr_code cs)"
proof -
  have "\<exists>inss' h'. host_lines gap (program_text cs) (length ([] :: byte list) + 0) 0 0 (replicate 255 host_ins0) h
      = Some (0 + length cs, inss', h')
    \<and> length inss' = length (replicate 255 host_ins0) \<and> take 0 inss' = take 0 (replicate 255 host_ins0)
    \<and> map host_emit (take (length cs) (drop 0 inss')) = map instr_code cs"
    by (rule assemble_lines) (use assms in simp_all)
  then show ?thesis by (auto simp: host_assemble_def)
qed

text \<open>C2. On a heap that starts out zero, and wherever \<^verbatim>\<open>malloc\<close> puts the blocks, the host
  assembler turns the text of a program of at most 255 well-formed instructions into exactly the
  instructions the text stands for.\<close>

theorem host_assembles:
  assumes "cs \<noteq> []" and "length cs \<le> 255" and "\<forall>c \<in> set cs. instr_ok c" and "fresh h"
  shows "map_option fst (host_assemble gap (program_text cs) h) = Some (map instr_code cs)"
  using assms by (rule assembled)

text \<open>The program it is built with; the six instructions of the file.\<close>

definition host_instrs :: "h_instr list" where
  "host_instrs = [(1, [H_Reg 0, H_Const 10]), (1, [H_Reg 5, H_Cell 12]), (2, [H_Reg 0]), (3, [H_Reg 1]),
     (1, [H_At 2, H_Reg 1]), (0, [])]"

lemma host_code_text: "bytes_of host_code = program_text host_instrs"
proof -
  have d: "digits_of 10 10 = [1, 0]" "digits_of 10 12 = [1, 2]" by (simp_all add: digits_of.simps)
  show ?thesis
    by (simp add: host_code_def program_text_def host_instrs_def host_ops_def host_regs_def dec_text_def
        itoa_chars_def d itoa_digits_def)
qed

lemma host_assembles_witness:
  "map_option fst (host_assemble (\<lambda>_ _. 16) (bytes_of host_code) \<lparr>heap = (\<lambda>_. 0), brk = 0\<rparr>)
   = Some [\<lparr>o_op_mask = 0, o_op = 1, o_m0 = 1, o_a0 = 0, o_m1 = 0, o_a1 = 10\<rparr>,
           \<lparr>o_op_mask = 0, o_op = 1, o_m0 = 1, o_a0 = 5, o_m1 = 2, o_a1 = 12\<rparr>,
           \<lparr>o_op_mask = 0, o_op = 2, o_m0 = 1, o_a0 = 0, o_m1 = 0, o_a1 = 0\<rparr>,
           \<lparr>o_op_mask = 0, o_op = 3, o_m0 = 1, o_a0 = 1, o_m1 = 0, o_a1 = 0\<rparr>,
           \<lparr>o_op_mask = 0, o_op = 1, o_m0 = 3, o_a0 = 2, o_m1 = 1, o_a1 = 1\<rparr>,
           \<lparr>o_op_mask = 0, o_op = 0, o_m0 = 0, o_a0 = 0, o_m1 = 0, o_a1 = 0\<rparr>]"
  unfolding host_code_text
  by (subst host_assembles) (simp_all add: host_instrs_def fresh_def)

section \<open>The file\<close>

lemma record_bytes: "length (host_record x y e) = 10"
  by (simp add: host_record_def)

lemma nth_records:
  "i < length es \<Longrightarrow> j < 10 \<Longrightarrow> concat (map (host_record x y) es) ! (10 * i + j) = host_record x y (es ! i) ! j"
proof (induction es arbitrary: i)
  case (Cons e es)
  then show ?case by (cases i) (simp_all add: nth_append record_bytes)
qed simp

lemma length_records: "length (concat (map (host_record x y) es)) = 10 * length es"
  by (induction es) (simp_all add: record_bytes)

lemma halves16: "load16 m a = w" if "m a = ucast w" and "m (a + 1) = ucast (drop_bit 8 w)" for w :: "16 word"
proof -
  have "(ucast (ucast w :: byte) :: 16 word) OR push_bit 8 (ucast (ucast (drop_bit 8 w) :: byte)) = w"
    by (rule bit_word_eqI) (auto simp: bit_simps)
  then show ?thesis by (simp add: load16_def that or.commute)
qed

lemma record_decodes:
  assumes "\<And>j. j < 10 \<Longrightarrow> m (p + of_nat j) = host_record x y e ! j"
  shows "ins_op m p = o_op e \<and> ins_mask0 m p = o_m0 e \<and> ins_arg0 m p = o_a0 e \<and> ins_mask1 m p = o_m1 e \<and> ins_arg1 m p = o_a1 e"
proof -
  have "ins_arg0 m p = o_a0 e" "ins_arg1 m p = o_a1 e"
    unfolding ins_arg0_def ins_arg1_def
    by (rule halves16; use assms [of 4] assms [of 5] assms [of 8] assms [of 9] in \<open>simp add: host_record_def add.assoc\<close>)+
  then show ?thesis using assms [of 1] assms [of 2] assms [of 6]
    by (simp add: ins_op_def ins_mask0_def ins_mask1_def load8_def host_record_def)
qed

text \<open>C27. The file the host assembler writes, loaded at any address, is a program the
  virtual machine decodes to the instructions that were written, whatever the padding.\<close>

theorem host_file_decodes:
  fixes es :: "host_out list" and a :: addr and m :: mem and x y :: byte and i :: nat
  assumes "i < length es" and "10 * length es < 4294967296"
  defines "p \<equiv> a + of_nat (10 * i)" and "m' \<equiv> overlay m a (concat (map (host_record x y) es))"
  shows "ins_op m' p = o_op (es ! i) \<and> ins_mask0 m' p = o_m0 (es ! i) \<and> ins_arg0 m' p = o_a0 (es ! i)
    \<and> ins_mask1 m' p = o_m1 (es ! i) \<and> ins_arg1 m' p = o_a1 (es ! i)"
proof (rule record_decodes)
  fix j :: nat
  assume j: "j < 10"
  then have "10 * i + j < 10 * length es" using assms(1) by simp
  then have "m' (a + of_nat (10 * i + j)) = concat (map (host_record x y) es) ! (10 * i + j)"
    unfolding m'_def by (intro overlay_inside) (use assms(2) length_records in simp_all)
  then show "m' (p + of_nat j) = host_record x y (es ! i) ! j" using nth_records [OF assms(1) j] by (simp add: p_def add.assoc)
qed

lemma host_file_decodes_witness:
  "ins_arg1 (overlay (\<lambda>_. 0) 0x200000 (concat (map (host_record 7 7) (map instr_code host_instrs)))) 0x20000A = 12"
  using host_file_decodes [where i = 1 and es = "map instr_code host_instrs" and a = "0x200000" and m = "\<lambda>_. 0"
      and x = 7 and y = 7]
  by (simp add: host_instrs_def)

section \<open>The two assemblers\<close>

text \<open>C39. For no register name does the kernel's assembler give the number the host's
  gives, which is the index of the name.\<close>

theorem assemblers_differ:
  assumes "r < 7" and "htext h p (bytes_of (host_regs ! r))"
    and "names_at L m dasm_regs" and "cstr_at m q (bytes_of (host_regs ! r))"
  shows "host_get_reg (heap h) p = int r \<and> get_reg L m q = Some (if r = 0 then 1 else 0)
    \<and> get_reg L m q \<noteq> Some (word_of_int (host_get_reg (heap h) p))"
proof -
  have "bytes_of (host_regs ! r) = bytes_of ''r0'' \<longleftrightarrow> r = 0"
  proof -
    have "host_regs ! 0 = ''r0''" by (simp add: host_regs_def)
    then show ?thesis
      using nth_eq_iff_index_eq [OF tables(4), of r 0] tables(6) assms(1) by (simp add: nth_map)
  qed
  then have k: "get_reg L m q = Some (if r = 0 then 1 else 0)" using get_reg_value [OF assms(3,4)] by simp
  have "(of_nat r :: 32 word) \<noteq> (if r = 0 then 1 else 0)"
  proof -
    have "unat (of_nat r :: 32 word) = r" using assms(1) by (intro unat_of_small) simp
    then show ?thesis by (auto simp: unat_eq_zero split: if_splits)
  qed
  then show ?thesis using k get_reg_text [OF assms(2,1)] by auto
qed

lemma assemblers_differ_witness:
  "get_reg sample_syms sample_rodata (sample_literal ''sp'') \<noteq>
     Some (word_of_int (host_get_reg (heap (host_put 0 (bytes_of ''sp'') \<lparr>heap = (\<lambda>_. 0), brk = 8\<rparr>)) 0))"
proof -
  have "htext (host_put 0 (bytes_of ''sp'') \<lparr>heap = (\<lambda>_. 0), brk = 8\<rparr>) 0 (bytes_of (host_regs ! 5))"
    by (simp add: htext_def host_put_def host_regs_def less_Suc_eq numeral_eq_Suc)
  moreover have "cstr_at sample_rodata (sample_literal ''sp'') (bytes_of (host_regs ! 5))"
    using sample_names(2) by (simp add: names_at_def dasm_regs_def host_regs_def)
  ultimately show ?thesis using assemblers_differ [of 5] sample_names(2) by simp
qed

end
