(* ===== verification/Vm_Abs.thy ===== *)
theory Vm_Abs
  imports Vm
begin

text \<open>
  An abstract machine for straight-line programs with every operation and every kind of operand, a
  type checker that keeps programs off their own code and inside their heap, and the proof that each
  typed instruction of the virtual machine is a step of the abstract one.
\<close>

section \<open>The abstract machine\<close>

text \<open>Four byte registers, the flags, the stack and base pointers, and the bytes of the heap.\<close>

record avm =
  a_regs :: "nat \<Rightarrow> byte"
  a_flags :: byte
  a_sp :: "16 word"
  a_bp :: nat
  a_heap :: "nat \<Rightarrow> byte"

text \<open>\<open>Cell p\<close> is the heap byte at \<open>p\<close> from the base pointer, \<open>Via r\<close> the one a register points at.\<close>

datatype operand = Imm "16 word" | Reg nat | Cell nat | Via nat

datatype instr = Mov operand operand | Push operand | Pop operand | Cmp operand operand

primrec eval_operand :: "avm \<Rightarrow> operand \<Rightarrow> 16 word" where
  "eval_operand a (Imm v) = v"
| "eval_operand a (Reg r) = ucast (a_regs a r)"
| "eval_operand a (Cell p) = ucast (a_heap a (p + a_bp a))"
| "eval_operand a (Via r) = ucast (a_heap a (unat (a_regs a r) + a_bp a))"

primrec assign :: "operand \<Rightarrow> byte \<Rightarrow> avm \<Rightarrow> avm" where
  "assign (Imm v) w a = a"
| "assign (Reg r) w a = a\<lparr>a_regs := (a_regs a)(r := w)\<rparr>"
| "assign (Cell p) w a = a\<lparr>a_heap := (a_heap a)(p + a_bp a := w)\<rparr>"
| "assign (Via r) w a = a\<lparr>a_heap := (a_heap a)(unat (a_regs a r) + a_bp a := w)\<rparr>"

definition cmp_flags :: "16 word \<Rightarrow> 16 word \<Rightarrow> byte \<Rightarrow> byte" where
  "cmp_flags x y f = set_flag (x \<le>s y) FLAG_LTE (set_flag (y \<le>s x) FLAG_GTE (set_flag (x = y) FLAG_EQ f))"

primrec avm_step :: "instr \<Rightarrow> avm \<Rightarrow> avm" where
  "avm_step (Mov x y) a = assign x (ucast (eval_operand a y)) a"
| "avm_step (Push x) a = a\<lparr>a_heap := (a_heap a)(unat (a_sp a) := ucast (eval_operand a x)), a_sp := a_sp a + 2\<rparr>"
| "avm_step (Pop x) a = assign x (a_heap a (unat (a_sp a))) (a\<lparr>a_sp := a_sp a - 1\<rparr>)"
| "avm_step (Cmp x y) a = a\<lparr>a_flags := cmp_flags (eval_operand a x) (eval_operand a y) (a_flags a)\<rparr>"

section \<open>Types\<close>

text \<open>
  With the program in the first \<open>c\<close> bytes of a heap of \<open>n\<close> and the base pointer at \<open>b\<close>: an operand may be
  read within the heap and written behind the program. The type of an instruction is the change of
  the stack pointer, which must stay behind the program too.
\<close>

primrec reads_ok :: "nat \<Rightarrow> nat \<Rightarrow> operand \<Rightarrow> bool" where
  "reads_ok b n (Imm v) \<longleftrightarrow> True"
| "reads_ok b n (Reg r) \<longleftrightarrow> True"
| "reads_ok b n (Cell p) \<longleftrightarrow> p + b < n"
| "reads_ok b n (Via r) \<longleftrightarrow> b + 256 \<le> n"

primrec writes_ok :: "nat \<Rightarrow> nat \<Rightarrow> nat \<Rightarrow> operand \<Rightarrow> bool" where
  "writes_ok c b n (Imm v) \<longleftrightarrow> True"
| "writes_ok c b n (Reg r) \<longleftrightarrow> True"
| "writes_ok c b n (Cell p) \<longleftrightarrow> c \<le> p + b \<and> p + b < n"
| "writes_ok c b n (Via r) \<longleftrightarrow> c \<le> b \<and> b + 256 \<le> n"

primrec instr_type :: "nat \<Rightarrow> nat \<Rightarrow> nat \<Rightarrow> nat \<Rightarrow> instr \<Rightarrow> nat option" where
  "instr_type c b n sp (Mov x y) = (if writes_ok c b n x \<and> reads_ok b n y then Some sp else None)"
| "instr_type c b n sp (Push x) = (if reads_ok b n x \<and> c \<le> sp \<and> sp < n then Some (sp + 2) else None)"
| "instr_type c b n sp (Pop x) = (if writes_ok c b n x \<and> 0 < sp \<and> sp < n then Some (sp - 1) else None)"
| "instr_type c b n sp (Cmp x y) = (if reads_ok b n x \<and> reads_ok b n y then Some sp else None)"

fun prog_type :: "nat \<Rightarrow> nat \<Rightarrow> nat \<Rightarrow> nat \<Rightarrow> instr list \<Rightarrow> nat option" where
  "prog_type c b n sp [] = Some sp"
| "prog_type c b n sp (i # is) = Option.bind (instr_type c b n sp i) (\<lambda>sp. prog_type c b n sp is)"

lemma assign_other [simp]: "a_sp (assign x w a) = a_sp a" "a_bp (assign x w a) = a_bp a"
  by (cases x; simp)+

lemma step_bp [simp]: "a_bp (avm_step i a) = a_bp a"
  by (cases i) simp_all

text \<open>The abstract machine follows the types.\<close>

lemma step_sp:
  assumes "instr_type c b n (unat (a_sp a)) i = Some sp" and "n \<le> 32768"
  shows "unat (a_sp (avm_step i a)) = sp"
proof (cases i)
  case (Push x)
  then have "sp = unat (a_sp a) + 2" "unat (a_sp a) < 32768" using assms by (auto split: if_splits)
  then show ?thesis using Push by (simp add: unat_word_ariths)
next
  case (Pop x)
  then have s: "sp = unat (a_sp a) - 1" "0 < unat (a_sp a)" using assms by (auto split: if_splits)
  then have "1 \<le> a_sp a" by (simp add: word_le_nat_alt)
  from unat_sub [OF this] show ?thesis using Pop s by simp
qed (use assms in \<open>auto split: if_splits\<close>)

section \<open>Encoding and abstraction\<close>

primrec operand_at :: "byte \<Rightarrow> 16 word \<Rightarrow> operand \<Rightarrow> bool" where
  "operand_at md arg (Imm v) \<longleftrightarrow> md = 0 \<and> arg = v"
| "operand_at md arg (Reg r) \<longleftrightarrow> md = 1 \<and> r < 4 \<and> arg = of_nat r"
| "operand_at md arg (Cell p) \<longleftrightarrow> md = 2 \<and> p < 32768 \<and> arg = of_nat p"
| "operand_at md arg (Via r) \<longleftrightarrow> md = 3 \<and> r < 4 \<and> arg = of_nat r"

definition first_at :: "mem \<Rightarrow> addr \<Rightarrow> operand \<Rightarrow> bool" where
  "first_at m i x \<longleftrightarrow> operand_at (ins_mask0 m i) (ins_arg0 m i) x"

definition second_at :: "mem \<Rightarrow> addr \<Rightarrow> operand \<Rightarrow> bool" where
  "second_at m i x \<longleftrightarrow> operand_at (ins_mask1 m i) (ins_arg1 m i) x"

primrec instr_at :: "mem \<Rightarrow> addr \<Rightarrow> instr \<Rightarrow> bool" where
  "instr_at m i (Mov x y) \<longleftrightarrow> ins_op m i = 1 \<and> first_at m i x \<and> second_at m i y"
| "instr_at m i (Push x) \<longleftrightarrow> ins_op m i = 2 \<and> first_at m i x"
| "instr_at m i (Pop x) \<longleftrightarrow> ins_op m i = 3 \<and> first_at m i x"
| "instr_at m i (Cmp x y) \<longleftrightarrow> ins_op m i = 4 \<and> first_at m i x \<and> second_at m i y"

text \<open>The abstract machine of the struct at \<open>vm\<close> with a heap of \<open>n\<close> bytes at \<open>h\<close>.\<close>

definition avm_of :: "mem \<Rightarrow> addr \<Rightarrow> addr \<Rightarrow> nat \<Rightarrow> avm" where
  "avm_of m vm h n = \<lparr>a_regs = (\<lambda>r. if r < 4 then m (vm + 12 + 2 * of_nat r) else 0), a_flags = vm_flags m vm,
     a_sp = vm_sp m vm, a_bp = unat (vm_bp m vm), a_heap = (\<lambda>k. if k < n then m (h + of_nat k) else 0)\<rparr>"

lemma avm_of_simps [simp]:
  "a_regs (avm_of m vm h n) = (\<lambda>r. if r < 4 then m (vm + 12 + 2 * of_nat r) else 0)"
  "a_flags (avm_of m vm h n) = vm_flags m vm" "a_sp (avm_of m vm h n) = vm_sp m vm"
  "a_bp (avm_of m vm h n) = unat (vm_bp m vm)"
  "a_heap (avm_of m vm h n) = (\<lambda>k. if k < n then m (h + of_nat k) else 0)"
  by (simp_all add: avm_of_def)

lemma reg_addr: "r < 4 \<Longrightarrow> vm_reg_addr vm (of_nat r) = vm + 12 + 2 * of_nat r"
  by (auto simp: vm_reg_addr_def numeral_eq_Suc less_Suc_eq)

lemma reg_off:
  assumes "r < 4"
  shows "unat (12 + 2 * of_nat r :: addr) = 12 + 2 * r"
proof -
  have "(12 + 2 * of_nat r :: addr) = of_nat (12 + 2 * r)" by simp
  then have "unat (12 + 2 * of_nat r :: addr) = unat (of_nat (12 + 2 * r) :: addr)" by (rule arg_cong)
  then show ?thesis
    using assms by (simp add: unat_of_nat take_bit_nat_eq_self del: of_nat_add of_nat_mult)
qed

lemma reg_in: "r < 4 \<Longrightarrow> inreg (vm + 12) 8 (vm + 12 + 2 * of_nat r)"
proof -
  assume r: "r < 4"
  have "unat (2 * of_nat r :: addr) = 2 * r"
    using r by (simp add: unat_word_ariths unat_of_nat take_bit_nat_eq_self)
  then show ?thesis using r by (simp add: inreg_def)
qed

lemma reg_distinct:
  assumes "r < 4" and "k < 4"
  shows "2 * of_nat r = (2 * of_nat k :: addr) \<longleftrightarrow> r = k"
proof
  assume "2 * of_nat r = (2 * of_nat k :: addr)"
  then have "unat (12 + 2 * of_nat r :: addr) = unat (12 + 2 * of_nat k :: addr)" by (simp only:)
  then show "r = k" unfolding reg_off [OF assms(1)] reg_off [OF assms(2)] by linarith
qed simp

lemma scast_small: "j < 32768 \<Longrightarrow> scast (of_nat j :: 16 word) = (of_nat j :: addr)"
proof -
  assume j: "j < 32768"
  have "uint (of_nat j :: 16 word) = int j"
    using j by (simp add: uint_nat unat_of_nat take_bit_nat_eq_self)
  then have "sint (of_nat j :: 16 word) = int j"
    using j by (simp add: sint_uint signed_take_bit_int_eq_self)
  then have "(scast (of_nat j :: 16 word) :: addr) = word_of_int (int j)"
    by (metis of_int_sint)
  then show ?thesis by simp
qed

lemma scast_unat: "unat w < 32768 \<Longrightarrow> scast w = (of_nat (unat w) :: addr)" for w :: "16 word"
  using scast_small [of "unat w"] by simp

lemma cell_addr:
  assumes "p < 32768" and "unat (vm_bp m vm) < 32768" and "vm_heap_address m vm = h"
  shows "vm_cell_addr m vm (of_nat p) = h + of_nat (p + unat (vm_bp m vm))"
  unfolding vm_cell_addr_def assms(3) scast_small [OF assms(1)] scast_unat [OF assms(2)] by simp

lemma via_addr:
  assumes "r < 4" and "unat (vm_bp m vm) < 32768" and "vm_heap_address m vm = h"
  shows "vm_cell_addr m vm (ucast (load8 m (vm_reg_addr vm (of_nat r)))) =
    h + of_nat (unat (a_regs (avm_of m vm h n) r) + unat (vm_bp m vm))"
proof -
  let ?w = "m (vm + 12 + 2 * of_nat r)"
  have w: "unat ?w < 256" using unsigned_less [of ?w] by simp
  then have "(ucast ?w :: 16 word) = of_nat (unat ?w)"
    by (intro word_unat_eq_iff [THEN iffD2]) (simp add: unat_of_nat unsigned_ucast_eq take_bit_nat_eq_self)
  then have "vm_cell_addr m vm (ucast (load8 m (vm_reg_addr vm (of_nat r)))) = vm_cell_addr m vm (of_nat (unat ?w))"
    using assms(1) by (simp add: load8_def reg_addr)
  then show ?thesis using cell_addr [OF _ assms(2,3), of "unat ?w"] w assms(1) by simp
qed

lemma read_operand:
  assumes "operand_at md arg x" and "reads_ok (unat (vm_bp m vm)) n x" and "n \<le> 32768"
    and "vm_heap_address m vm = h" and "unat (vm_bp m vm) < 32768"
  shows "vm_read m vm md arg = eval_operand (avm_of m vm h n) x"
proof (cases x)
  case (Via r)
  have "unat (m (vm + 12 + 2 * of_nat r)) < 256" using unsigned_less [of "m (vm + 12 + 2 * of_nat r)"] by simp
  then show ?thesis
    using Via assms via_addr [of r m vm h n] by (simp add: vm_read_def Let_def load8_def)
qed (use assms cell_addr [of _ m vm h] in \<open>simp_all add: vm_read_def reg_addr load8_def\<close>)

section \<open>What an instruction writes\<close>

text \<open>The registers, the flags, the stack pointer, and the heap behind the program.\<close>

definition owned :: "addr \<Rightarrow> addr \<Rightarrow> nat \<Rightarrow> nat \<Rightarrow> addr \<Rightarrow> bool" where
  "owned vm h c n x \<longleftrightarrow> inreg (vm + 12) 8 x \<or> inreg (vm + 22) 2 x \<or> x = vm + 26 \<or> inreg (h + of_nat c) (n - c) x"

text \<open>The heap is apart from the struct, and both from the allocator's node.\<close>

definition vm_apart :: "mem \<Rightarrow> addr \<Rightarrow> addr \<Rightarrow> nat \<Rightarrow> nat \<Rightarrow> bool" where
  "vm_apart m vm h c n \<longleftrightarrow> (\<forall>x. inreg h n x \<longrightarrow> \<not> inreg vm 32 x)
     \<and> (\<forall>x. inreg (vm_heap m vm) 16 x \<longrightarrow> \<not> inreg vm 28 x \<and> \<not> inreg (h + of_nat c) (n - c) x)"

lemma cell_in: "k < n \<Longrightarrow> n \<le> 32768 \<Longrightarrow> inreg h n (h + of_nat k)"
  using unat_of_small [of k] by (simp add: inreg_def)

lemma cell_behind:
  assumes "c \<le> k" and "k < n" and "n \<le> 32768"
  shows "inreg (h + of_nat c) (n - c) (h + of_nat k)"
proof -
  have "h + of_nat k - (h + of_nat c) = (of_nat (k - c) :: addr)" using assms(1) by (simp add: of_nat_diff)
  then show ?thesis using assms unat_of_small [of "k - c"] by (simp add: inreg_def)
qed

lemma cells_differ: "j < n \<Longrightarrow> k < n \<Longrightarrow> n \<le> 32768 \<Longrightarrow> h + of_nat j = h + of_nat k \<longleftrightarrow> j = k" for h :: addr
proof -
  assume n: "j < n" "k < n" "n \<le> 32768"
  show ?thesis
  proof
    assume "h + of_nat j = h + of_nat k"
    then have "unat (of_nat j :: addr) = unat (of_nat k :: addr)" by simp
    then show "j = k" using n unat_of_small [of j] unat_of_small [of k] by simp
  qed simp
qed

lemma vm_local:
  assumes "\<And>x. inreg vm 28 x \<Longrightarrow> m' x = m x"
  shows "a_regs (avm_of m' vm h n) = a_regs (avm_of m vm h n)" "vm_flags m' vm = vm_flags m vm" "vm_sp m' vm = vm_sp m vm"
    "vm_bp m' vm = vm_bp m vm" "vm_status m' vm = vm_status m vm" "vm_ip m' vm = vm_ip m vm"
proof -
  have w: "load16 m' (vm + i) = load16 m (vm + i)" if "unat i < 27" for i
    by (rule c16.ld_local, rule assms, erule inreg_sub, use that in simp)
  show "vm_sp m' vm = vm_sp m vm" "vm_bp m' vm = vm_bp m vm" "vm_ip m' vm = vm_ip m vm" by (simp_all add: vm_fields w)
  have "m' (vm + 12 + 2 * of_nat r) = m (vm + 12 + 2 * of_nat r)" if "r < 4" for r
    by (rule assms, rule inreg_sub [OF reg_in [OF that]]) simp
  then show "a_regs (avm_of m' vm h n) = a_regs (avm_of m vm h n)" by (auto simp: fun_eq_iff)
  show "vm_flags m' vm = vm_flags m vm"
    unfolding vm_flags_def by (rule c8.ld_local, rule assms, erule inreg_sub) simp
  show "vm_status m' vm = vm_status m vm"
    unfolding vm_status_def by (rule c32.ld_local, rule assms, erule inreg_sub) simp
qed

lemma heap_write:
  assumes "vm_apart m vm h c n" and "k < n" and "n \<le> 32768"
  shows "avm_of (store8 m (h + of_nat k) w) vm h n = (avm_of m vm h n)\<lparr>a_heap := (a_heap (avm_of m vm h n))(k := w)\<rparr>"
proof -
  let ?m = "store8 m (h + of_nat k) w"
  have "?m x = m x" if "inreg vm 28 x" for x
  proof -
    have "\<not> inreg vm 32 (h + of_nat k)" using assms(1) cell_in [OF assms(2,3)] by (simp add: vm_apart_def)
    then have "x \<noteq> h + of_nat k" using inreg_mono [OF that, of 32] by auto
    then show ?thesis by (simp add: store8_apply)
  qed
  note l = vm_local [of vm ?m m, OF this]
  have "a_heap (avm_of ?m vm h n) = (a_heap (avm_of m vm h n))(k := w)"
    using assms(2,3) cells_differ [of _ n k h] by (auto simp: store8_apply fun_eq_iff)
  then show ?thesis using l(1) [of h n] l(2-4) by (simp add: avm_of_def)
qed

text \<open>A write inside the struct leaves the heap alone.\<close>

lemma heap_kept:
  assumes "vm_apart m vm h c n" and "n \<le> 32768" and "\<And>x. \<not> inreg vm 28 x \<Longrightarrow> m' x = m x"
  shows "a_heap (avm_of m' vm h n) = a_heap (avm_of m vm h n)" "vm_heap m' vm = vm_heap m vm"
    "vm_heap_address m' vm = vm_heap_address m vm"
proof -
  have "m' (h + of_nat k) = m (h + of_nat k)" if "k < n" for k
  proof -
    have "\<not> inreg vm 32 (h + of_nat k)" using assms(1) cell_in [OF that assms(2)] by (simp add: vm_apart_def)
    then have "\<not> inreg vm 28 (h + of_nat k)" using inreg_mono [of vm 28 "h + of_nat k" 32] by auto
    then show ?thesis by (rule assms(3))
  qed
  then show "a_heap (avm_of m' vm h n) = a_heap (avm_of m vm h n)" by (auto simp: fun_eq_iff)
  have "sep vm 28 (vm + 28) 4" by (simp add: sep_simps)
  then show hp: "vm_heap m' vm = vm_heap m vm"
    unfolding vm_heap_def by (intro c32.ld_local assms(3)) (erule (1) sep_notin)
  have "mp_address m' (vm_heap m vm) = mp_address m (vm_heap m vm)"
    by (rule mp_local) (use assms(1,3) in \<open>simp add: vm_apart_def\<close>)
  then show "vm_heap_address m' vm = vm_heap_address m vm" by (simp add: vm_heap_address_def hp)
qed

lemma reg_write:
  assumes "vm_apart m vm h c n" and "r < 4" and "n \<le> 32768"
  shows "avm_of (store8 m (vm + 12 + 2 * of_nat r) w) vm h n =
    (avm_of m vm h n)\<lparr>a_regs := (a_regs (avm_of m vm h n))(r := w)\<rparr>"
proof -
  let ?a = "vm + 12 + 2 * of_nat r" and ?m = "store8 m (vm + 12 + 2 * of_nat r) w"
  have s: "inreg (vm + 12) 8 ?a" by (rule reg_in [OF assms(2)])
  have "?m x = m x" if "\<not> inreg vm 28 x" for x
    using inreg_sub [OF s, of 28] that by (auto simp: store8_apply)
  note hp = heap_kept(1) [OF assms(1,3) this]
  have far: "\<not> inreg (vm + i) k ?a" if "sep (vm + i) k (vm + 12) 8" for i k by (rule sep_notin [OF that s])
  have f: "load16 ?m (vm + i) = load16 m (vm + i)" if "sep i 2 12 8" for i
    by (rule c16.ld_local) (use far [of i 2] that in \<open>auto simp: store8_apply sep_simps\<close>)
  have "vm_flags ?m vm = vm_flags m vm"
    using far [of 26 1] by (auto simp: vm_flags_def load8_def store8_apply sep_simps inreg_def)
  moreover have "vm_sp ?m vm = vm_sp m vm" "vm_bp ?m vm = vm_bp m vm"
    unfolding vm_fields by (rule f, simp add: sep_simps)+
  moreover have "a_regs (avm_of ?m vm h n) = (a_regs (avm_of m vm h n))(r := w)"
    using assms(2) reg_distinct by (auto simp: store8_apply fun_eq_iff)
  ultimately show ?thesis using hp by (simp add: avm_of_def)
qed

lemma sp_write:
  assumes "vm_apart m vm h c n" and "n \<le> 32768"
  shows "avm_of (store16 m (vm + 22) v) vm h n = (avm_of m vm h n)\<lparr>a_sp := v\<rparr>"
proof -
  let ?m = "store16 m (vm + 22) v"
  have out: "?m x = m x" if "\<not> inreg (vm + 22) 2 x" for x using that by (rule c16.st_outside)
  have "?m x = m x" if "\<not> inreg vm 28 x" for x by (rule out, rule inreg_fields(1) [OF that]) simp
  note hp = heap_kept(1) [OF assms this]
  have "?m (vm + 12 + 2 * of_nat r) = m (vm + 12 + 2 * of_nat r)" if "r < 4" for r
    by (rule out, rule sep_notin [OF _ reg_in [OF that]]) (simp add: sep_simps)
  then have "a_regs (avm_of ?m vm h n) = a_regs (avm_of m vm h n)" by (auto simp: fun_eq_iff)
  moreover have "vm_flags ?m vm = vm_flags m vm" "vm_bp ?m vm = vm_bp m vm" "vm_sp ?m vm = v"
    by (simp_all add: vm_fields mem_simps sep_simps)
  ultimately show ?thesis using hp by (simp add: avm_of_def)
qed

lemma flags_write:
  assumes "vm_apart m vm h c n" and "n \<le> 32768"
  shows "avm_of (update_flags vm g m) vm h n = (avm_of m vm h n)\<lparr>a_flags := g (vm_flags m vm)\<rparr>"
    and "x \<noteq> vm + 26 \<Longrightarrow> update_flags vm g m x = m x"
proof -
  let ?m = "update_flags vm g m"
  show out: "?m x = m x" if "x \<noteq> vm + 26" for x using that by (simp add: update_flags_def store8_apply)
  have "?m x = m x" if "\<not> inreg vm 28 x" for x by (rule out) (use that in \<open>auto simp: inreg_def\<close>)
  note hp = heap_kept(1) [OF assms this]
  have "vm + 26 \<noteq> vm + 12 + 2 * of_nat r" if "r < 4" for r
    using sep_notin [OF _ reg_in [OF that], of "vm + 26" 1 vm] by (auto simp: sep_simps inreg_def)
  then have "a_regs (avm_of ?m vm h n) = a_regs (avm_of m vm h n)" using out by (auto simp: fun_eq_iff)
  moreover have "vm_flags ?m vm = g (vm_flags m vm)" "vm_bp ?m vm = vm_bp m vm" "vm_sp ?m vm = vm_sp m vm"
    by (simp_all add: update_flags_def vm_fields mem_simps sep_simps)
  ultimately show "avm_of ?m vm h n = (avm_of m vm h n)\<lparr>a_flags := g (vm_flags m vm)\<rparr>" using hp by (simp add: avm_of_def)
qed

section \<open>One instruction\<close>

text \<open>The table as \<open>vm_ops_init\<close> fills it.\<close>

definition table_ok :: "syms \<Rightarrow> mem \<Rightarrow> bool" where
  "table_ok L m \<longleftrightarrow> (\<forall>k < 5. load32 m (s_vm_ops L + 4 * of_nat k) = f_vm_op L k) \<and> inj_on (f_vm_op L) {..<5}"

primrec op_of :: "instr \<Rightarrow> addr \<Rightarrow> addr \<Rightarrow> mem \<Rightarrow> mem" where
  "op_of (Mov x y) = op_mov"
| "op_of (Push x) = op_push"
| "op_of (Pop x) = op_pop"
| "op_of (Cmp x y) = op_cmp"

lemma op_entry:
  assumes "table_ok L m" and "k < 5"
  shows "load32 m (s_vm_ops L + 4 * of_nat k) = f_vm_op L k" "j < 5 \<Longrightarrow> f_vm_op L k = f_vm_op L j \<longleftrightarrow> k = j"
  using assms unfolding table_ok_def inj_on_def by (auto simp: lessThan_iff)

lemma run_op_entry:
  assumes "table_ok L (ram s)" and "ins_op (ram s) (vm_get_instuction (ram s) vm) = of_nat k" and "k < 5"
  shows "vm_run_op L vm s = ret (with_ram (([op_halt, op_mov, op_push, op_pop, op_cmp] ! k) vm (vm_get_instuction (ram s) vm)) s)"
proof -
  have k: "k = 0 \<or> k = 1 \<or> k = 2 \<or> k = 3 \<or> k = 4" using assms(3) by presburger
  then have "scast (of_nat k :: byte) = (of_nat k :: addr)" by (elim disjE) simp_all
  then have f: "load32 (ram s) (s_vm_ops L + 4 * scast (ins_op (ram s) (vm_get_instuction (ram s) vm))) = f_vm_op L k"
    unfolding assms(2) using op_entry(1) [OF assms(1,3)] by simp
  have d: "f_vm_op L k = f_vm_op L j \<longleftrightarrow> k = j" if "j < 5" for j by (rule op_entry(2) [OF assms(1,3) that])
  show ?thesis
    unfolding vm_run_op_def Let_def f vm_op_call_def using k d [of 0] d [of 1] d [of 2] d [of 3] d [of 4]
    by (elim disjE) simp_all
qed

lemma run_op_instr:
  assumes "table_ok L (ram s)" and "instr_at (ram s) (vm_get_instuction (ram s) vm) i"
  shows "vm_run_op L vm s = ret (with_ram (op_of i vm (vm_get_instuction (ram s) vm)) s)"
  using assms(2) run_op_entry [OF assms(1), of vm 1] run_op_entry [OF assms(1), of vm 2]
    run_op_entry [OF assms(1), of vm 3] run_op_entry [OF assms(1), of vm 4]
  by (cases i) simp_all

text \<open>Everything one step relies on: the heap where the struct says, and the instruction out of reach.\<close>

definition step_ready :: "mem \<Rightarrow> addr \<Rightarrow> addr \<Rightarrow> nat \<Rightarrow> nat \<Rightarrow> addr \<Rightarrow> bool" where
  "step_ready m vm h c n p \<longleftrightarrow> vm_apart m vm h c n \<and> n \<le> 32768 \<and> vm_heap_address m vm = h
     \<and> unat (vm_bp m vm) < 32768 \<and> (\<forall>x. inreg p 10 x \<longrightarrow> \<not> inreg vm 28 x)"

text \<open>A write through an operand is none, one to a register, or one to a cell behind the program.\<close>

lemma write_cases:
  assumes r: "step_ready m vm h c n p" and "operand_at md arg x" and "writes_ok c (unat (vm_bp m vm)) n x"
  obtains "vm_write vm md arg v m = m" "\<And>a w. assign x w a = a"
  | q where "q < 4" "x = Reg q" "vm_write vm md arg v m = store8 m (vm + 12 + 2 * of_nat q) (ucast v)"
  | k where "c \<le> k" "k < n" "vm_write vm md arg v m = store8 m (h + of_nat k) (ucast v)"
    "\<And>w. assign x w (avm_of m vm h n) = (avm_of m vm h n)\<lparr>a_heap := (a_heap (avm_of m vm h n))(k := w)\<rparr>"
proof (cases x)
  case (Imm w)
  show ?thesis by (rule that(1)) (use Imm assms(2) in \<open>simp_all add: vm_write_def\<close>)
next
  case (Reg q)
  show ?thesis by (rule that(2)) (use Reg assms(2) in \<open>auto simp: vm_write_def reg_addr\<close>)
next
  case (Cell q)
  show ?thesis
    by (rule that(3) [of "q + unat (vm_bp m vm)"])
      (use Cell assms cell_addr [of q m vm h] in \<open>auto simp: vm_write_def step_ready_def\<close>)
next
  case (Via q)
  have "unat (m (vm + 12 + 2 * of_nat q)) < 256" using unsigned_less [of "m (vm + 12 + 2 * of_nat q)"] by simp
  then show ?thesis
    by (intro that(3) [of "unat (m (vm + 12 + 2 * of_nat q)) + unat (vm_bp m vm)"])
      (use Via assms via_addr [of q m vm h n] in \<open>auto simp: vm_write_def Let_def step_ready_def\<close>)
qed

lemma write_operand:
  assumes r: "step_ready m vm h c n p" and o: "operand_at md arg x" "writes_ok c (unat (vm_bp m vm)) n x"
  shows "avm_of (vm_write vm md arg v m) vm h n = assign x (ucast v) (avm_of m vm h n)"
    and "\<not> owned vm h c n y \<Longrightarrow> vm_write vm md arg v m y = m y"
proof -
  have n: "vm_apart m vm h c n" "n \<le> 32768" using r by (simp_all add: step_ready_def)
  show "avm_of (vm_write vm md arg v m) vm h n = assign x (ucast v) (avm_of m vm h n)"
    by (rule write_cases [OF r o, of v]) (simp_all add: heap_write [OF n(1) _ n(2)] reg_write [OF n(1) _ n(2)])
  assume y: "\<not> owned vm h c n y"
  show "vm_write vm md arg v m y = m y"
    by (rule write_cases [OF r o, of v])
      (use y reg_in cell_behind [OF _ _ n(2)] in \<open>auto simp: owned_def store8_apply\<close>)
qed

lemma owned_far:
  assumes "vm_apart m vm h c n" and "c \<le> n" "n \<le> 32768" and "inreg vm 32 x"
    and "\<not> inreg (vm + 12) 8 x" "\<not> inreg (vm + 22) 2 x" "x \<noteq> vm + 26"
  shows "\<not> owned vm h c n x"
proof -
  have "\<not> inreg (h + of_nat c) (n - c) x"
  proof
    assume "inreg (h + of_nat c) (n - c) x"
    then have "inreg h n x" by (rule inreg_sub) (use assms(2,3) unat_of_small [of c] in simp)
    then show False using assms(1,4) by (simp add: vm_apart_def)
  qed
  then show ?thesis using assms(5-7) by (simp add: owned_def)
qed

lemma ready_kept:
  assumes r: "step_ready m vm h c n p" and "c \<le> n" and keep: "\<And>x. \<not> owned vm h c n x \<Longrightarrow> m' x = m x"
  shows "step_ready m' vm h c n p" "vm_heap m' vm = vm_heap m vm" "vm_bp m' vm = vm_bp m vm"
proof -
  have n: "vm_apart m vm h c n" "n \<le> 32768" using r by (simp_all add: step_ready_def)
  have f: "m' x = m x" if "inreg (vm + i) k x" "unat i + k \<le> 32" "sep (vm + 12) 8 (vm + i) k" "sep (vm + 22) 2 (vm + i) k"
    "sep (vm + 26) 1 (vm + i) k" for i k x
    by (rule keep, rule owned_far [OF n(1) assms(2) n(2) inreg_sub [OF that(1,2)]])
      (use sep_notin [OF that(3,1)] sep_notin [OF that(4,1)] sep_notin [OF that(5,1)] in \<open>auto simp: inreg_def\<close>)
  show hp: "vm_heap m' vm = vm_heap m vm"
    unfolding vm_heap_def by (rule c32.ld_local, erule f) (simp_all add: sep_simps)
  show bp: "vm_bp m' vm = vm_bp m vm"
    unfolding vm_bp_def by (rule c16.ld_local, erule f) (simp_all add: sep_simps)
  have "m' x = m x" if "inreg (vm_heap m vm) 16 x" for x
  proof (rule keep)
    have "\<not> inreg vm 28 x" "\<not> inreg (h + of_nat c) (n - c) x" using n(1) that by (simp_all add: vm_apart_def)
    then show "\<not> owned vm h c n x"
      using inreg_fields(1) [of vm 28 x 12 8] inreg_fields(1) [of vm 28 x 22 2] by (auto simp: owned_def inreg_def)
  qed
  from mp_local(3) [OF this] show "step_ready m' vm h c n p"
    using r by (simp add: step_ready_def vm_apart_def hp bp vm_heap_address_def)
qed

lemma read_ready:
  assumes "step_ready m vm h c n p" and "operand_at md arg x" and "reads_ok (unat (vm_bp m vm)) n x"
  shows "vm_read m vm md arg = eval_operand (avm_of m vm h n) x"
  using assms by (intro read_operand) (simp_all add: step_ready_def)

lemma push_avm:
  assumes r: "step_ready m vm h c n p" and "first_at m p x" and "reads_ok (unat (vm_bp m vm)) n x"
    and "c \<le> unat (vm_sp m vm)" "unat (vm_sp m vm) < n"
  shows "avm_of (op_push vm p m) vm h n = avm_step (Push x) (avm_of m vm h n)"
    and "\<not> owned vm h c n y \<Longrightarrow> op_push vm p m y = m y"
proof -
  have n: "vm_apart m vm h c n" "n \<le> 32768" "vm_heap_address m vm = h" using r by (simp_all add: step_ready_def)
  have v: "vm_read m vm (ins_mask0 m p) (ins_arg0 m p) = eval_operand (avm_of m vm h n) x"
    using read_ready [OF r _ assms(3)] assms(2) by (simp add: first_at_def)
  have sp: "scast (vm_sp m vm) = (of_nat (unat (vm_sp m vm)) :: addr)" using assms(5) n(2) by (intro scast_unat) simp
  let ?m1 = "store8 m (h + of_nat (unat (vm_sp m vm))) (ucast (eval_operand (avm_of m vm h n) x))"
  note h1 = heap_write [OF n(1) assms(5) n(2), of "ucast (eval_operand (avm_of m vm h n) x)"]
  have out: "?m1 y = m y" if "\<not> owned vm h c n y" for y
    using cell_behind [OF assms(4,5) n(2), of h] that by (auto simp: owned_def store8_apply)
  have "c \<le> n" using assms(4,5) by simp
  from ready_kept(1) [OF r this out] have a1: "vm_apart ?m1 vm h c n" by (simp add: step_ready_def)
  have s1: "vm_sp ?m1 vm = vm_sp m vm" using arg_cong [OF h1, of a_sp] by simp
  have op: "op_push vm p m = store16 ?m1 (vm + 22) (vm_sp m vm + 2)"
    unfolding op_push_def Let_def n(3) sp v s1 by simp
  show "avm_of (op_push vm p m) vm h n = avm_step (Push x) (avm_of m vm h n)"
    unfolding op sp_write [OF a1 n(2)] h1 by simp
  show "op_push vm p m y = m y" if "\<not> owned vm h c n y"
    unfolding op using out [OF that] that by (simp add: owned_def c16.st_outside)
qed

lemma pop_avm:
  assumes r: "step_ready m vm h c n p" and "c \<le> n" and "first_at m p x" and "writes_ok c (unat (vm_bp m vm)) n x"
    and "unat (vm_sp m vm) < n"
  shows "avm_of (op_pop vm p m) vm h n = avm_step (Pop x) (avm_of m vm h n)"
    and "\<not> owned vm h c n y \<Longrightarrow> op_pop vm p m y = m y"
proof -
  have n: "vm_apart m vm h c n" "n \<le> 32768" "vm_heap_address m vm = h" "\<forall>x. inreg p 10 x \<longrightarrow> \<not> inreg vm 28 x"
    using r by (simp_all add: step_ready_def)
  let ?m1 = "store16 m (vm + 22) (vm_sp m vm - 1)"
  have out: "?m1 y = m y" if "\<not> owned vm h c n y" for y using that by (simp add: owned_def c16.st_outside)
  note k = ready_kept [OF r assms(2) out]
  have "?m1 y = m y" if "inreg p 10 y" for y
    using n(4) that inreg_fields(1) [of vm 28 y 22 2] by (simp add: c16.st_outside)
  note i = ins_fields_local [OF this]
  have o: "operand_at (ins_mask0 ?m1 p) (ins_arg0 ?m1 p) x" using assms(3) by (simp add: first_at_def i)
  have w: "writes_ok c (unat (vm_bp ?m1 vm)) n x" using assms(4) by (simp add: k(3))
  have sp: "scast (vm_sp m vm) = (of_nat (unat (vm_sp m vm)) :: addr)" using assms(5) n(2) by (intro scast_unat) simp
  define v where "v = (ucast (load8 m (h + of_nat (unat (vm_sp m vm)))) :: 16 word)"
  have v: "ucast v = a_heap (avm_of m vm h n) (unat (vm_sp m vm))"
  proof -
    have "(ucast (ucast b :: 16 word) :: byte) = b" for b :: byte by (rule bit_word_eqI) (simp add: bit_simps)
    then show ?thesis using assms(5) by (simp add: v_def load8_def)
  qed
  have op: "op_pop vm p m = vm_write vm (ins_mask0 ?m1 p) (ins_arg0 ?m1 p) v ?m1"
    unfolding op_pop_def Let_def n(3) sp v_def by simp
  show "avm_of (op_pop vm p m) vm h n = avm_step (Pop x) (avm_of m vm h n)"
    using write_operand(1) [OF k(1) o w, of v] unfolding op sp_write [OF n(1,2)] v by simp
  show "op_pop vm p m y = m y" if "\<not> owned vm h c n y"
    using write_operand(2) [OF k(1) o w that, of v] out [OF that] unfolding op by simp
qed

lemma cmp_avm:
  assumes r: "step_ready m vm h c n p" and "first_at m p x" "second_at m p z"
    and "reads_ok (unat (vm_bp m vm)) n x" "reads_ok (unat (vm_bp m vm)) n z" and "c \<le> n"
  shows "avm_of (op_cmp vm p m) vm h n = avm_step (Cmp x z) (avm_of m vm h n)"
    and "\<not> owned vm h c n y \<Longrightarrow> op_cmp vm p m y = m y"
proof -
  have n: "n \<le> 32768" using r by (simp add: step_ready_def)
  have fl: "vm_flags (update_flags vm g m') vm = g (vm_flags m' vm)" for g m'
    by (simp add: vm_flags_def update_flags_def c8.ld_st)
  have st: "step_ready (update_flags vm g m') vm h c n p" "vm_apart m' vm h c n" if "step_ready m' vm h c n p" for g m'
  proof -
    show a: "vm_apart m' vm h c n" using that by (simp add: step_ready_def)
    show "step_ready (update_flags vm g m') vm h c n p"
      by (rule ready_kept(1) [OF that assms(6)], rule flags_write(2) [OF a n]) (simp add: owned_def)
  qed
  define f where "f b fl = update_flags vm (set_flag b fl)" for b fl
  have up: "avm_of (f b fl m') vm h n = (avm_of m' vm h n)\<lparr>a_flags := set_flag b fl (vm_flags m' vm)\<rparr>"
    "step_ready (f b fl m') vm h c n p" "vm_flags (f b fl m') vm = set_flag b fl (vm_flags m' vm)"
    "y \<noteq> vm + 26 \<Longrightarrow> f b fl m' y = m' y"
    if "step_ready m' vm h c n p" for b fl m' y
    unfolding f_def by (rule flags_write(1) [OF st(2) [OF that] n] st(1) [OF that] fl flags_write(2) [OF st(2) [OF that] n]; assumption?)+
  have "vm_read m vm (ins_mask0 m p) (ins_arg0 m p) = eval_operand (avm_of m vm h n) x"
    "vm_read m vm (ins_mask1 m p) (ins_arg1 m p) = eval_operand (avm_of m vm h n) z"
    using read_ready [OF r _ assms(4)] read_ready [OF r _ assms(5)] assms(2,3) by (simp_all add: first_at_def second_at_def)
  note op = op_cmp_def [of vm p m, unfolded Let_def this, folded f_def]
  show "avm_of (op_cmp vm p m) vm h n = avm_step (Cmp x z) (avm_of m vm h n)"
    unfolding op using r by (simp add: up cmp_flags_def)
  show "op_cmp vm p m y = m y" if "\<not> owned vm h c n y"
    unfolding op using r that by (simp add: up owned_def)
qed

lemma op_avm:
  assumes r: "step_ready m vm h c n p" and "c \<le> n" and i: "instr_at m p i"
    and t: "instr_type c (unat (vm_bp m vm)) n (unat (vm_sp m vm)) i = Some sp"
  shows "avm_of (op_of i vm p m) vm h n = avm_step i (avm_of m vm h n)"
    and "\<not> owned vm h c n y \<Longrightarrow> op_of i vm p m y = m y"
proof -
  show "avm_of (op_of i vm p m) vm h n = avm_step i (avm_of m vm h n)"
  proof (cases i)
    case (Mov x z)
    then have o: "operand_at (ins_mask0 m p) (ins_arg0 m p) x" "writes_ok c (unat (vm_bp m vm)) n x"
      and z: "operand_at (ins_mask1 m p) (ins_arg1 m p) z" "reads_ok (unat (vm_bp m vm)) n z"
      using i t by (auto simp: first_at_def second_at_def split: if_splits)
    show ?thesis using write_operand(1) [OF r o] read_ready [OF r z] Mov by (simp add: op_mov_def)
  qed (use push_avm(1) [OF r] pop_avm(1) [OF r assms(2)] cmp_avm(1) [OF r _ _ _ _ assms(2)] i t in \<open>auto split: if_splits\<close>)
  assume y: "\<not> owned vm h c n y"
  show "op_of i vm p m y = m y"
  proof (cases i)
    case (Mov x z)
    then have o: "operand_at (ins_mask0 m p) (ins_arg0 m p) x" "writes_ok c (unat (vm_bp m vm)) n x"
      using i t by (auto simp: first_at_def split: if_splits)
    show ?thesis using write_operand(2) [OF r o y] Mov by (simp add: op_mov_def)
  qed (use push_avm(2) [OF r _ _ _ _ y] pop_avm(2) [OF r assms(2) _ _ _ y] cmp_avm(2) [OF r _ _ _ _ assms(2) y] i t in \<open>auto split: if_splits\<close>)
qed

end
