(* ===== verification/Vm_Spec.thy ===== *)
theory Vm_Spec
  imports Vm_Abs
begin

text \<open>
  A typed program runs to its end: \<open>vm_run\<close>, printing between the instructions and all, computes what
  the abstract machine computes and writes nowhere else.
\<close>

section \<open>A loaded program\<close>

text \<open>What the machine and the reports write, and what a loaded program keeps out of their way.\<close>

definition vm_private :: "syms \<Rightarrow> term_t \<Rightarrow> addr \<Rightarrow> addr \<Rightarrow> nat \<Rightarrow> nat \<Rightarrow> addr \<Rightarrow> bool" where
  "vm_private L t vm h c n x \<longleftrightarrow> in_frame t x \<or> inreg (s_itoa_buf L + 1) 64 x \<or> inreg vm 28 x
     \<or> inreg (h + of_nat c) (n - c) x"

definition code_size :: "instr list \<Rightarrow> nat" where
  "code_size is = 10 * length is + 10"

definition program_at :: "mem \<Rightarrow> addr \<Rightarrow> instr list \<Rightarrow> bool" where
  "program_at m h is \<longleftrightarrow> (\<forall>k < length is. instr_at m (h + of_nat (10 * k)) (is ! k))
     \<and> ins_op m (h + of_nat (10 * length is)) = 0"

definition vm_placed :: "syms \<Rightarrow> term_t \<Rightarrow> mem \<Rightarrow> addr \<Rightarrow> addr \<Rightarrow> nat \<Rightarrow> nat \<Rightarrow> bool" where
  "vm_placed L t m vm h c n \<longleftrightarrow>
     (\<forall>x. inreg (vm + 28) 4 x \<or> inreg (vm_heap m vm) 16 x \<or> inreg h c x \<or> inreg (s_vm_ops L) 20 x
        \<longrightarrow> \<not> vm_private L t vm h c n x)
     \<and> (\<forall>x. inreg vm 28 x \<or> inreg h n x \<longrightarrow> \<not> in_frame t x \<and> \<not> inreg (s_itoa_buf L + 1) 65 x \<and> \<not> inreg (s_zero L) 2 x)
     \<and> (\<forall>x. inreg h n x \<longrightarrow> \<not> inreg vm 32 x)"

definition vm_hosts :: "syms \<Rightarrow> term_t \<Rightarrow> mem \<Rightarrow> addr \<Rightarrow> addr \<Rightarrow> nat \<Rightarrow> nat \<Rightarrow> bool" where
  "vm_hosts L t m vm h n c \<longleftrightarrow> vm_heap_address m vm = h \<and> unat (vm_bp m vm) < 32768 \<and> table_ok L m
     \<and> c \<le> n \<and> n \<le> 32768 \<and> vm_placed L t m vm h c n"

definition vm_loaded :: "syms \<Rightarrow> term_t \<Rightarrow> mem \<Rightarrow> addr \<Rightarrow> addr \<Rightarrow> nat \<Rightarrow> instr list \<Rightarrow> bool" where
  "vm_loaded L t m vm h n is \<longleftrightarrow> vm_hosts L t m vm h n (code_size is) \<and> program_at m h is"

lemma instr_local:
  assumes "\<And>x. inreg p 10 x \<Longrightarrow> m' x = m x"
  shows "instr_at m' p i = instr_at m p i" and "ins_op m' p = ins_op m p"
proof -
  note f = ins_fields_local [OF assms]
  show "ins_op m' p = ins_op m p" by (rule f)
  show "instr_at m' p i = instr_at m p i" by (cases i) (simp_all add: f first_at_def second_at_def)
qed

lemma code_in:
  assumes "k \<le> length is" and "code_size is \<le> 32768" and "inreg (h + of_nat (10 * k)) 10 x"
  shows "inreg h (code_size is) x"
  by (rule inreg_sub [OF assms(3)]) (use assms(1,2) in \<open>simp add: code_size_def unat_of_small del: of_nat_mult\<close>)

lemma program_local:
  assumes "\<And>x. inreg h (code_size is) x \<Longrightarrow> m' x = m x" and "code_size is \<le> 32768"
  shows "program_at m' h is = program_at m h is"
proof -
  have eq: "m' x = m x" if "k \<le> length is" "inreg (h + of_nat (10 * k)) 10 x" for k x
    by (rule assms(1), rule code_in [OF that(1) assms(2) that(2)])
  have "instr_at m' (h + of_nat (10 * k)) i = instr_at m (h + of_nat (10 * k)) i" if "k < length is" for k i
    by (rule instr_local(1), rule eq [OF less_imp_le [OF that]])
  moreover have "ins_op m' (h + of_nat (10 * length is)) = ins_op m (h + of_nat (10 * length is))"
    by (rule instr_local(2), rule eq [OF order_refl])
  ultimately show ?thesis unfolding program_at_def by (simp del: of_nat_mult cong: conj_cong)
qed

lemma table_local:
  assumes "\<And>x. inreg (s_vm_ops L) 20 x \<Longrightarrow> m' x = m x"
  shows "table_ok L m' = table_ok L m"
proof -
  have "load32 m' (s_vm_ops L + 4 * of_nat k) = load32 m (s_vm_ops L + 4 * of_nat k)" if "k < 5" for k
  proof (rule c32.ld_local, rule assms)
    fix x
    assume x: "inreg (s_vm_ops L + 4 * of_nat k) 4 x"
    have "(4 * of_nat k :: addr) = of_nat (4 * k)" by simp
    then have "unat (4 * of_nat k :: addr) = 4 * k"
      using that unat_of_small [of "4 * k"] by simp
    then show "inreg (s_vm_ops L) 20 x" using that by (intro inreg_sub [OF x]) simp
  qed
  then show ?thesis by (simp add: table_ok_def)
qed

text \<open>A memory that agrees outside what is private still has the program loaded.\<close>

definition agrees :: "syms \<Rightarrow> term_t \<Rightarrow> addr \<Rightarrow> addr \<Rightarrow> nat \<Rightarrow> instr list \<Rightarrow> mem \<Rightarrow> mem \<Rightarrow> bool" where
  "agrees L t vm h n is m m' \<longleftrightarrow> (\<forall>x. \<not> vm_private L t vm h (code_size is) n x \<longrightarrow> m' x = m x)"

lemma loaded_keep:
  assumes ld: "vm_loaded L t m vm h n is" and ag: "agrees L t vm h n is m m'"
  shows "table_ok L m'" "program_at m' h is" "vm_heap_address m' vm = h" "vm_heap m' vm = vm_heap m vm"
proof -
  have pl: "vm_placed L t m vm h (code_size is) n" using ld by (simp add: vm_loaded_def vm_hosts_def)
  then have keep: "m' x = m x" if "inreg (vm + 28) 4 x \<or> inreg (vm_heap m vm) 16 x
      \<or> inreg h (code_size is) x \<or> inreg (s_vm_ops L) 20 x" for x
    using that ag unfolding vm_placed_def agrees_def by blast
  show hp: "vm_heap m' vm = vm_heap m vm"
    unfolding vm_heap_def by (rule c32.ld_local) (use keep in blast)
  have "mp_address m' (vm_heap m vm) = mp_address m (vm_heap m vm)"
    by (rule mp_local) (use keep in blast)
  then show "vm_heap_address m' vm = h" using ld by (simp add: vm_heap_address_def hp vm_loaded_def vm_hosts_def)
  have "table_ok L m' = table_ok L m" by (rule table_local) (use keep in blast)
  then show "table_ok L m'" using ld by (simp add: vm_loaded_def vm_hosts_def)
  have "program_at m' h is = program_at m h is"
    by (rule program_local) (use keep ld in \<open>auto simp: vm_loaded_def vm_hosts_def\<close>)
  then show "program_at m' h is" using ld by (simp add: vm_loaded_def vm_hosts_def)
qed

lemma loaded_apart:
  assumes ld: "vm_loaded L t m vm h n is" and ag: "agrees L t vm h n is m m'" and bp: "vm_bp m' vm = vm_bp m vm"
    and k: "k \<le> length is"
  shows "step_ready m' vm h (code_size is) n (h + of_nat (10 * k))"
proof -
  have l: "vm_placed L t m vm h (code_size is) n" "code_size is \<le> n" "n \<le> 32768" "unat (vm_bp m vm) < 32768"
    using ld by (simp_all add: vm_loaded_def vm_hosts_def)
  have "vm_apart m' vm h (code_size is) n"
    unfolding vm_apart_def loaded_keep(4) [OF ld ag] using l(1) unfolding vm_placed_def vm_private_def by blast
  moreover have "\<not> inreg vm 28 x" if "inreg (h + of_nat (10 * k)) 10 x" for x
    using code_in [OF k _ that] l(1-3) unfolding vm_placed_def vm_private_def by force
  ultimately show ?thesis using loaded_keep(3) [OF ld ag] l(3,4) by (simp add: step_ready_def bp)
qed

lemma print_ok_ram:
  assumes "print_ok L s" and "\<And>x. inreg (s_itoa_buf L + 1) 65 x \<or> inreg (s_zero L) 2 x \<Longrightarrow> m x = ram s x"
  shows "print_ok L (s\<lparr>ram := m\<rparr>)"
proof -
  have "cstr_at m (s_zero L) [48]"
    by (rule cstr_at_frame [of "ram s"]) (use assms in \<open>simp_all add: print_ok_def numeral_2_eq_2\<close>)
  moreover have "m (s_itoa_buf L + 65) = 0"
  proof -
    have "inreg (s_itoa_buf L + 1) 65 (s_itoa_buf L + 65)" by (simp add: inreg_def)
    then show ?thesis using assms by (simp add: print_ok_def)
  qed
  ultimately show ?thesis using assms(1) by (simp add: print_ok_def)
qed

section \<open>The machine between two instructions\<close>

text \<open>\<open>m0\<close> is the memory the run started from.\<close>

definition vm_running :: "syms \<Rightarrow> term_t \<Rightarrow> addr \<Rightarrow> addr \<Rightarrow> nat \<Rightarrow> instr list \<Rightarrow> mem \<Rightarrow> 32 word \<Rightarrow> nat \<Rightarrow> avm \<Rightarrow> kstate \<Rightarrow> bool" where
  "vm_running L t vm h n is m0 st k a s \<longleftrightarrow> print_ok L s \<and> same_geometry t (tty0 s) \<and> agrees L t vm h n is m0 (ram s)
     \<and> vm_bp (ram s) vm = vm_bp m0 vm
     \<and> vm_status (ram s) vm = st \<and> vm_ip (ram s) vm = of_nat (10 * k) \<and> avm_of (ram s) vm h n = a"

text \<open>A write to the struct or behind the program, and a report, keep the machine running.\<close>

lemma running_write:
  assumes ld: "vm_loaded L t m0 vm h n is" and r: "vm_running L t vm h n is m0 st k a s"
    and out: "\<And>x. \<not> inreg vm 28 x \<Longrightarrow> \<not> inreg (h + of_nat (code_size is)) (n - code_size is) x \<Longrightarrow> m x = ram s x"
    and "vm_status m vm = st'" "vm_ip m vm = of_nat (10 * k')" "avm_of m vm h n = a'" "vm_bp m vm = vm_bp (ram s) vm"
  shows "vm_running L t vm h n is m0 st' k' a' (s\<lparr>ram := m\<rparr>)"
proof -
  have pl: "vm_placed L t m0 vm h (code_size is) n" "code_size is \<le> n" "n \<le> 32768" using ld by (simp_all add: vm_loaded_def vm_hosts_def)
  have "agrees L t vm h n is m0 m"
    using r out by (simp add: agrees_def vm_running_def vm_private_def)
  moreover have "print_ok L (s\<lparr>ram := m\<rparr>)"
  proof (rule print_ok_ram)
    show "print_ok L s" using r by (simp add: vm_running_def)
    show "m x = ram s x" if x: "inreg (s_itoa_buf L + 1) 65 x \<or> inreg (s_zero L) 2 x" for x
    proof (rule out)
      show "\<not> inreg vm 28 x" using x pl(1) unfolding vm_placed_def by blast
      have "\<not> inreg h n x" using x pl(1) unfolding vm_placed_def by blast
      then show "\<not> inreg (h + of_nat (code_size is)) (n - code_size is) x"
        by (rule contrapos_nn) (erule inreg_sub, use pl(2,3) unat_of_small [of "code_size is"] in simp)
    qed
  qed
  ultimately show ?thesis using assms by (simp add: vm_running_def)
qed

lemma running_quiet:
  assumes ld: "vm_loaded L t m0 vm h n is" and r: "vm_running L t vm h n is m0 st k a s" and "quiet L s s'"
  shows "vm_running L t vm h n is m0 st k a s'"
proof -
  have g: "same_geometry t (tty0 s)" using r by (simp add: vm_running_def)
  have pl: "vm_placed L t m0 vm h (code_size is) n" "n \<le> 32768" using ld by (simp_all add: vm_loaded_def vm_hosts_def)
  have fr: "in_frame (tty0 s) = in_frame t" by (rule in_frame_geometry [OF g])
  have eq: "ram s' x = ram s x" if "\<not> in_frame t x" "\<not> inreg (s_itoa_buf L + 1) 64 x" for x
    using quietD [OF assms(3)] that fr by simp
  then have "agrees L t vm h n is m0 (ram s')"
    using r by (simp add: agrees_def vm_private_def vm_running_def)
  moreover have in28: "ram s' x = ram s x" if "inreg vm 28 x \<or> inreg h n x" for x
  proof (rule eq)
    show "\<not> in_frame t x" using pl(1) that unfolding vm_placed_def by blast
    have "\<not> inreg (s_itoa_buf L + 1) 65 x" using pl(1) that unfolding vm_placed_def by blast
    then show "\<not> inreg (s_itoa_buf L + 1) 64 x" using inreg_mono [of "s_itoa_buf L + 1" 64 x 65] by auto
  qed
  note v = vm_local [of vm "ram s'" "ram s", OF in28 [OF disjI1]]
  have "a_heap (avm_of (ram s') vm h n) = a_heap (avm_of (ram s) vm h n)"
    using in28 [OF disjI2, OF cell_in [OF _ pl(2)]] by (auto simp: fun_eq_iff)
  then have "avm_of (ram s') vm h n = avm_of (ram s) vm h n" using v(1) [of h n] v(2-4) by (simp add: avm_of_def)
  moreover have "print_ok L s'" using r assms(3) quiet_print_ok by (simp add: vm_running_def)
  moreover have "same_geometry t (tty0 s')"
    using g assms(3) by (simp add: quiet_def same_geometry_def)
  ultimately show ?thesis using r v(4-6) by (simp add: vm_running_def)
qed

lemma running_ready:
  assumes ld: "vm_loaded L t m0 vm h n is" and r: "vm_running L t vm h n is m0 st k a s" and k: "k \<le> length is"
  shows "vm_get_instuction (ram s) vm = h + of_nat (10 * k)" and "table_ok L (ram s)"
    and "k < length is \<Longrightarrow> instr_at (ram s) (h + of_nat (10 * k)) (is ! k)"
    and "k = length is \<Longrightarrow> ins_op (ram s) (h + of_nat (10 * k)) = 0"
    and "step_ready (ram s) vm h (code_size is) n (h + of_nat (10 * k))" and "code_size is \<le> n" "n \<le> 32768"
proof -
  have ag: "agrees L t vm h n is m0 (ram s)" "vm_bp (ram s) vm = vm_bp m0 vm" "vm_ip (ram s) vm = of_nat (10 * k)"
    using r by (simp_all add: vm_running_def)
  note l = loaded_keep [OF ld ag(1)]
  show sz: "code_size is \<le> n" "n \<le> 32768" using ld by (simp_all add: vm_loaded_def vm_hosts_def)
  then have "scast (of_nat (10 * k) :: 16 word) = (of_nat (10 * k) :: addr)"
    using k by (intro scast_small) (simp add: code_size_def)
  then show "vm_get_instuction (ram s) vm = h + of_nat (10 * k)"
    unfolding vm_get_instuction_def l(3) ag(3) by (simp del: of_nat_mult)
  show "table_ok L (ram s)" by (rule l(1))
  show "k < length is \<Longrightarrow> instr_at (ram s) (h + of_nat (10 * k)) (is ! k)"
    "k = length is \<Longrightarrow> ins_op (ram s) (h + of_nat (10 * k)) = 0"
    using l(2) by (simp_all add: program_at_def)
  show "step_ready (ram s) vm h (code_size is) n (h + of_nat (10 * k))" by (rule loaded_apart [OF ld ag(1,2) k])
qed

text \<open>The instruction pointer is bumped after every report.\<close>

lemma running_bump:
  assumes ld: "vm_loaded L t m0 vm h n is" and r: "vm_running L t vm h n is m0 st k a s" and k: "k \<le> length is"
  shows "vm_running L t vm h n is m0 st (Suc k) a (with_ram (\<lambda>m. store16 m (vm + 20) (vm_ip m vm + 10)) s)"
proof (rule running_write [OF ld r])
  let ?m = "store16 (ram s) (vm + 20) (vm_ip (ram s) vm + 10)"
  have s: "vm_status (ram s) vm = st" "vm_ip (ram s) vm = of_nat (10 * k)" "avm_of (ram s) vm h n = a"
    using r by (simp_all add: vm_running_def)
  have out: "?m x = ram s x" if "\<not> inreg (vm + 20) 2 x" for x using that by (rule c16.st_outside)
  then show "?m x = ram s x" if "\<not> inreg vm 28 x" for x using inreg_fields(1) [OF that, of 20 2] by simp
  then have in28: "?m x = ram s x" if "\<not> inreg vm 28 x" for x using that by simp
  show "vm_status ?m vm = st" using s by (simp add: vm_status_def mem_simps sep_simps)
  have "vm_ip ?m vm = of_nat (10 * k) + 10" unfolding vm_ip_def [of ?m] c16.ld_st by (simp only: s)
  then show "vm_ip ?m vm = of_nat (10 * Suc k)" by (simp add: algebra_simps)
  note f = running_ready [OF ld r k]
  have ap: "vm_apart (ram s) vm h (code_size is) n" using f(5) by (simp add: step_ready_def)
  have "?m (vm + 12 + 2 * of_nat j) = ram s (vm + 12 + 2 * of_nat j)" if "j < 4" for j
    by (rule out, rule sep_notin [OF _ reg_in [OF that]]) (simp add: sep_simps)
  then have rg: "a_regs (avm_of ?m vm h n) = a_regs (avm_of (ram s) vm h n)" by (auto simp: fun_eq_iff)
  have fl: "vm_flags ?m vm = vm_flags (ram s) vm" "vm_sp ?m vm = vm_sp (ram s) vm"
    by (simp_all add: vm_fields mem_simps sep_simps)
  show bp: "vm_bp ?m vm = vm_bp (ram s) vm" by (simp add: vm_fields mem_simps sep_simps)
  show "avm_of ?m vm h n = a"
    using heap_kept(1) [OF ap f(7) in28] rg fl bp s(3) by (simp add: avm_of_def)
qed

lemma owned_private:
  assumes "owned vm h c n x"
  shows "inreg vm 28 x \<or> inreg (h + of_nat c) (n - c) x"
  using assms inreg_sub [of vm 12 8 x 28] inreg_sub [of vm 22 2 x 28] by (auto simp: owned_def inreg_def)

lemma running_instr:
  assumes ld: "vm_loaded L t m0 vm h n is" and r: "vm_running L t vm h n is m0 st k a s" and k: "k < length is"
    and ty: "instr_type (code_size is) (a_bp a) n (unat (a_sp a)) (is ! k) = Some sp"
  shows "\<exists>s'. vm_run_op L vm s = ret s' \<and> vm_running L t vm h n is m0 st k (avm_step (is ! k) a) s'"
proof -
  let ?p = "h + of_nat (10 * k)" and ?i = "is ! k"
  note f = running_ready [OF ld r less_imp_le [OF k]]
  have i: "instr_at (ram s) ?p ?i" using f(3) k by simp
  have a: "avm_of (ram s) vm h n = a" using r by (simp add: vm_running_def)
  have t: "instr_type (code_size is) (unat (vm_bp (ram s) vm)) n (unat (vm_sp (ram s) vm)) ?i = Some sp"
    using ty a by (auto simp: avm_of_def)
  note op = op_avm [OF f(5,6) i t]
  let ?m = "op_of ?i vm ?p (ram s)"
  have run: "vm_run_op L vm s = ret (s\<lparr>ram := ?m\<rparr>)"
    using run_op_instr [OF f(2), of vm ?i] i unfolding f(1) by simp
  have ap: "vm_apart (ram s) vm h (code_size is) n" using f(5) by (simp add: step_ready_def)
  have far: "?m x = ram s x" if "inreg (vm + j) w x" "unat j + w \<le> 32" "sep (vm + 12) 8 (vm + j) w" "sep (vm + 22) 2 (vm + j) w"
    "sep (vm + 26) 1 (vm + j) w" for j w x
    by (rule op(2), rule owned_far [OF ap f(6,7) inreg_sub [OF that(1,2)]])
      (use sep_notin [OF that(3,1)] sep_notin [OF that(4,1)] sep_notin [OF that(5,1)] in \<open>auto simp: inreg_def\<close>)
  have "vm_running L t vm h n is m0 st k (avm_step ?i a) (s\<lparr>ram := ?m\<rparr>)"
  proof (rule running_write [OF ld r])
    show "?m x = ram s x" if "\<not> inreg vm 28 x" "\<not> inreg (h + of_nat (code_size is)) (n - code_size is) x" for x
      by (rule op(2)) (use that owned_private in blast)
    have "vm_status ?m vm = vm_status (ram s) vm"
      unfolding vm_status_def by (rule c32.ld_local, erule far) (simp_all add: sep_simps)
    then show "vm_status ?m vm = st" using r by (simp add: vm_running_def)
    have "vm_ip ?m vm = vm_ip (ram s) vm"
      unfolding vm_ip_def by (rule c16.ld_local, erule far) (simp_all add: sep_simps)
    then show "vm_ip ?m vm = of_nat (10 * k)" using r by (simp add: vm_running_def)
    show "avm_of ?m vm h n = avm_step ?i a" using op(1) a by simp
    show "vm_bp ?m vm = vm_bp (ram s) vm"
      unfolding vm_bp_def by (rule c16.ld_local, erule far) (simp_all add: sep_simps)
  qed
  with run show ?thesis by blast
qed

lemma status_write:
  assumes "vm_apart m vm h c n" and "n \<le> 32768"
  shows "vm_status (store32 m (vm + 8) v) vm = v" "vm_ip (store32 m (vm + 8) v) vm = vm_ip m vm"
    "vm_bp (store32 m (vm + 8) v) vm = vm_bp m vm" "avm_of (store32 m (vm + 8) v) vm h n = avm_of m vm h n"
    "\<not> inreg vm 28 x \<Longrightarrow> store32 m (vm + 8) v x = m x"
proof -
  let ?m = "store32 m (vm + 8) v"
  show f: "vm_status ?m vm = v" "vm_ip ?m vm = vm_ip m vm" "vm_bp ?m vm = vm_bp m vm"
    by (simp_all add: vm_fields mem_simps sep_simps)
  show out: "?m x = m x" if "\<not> inreg vm 28 x" for x
    by (rule c32.st_outside) (rule inreg_fields(1) [OF that], simp)
  have "?m (vm + 12 + 2 * of_nat r) = m (vm + 12 + 2 * of_nat r)" if "r < 4" for r
    by (rule c32.st_outside, rule sep_notin [OF _ reg_in [OF that]]) (simp add: sep_simps)
  then have "a_regs (avm_of ?m vm h n) = a_regs (avm_of m vm h n)" by (auto simp: fun_eq_iff)
  moreover have "vm_flags ?m vm = vm_flags m vm" "vm_sp ?m vm = vm_sp m vm" by (simp_all add: vm_fields mem_simps sep_simps)
  ultimately show "avm_of ?m vm h n = avm_of m vm h n" using heap_kept(1) [OF assms out] f(3) by (simp add: avm_of_def)
qed

lemma running_status:
  assumes ld: "vm_loaded L t m0 vm h n is" and r: "vm_running L t vm h n is m0 st k a s" and k: "k \<le> length is"
  shows "vm_running L t vm h n is m0 v k a (s\<lparr>ram := store32 (ram s) (vm + 8) v\<rparr>)"
proof -
  have ap: "vm_apart (ram s) vm h (code_size is) n" "n \<le> 32768"
    using running_ready(5,7) [OF ld r k] by (simp_all add: step_ready_def)
  show ?thesis
    by (rule running_write [OF ld r]) (use r in \<open>simp_all add: status_write [OF ap] vm_running_def\<close>)
qed

lemma running_halt:
  assumes ld: "vm_loaded L t m0 vm h n is" and r: "vm_running L t vm h n is m0 st (length is) a s"
  shows "\<exists>s'. vm_run_op L vm s = ret s' \<and> vm_running L t vm h n is m0 VM_DONE (length is) a s'"
proof -
  note f = running_ready [OF ld r order_refl]
  have "vm_run_op L vm s = ret (s\<lparr>ram := store32 (ram s) (vm + 8) VM_DONE\<rparr>)"
    using run_op_entry [OF f(2), of vm 0] f(4) unfolding f(1) by (simp add: op_halt_def)
  then show ?thesis using running_status [OF ld r order_refl] by blast
qed

lemma running_report:
  assumes ld: "vm_loaded L t m0 vm h n is" and r: "vm_running L t vm h n is m0 st k a s"
  shows "\<exists>s'. vm_report L vm s = Some s' \<and> vm_running L t vm h n is m0 st k a s'"
proof -
  have "print_ok L s" using r by (simp add: vm_running_def)
  from printsD [OF prints_vm_report this] show ?thesis using running_quiet [OF ld r] by blast
qed

section \<open>The run\<close>

lemma loop_step:
  assumes ld: "vm_loaded L t m0 vm h n is" and r: "vm_running L t vm h n is m0 VM_RUN k a s" and k: "k \<le> length is"
    and "vm_run_op L vm s = ret s1" and "vm_running L t vm h n is m0 st k a' s1"
  shows "\<exists>s'. vm_running L t vm h n is m0 st (Suc k) a' s' \<and> vm_loop L vm s = vm_loop L vm s'"
proof -
  obtain s2 where s2: "vm_report L vm s1 = Some s2" "vm_running L t vm h n is m0 st k a' s2"
    using running_report [OF ld assms(5)] by blast
  let ?s3 = "with_ram (\<lambda>m. store16 m (vm + 20) (vm_ip m vm + 10)) s2"
  have "vm_loop L vm s = vm_loop L vm ?s3"
    using r assms(4) s2(1) by (subst vm_loop.simps) (simp add: vm_running_def lift_comp_def)
  then show ?thesis using running_bump [OF ld s2(2) k] by blast
qed

lemma loop_runs:
  assumes ld: "vm_loaded L t m0 vm h n is" and "vm_running L t vm h n is m0 VM_RUN k a s" and "k \<le> length is"
    and "prog_type (code_size is) (a_bp a) n (unat (a_sp a)) (drop k is) = Some sp"
  shows "\<exists>s'. vm_loop L vm s = ret s'
    \<and> vm_running L t vm h n is m0 VM_DONE (Suc (length is)) (fold avm_step (drop k is) a) s'
    \<and> unat (a_sp (fold avm_step (drop k is) a)) = sp"
  using assms(2-4)
proof (induction "length is - k" arbitrary: k a s)
  case 0
  then have k: "k = length is" by simp
  obtain s1 where "vm_run_op L vm s = ret s1" "vm_running L t vm h n is m0 VM_DONE k a s1"
    using running_halt [OF ld] 0(2) k by blast
  from loop_step [OF ld 0(2) 0(3) this] obtain s2 where
    s2: "vm_running L t vm h n is m0 VM_DONE (Suc k) a s2" "vm_loop L vm s = vm_loop L vm s2" by blast
  obtain s3 where "vm_report L vm s2 = Some s3" "vm_running L t vm h n is m0 VM_DONE (Suc k) a s3"
    using running_report [OF ld s2(1)] by blast
  moreover have "vm_status (ram s2) vm \<noteq> VM_RUN"
    using s2(1) by (simp add: vm_running_def VM_DONE_def VM_RUN_def)
  ultimately show ?case
    using s2(2) k 0(4) by (intro exI [of _ s3]) (simp add: vm_loop.simps [of L vm s2] lift_comp_def)
next
  case (Suc j)
  then have lt: "k < length is" by simp
  have dr: "drop k is = is ! k # drop (Suc k) is" by (rule Cons_nth_drop_Suc [symmetric, OF lt])
  obtain sp1 where t: "instr_type (code_size is) (a_bp a) n (unat (a_sp a)) (is ! k) = Some sp1"
    "prog_type (code_size is) (a_bp a) n sp1 (drop (Suc k) is) = Some sp"
    using Suc(5) unfolding dr by (auto simp: bind_eq_Some_conv)
  have n: "n \<le> 32768" using ld by (simp add: vm_loaded_def vm_hosts_def)
  obtain s1 where "vm_run_op L vm s = ret s1" "vm_running L t vm h n is m0 VM_RUN k (avm_step (is ! k) a) s1"
    using running_instr [OF ld Suc(3) lt t(1)] by blast
  from loop_step [OF ld Suc(3,4) this] obtain s2 where
    s2: "vm_running L t vm h n is m0 VM_RUN (Suc k) (avm_step (is ! k) a) s2" "vm_loop L vm s = vm_loop L vm s2"
    by blast
  have "j = length is - Suc k" using Suc(2) by simp
  from Suc(1) [OF this s2(1)] lt s2(2) show ?case
    using t(2) step_sp [OF t(1) n] unfolding dr by simp
qed

lemma vm_run_typed:
  assumes ok: "print_ok L s" and ld: "vm_loaded L (tty0 s) (ram s) vm h n is"
    and st: "vm_status (ram s) vm = VM_READY" and ip: "vm_ip (ram s) vm = 0"
    and ty: "prog_type (code_size is) (unat (vm_bp (ram s) vm)) n (unat (vm_sp (ram s) vm)) is = Some sp"
  shows "\<exists>s'. vm_run L vm s = ret s' \<and> avm_of (ram s') vm h n = fold avm_step is (avm_of (ram s) vm h n)
    \<and> vm_status (ram s') vm = VM_DONE \<and> vm_ip (ram s') vm = of_nat (10 * Suc (length is))
    \<and> unat (vm_sp (ram s') vm) = sp \<and> vm_bp (ram s') vm = vm_bp (ram s) vm
    \<and> agrees L (tty0 s) vm h n is (ram s) (ram s') \<and> program_at (ram s') h is"
proof -
  let ?a = "avm_of (ram s) vm h n"
  have "vm_running L (tty0 s) vm h n is (ram s) VM_READY 0 ?a s"
    using assms by (simp add: vm_running_def agrees_def)
  from running_status [OF ld this, of VM_RUN]
  have "vm_running L (tty0 s) vm h n is (ram s) VM_RUN 0 ?a (with_ram (\<lambda>m. store32 m (vm + 8) VM_RUN) s)" by simp
  from loop_runs [OF ld this, of sp] ty obtain s' where s': "vm_run L vm s = ret s'"
    "vm_running L (tty0 s) vm h n is (ram s) VM_DONE (Suc (length is)) (fold avm_step is ?a) s'"
    "unat (a_sp (fold avm_step is ?a)) = sp"
    using st by (auto simp: vm_run_def)
  then have a: "avm_of (ram s') vm h n = fold avm_step is ?a" and ag: "agrees L (tty0 s) vm h n is (ram s) (ram s')"
    by (simp_all add: vm_running_def)
  have "unat (vm_sp (ram s') vm) = sp" using s'(3) unfolding a [symmetric] by simp
  then show ?thesis
    using s'(1,2) a ag loaded_keep(2) [OF ld ag] by (intro exI [of _ s']) (simp add: vm_running_def)
qed

text \<open>C8. Running a machine on a typed straight-line program ended by a halt terminates and
  leaves in the registers, the flags, the stack pointer and the heap what the abstract machine
  computes, with the reports printed between the instructions disturbing neither.\<close>

theorem vm_run_refines:
  assumes "print_ok L s" and "vm_loaded L (tty0 s) (ram s) vm h n is"
    and "vm_status (ram s) vm = VM_READY" and "vm_ip (ram s) vm = 0"
    and "prog_type (code_size is) (unat (vm_bp (ram s) vm)) n (unat (vm_sp (ram s) vm)) is = Some sp"
  shows "\<exists>s'. vm_run L vm s = ret s' \<and> avm_of (ram s') vm h n = fold avm_step is (avm_of (ram s) vm h n)
    \<and> vm_status (ram s') vm = VM_DONE \<and> vm_ip (ram s') vm = of_nat (10 * Suc (length is))"
  using vm_run_typed [OF assms] by blast

text \<open>C9. A typed program is safe: its run returns, without a call through a pointer that is
  none of the operations, with the stack pointer the type foretells and the base pointer it had; it
  writes nothing but the machine's struct, the heap behind the program, the screen and the digit
  buffer, and so still stands in the heap afterwards.\<close>

theorem typed_program_safe:
  assumes "print_ok L s" and "vm_loaded L (tty0 s) (ram s) vm h n is"
    and "vm_status (ram s) vm = VM_READY" and "vm_ip (ram s) vm = 0"
    and "prog_type (code_size is) (unat (vm_bp (ram s) vm)) n (unat (vm_sp (ram s) vm)) is = Some sp"
  shows "\<exists>s'. vm_run L vm s = ret s' \<and> unat (vm_sp (ram s') vm) = sp \<and> vm_bp (ram s') vm = vm_bp (ram s) vm
    \<and> program_at (ram s') h is
    \<and> (\<forall>x. in_frame (tty0 s) x \<or> inreg (s_itoa_buf L + 1) 64 x \<or> inreg vm 28 x
        \<or> inreg (h + of_nat (code_size is)) (n - code_size is) x \<or> ram s' x = ram s x)"
  using vm_run_typed [OF assms] unfolding agrees_def vm_private_def by blast

text \<open>
  A sample machine at 0x300000, its heap's node at 0x300100, its program at 0x300200:
  \<^verbatim>\<open>mov r0 7\<close>, \<^verbatim>\<open>mov &100 r0\<close>, \<^verbatim>\<open>push &100\<close>, \<^verbatim>\<open>hlt\<close>, with the stack from 64 on.
\<close>

definition sample_machine :: mem where
  "sample_machine = vm_ops_init sample_syms (store32 (store32 (store16 (store8
     (store16 (store8 (store8 (store16 (store8 (store16 (store8 (store8 (store16 (store8
     (store8 (store8 (\<lambda>_. 0) 0x101420 48)
     0x300201 1) 0x300202 1) 0x300208 7)
     0x30020B 1) 0x30020C 2) 0x30020E 100) 0x300210 1) 0x300212 0)
     0x300215 2) 0x300216 2) 0x300218 100) 0x30021F 0) 0x300016 64)
     0x30001C 0x300100) 0x300108 0x300200)"

definition sample_instrs :: "instr list" where
  "sample_instrs = [Mov (Reg 0) (Imm 7), Mov (Cell 100) (Reg 0), Push (Cell 100)]"

lemmas sample_machine_simps = sample_machine_def vm_ops_init_def vm_op_register_def Let_def mem_simps sep_simps

lemma sample_loads:
  "ins_op sample_machine 0x300200 = 1" "ins_mask0 sample_machine 0x300200 = 1" "ins_arg0 sample_machine 0x300200 = 0"
  "ins_mask1 sample_machine 0x300200 = 0" "ins_arg1 sample_machine 0x300200 = 7"
  "ins_op sample_machine 0x30020A = 1" "ins_mask0 sample_machine 0x30020A = 2" "ins_arg0 sample_machine 0x30020A = 100"
  "ins_mask1 sample_machine 0x30020A = 1" "ins_arg1 sample_machine 0x30020A = 0"
  "ins_op sample_machine 0x300214 = 2" "ins_mask0 sample_machine 0x300214 = 2" "ins_arg0 sample_machine 0x300214 = 100"
  "ins_op sample_machine 0x30021E = 0"
  by (simp_all add: ins_op_def ins_mask0_def ins_mask1_def ins_arg0_def ins_arg1_def sample_machine_simps)

lemma sample_program: "program_at sample_machine 0x300200 sample_instrs"
  by (auto simp: program_at_def sample_instrs_def less_Suc_eq sample_loads first_at_def second_at_def)

lemma sample_code_size: "code_size sample_instrs = 40"
  by (simp add: code_size_def sample_instrs_def)

lemma sample_machine_fields:
  "vm_status sample_machine 0x300000 = 0" "vm_ip sample_machine 0x300000 = 0"
  "vm_sp sample_machine 0x300000 = 64" "vm_bp sample_machine 0x300000 = 0"
  "vm_heap sample_machine 0x300000 = 0x300100" "vm_heap_address sample_machine 0x300000 = 0x300200"
  "vm_flags sample_machine 0x300000 = 0"
  "load8 sample_machine 0x101341 = 0" "load8 sample_machine 0x101420 = 48" "load8 sample_machine 0x101421 = 0"
  by (simp_all add: vm_fields vm_heap_address_def mp_address_def sample_machine_simps)

lemma sample_table: "table_ok sample_syms sample_machine"
proof -
  have "load32 sample_machine 0x103000 = f_vm_op sample_syms 0" "load32 sample_machine 0x103004 = f_vm_op sample_syms 1"
    "load32 sample_machine 0x103008 = f_vm_op sample_syms 2" "load32 sample_machine 0x10300C = f_vm_op sample_syms 3"
    "load32 sample_machine 0x103010 = f_vm_op sample_syms 4"
    by (simp_all add: sample_machine_simps)
  moreover have "k = 0 \<or> k = 1 \<or> k = 2 \<or> k = 3 \<or> k = 4" if "k < 5" for k :: nat
    using that by arith
  moreover have "{..<5} = {0, 1, 2, 3, 4 :: nat}" by auto
  then have "inj_on (f_vm_op sample_syms) {..<5}" by (simp add: inj_on_def)
  ultimately show ?thesis unfolding table_ok_def by fastforce
qed

lemma sample_typed: "prog_type 40 0 1024 64 sample_instrs = Some 66"
  by (simp add: sample_instrs_def)

lemma sample_loaded: "vm_loaded sample_syms sample_term sample_machine 0x300000 0x300200 1024 sample_instrs"
proof -
  have a: "\<not> in_frame sample_term x" "\<not> inreg 0x101301 65 x" "\<not> inreg 0x101420 2 x" "\<not> inreg 0x101301 64 x"
    if "sep 0xB8000 4000 p n" "sep 0x101301 65 p n" "sep 0x101420 2 p n" "inreg p n x" for p n x
    using sep_notin [OF that(1,4)] sep_notin [OF that(2,4)] sep_notin [OF that(3,4)] inreg_mono [of "0x101301" 64 x 65]
    by (auto simp: in_frame_def frame_bytes_def)
  have pr: "\<not> vm_private sample_syms sample_term 0x300000 0x300200 40 1024 x"
    if "sep 0xB8000 4000 p n" "sep 0x101301 65 p n" "sep 0x101420 2 p n" "sep 0x300000 28 p n" "sep 0x300228 984 p n"
      "inreg p n x" for p n x
    using a [OF that(1-3,6)] sep_notin [OF that(4,6)] sep_notin [OF that(5,6)] by (simp add: vm_private_def)
  have "vm_placed sample_syms sample_term sample_machine 0x300000 0x300200 40 1024"
    unfolding vm_placed_def sample_machine_fields
  proof (intro conjI allI impI; (elim disjE)?)
    fix x
    show "\<not> vm_private sample_syms sample_term 0x300000 0x300200 40 1024 x" if "inreg (0x300000 + 28) 4 x"
      using that by (intro pr [of "0x30001C" 4]) (simp_all add: sep_simps)
    show "\<not> vm_private sample_syms sample_term 0x300000 0x300200 40 1024 x" if "inreg 0x300100 16 x"
      using that by (intro pr [of "0x300100" 16]) (simp_all add: sep_simps)
    show "\<not> vm_private sample_syms sample_term 0x300000 0x300200 40 1024 x" if "inreg 0x300200 40 x"
      using that by (intro pr [of "0x300200" 40]) (simp_all add: sep_simps)
    show "\<not> vm_private sample_syms sample_term 0x300000 0x300200 40 1024 x" if "inreg (s_vm_ops sample_syms) 20 x"
      using that by (intro pr [of "0x103000" 20]) (simp_all add: sep_simps)
    show "\<not> in_frame sample_term x" "\<not> inreg (s_itoa_buf sample_syms + 1) 65 x" "\<not> inreg (s_zero sample_syms) 2 x"
      if "inreg 0x300000 28 x"
      using a [of "0x300000" 28 x] that by (simp_all add: sep_simps)
    show "\<not> in_frame sample_term x" "\<not> inreg (s_itoa_buf sample_syms + 1) 65 x" "\<not> inreg (s_zero sample_syms) 2 x"
      if "inreg 0x300200 1024 x"
      using a [of "0x300200" 1024 x] that by (simp_all add: sep_simps)
    show "\<not> inreg 0x300000 32 x" if "inreg 0x300200 1024 x"
      using sep_notin [of "0x300000" 32 "0x300200" 1024 x] that by (simp add: sep_simps)
  qed
  then show ?thesis
    by (simp add: vm_loaded_def vm_hosts_def sample_machine_fields sample_table sample_program sample_code_size)
qed

lemma sample_ready:
  fixes s
  defines "s \<equiv> sample_state\<lparr>ram := sample_machine\<rparr>"
  shows "print_ok sample_syms s" "vm_loaded sample_syms (tty0 s) (ram s) 0x300000 0x300200 1024 sample_instrs"
    "vm_status (ram s) 0x300000 = VM_READY" "vm_ip (ram s) 0x300000 = 0"
    "prog_type (code_size sample_instrs) (unat (vm_bp (ram s) 0x300000)) 1024 (unat (vm_sp (ram s) 0x300000)) sample_instrs = Some 66"
proof -
  have "sample_machine 0x101341 = 0" "sample_machine 0x101420 = 48" "sample_machine 0x101421 = 0"
    using sample_machine_fields by (simp_all add: load8_def)
  then show "print_ok sample_syms s"
    using sample_screen by (simp add: s_def print_ok_def frame_bytes_def sep_simps)
  show "vm_loaded sample_syms (tty0 s) (ram s) 0x300000 0x300200 1024 sample_instrs" using sample_loaded by (simp add: s_def)
  show "vm_status (ram s) 0x300000 = VM_READY" "vm_ip (ram s) 0x300000 = 0"
    "prog_type (code_size sample_instrs) (unat (vm_bp (ram s) 0x300000)) 1024 (unat (vm_sp (ram s) 0x300000)) sample_instrs = Some 66"
    by (simp_all add: s_def sample_machine_fields VM_READY_def sample_code_size sample_typed)
qed

lemma vm_run_refines_witness:
  "\<exists>s'. vm_run sample_syms 0x300000 (sample_state\<lparr>ram := sample_machine\<rparr>) = ret s'
    \<and> a_regs (avm_of (ram s') 0x300000 0x300200 1024) 0 = 7 \<and> a_heap (avm_of (ram s') 0x300000 0x300200 1024) 64 = 7
    \<and> vm_status (ram s') 0x300000 = VM_DONE"
proof -
  let ?a = "avm_of sample_machine 0x300000 0x300200 1024"
  have b: "a_bp ?a = 0" "a_sp ?a = 64" by (simp_all add: sample_machine_fields)
  have "a_regs (fold avm_step sample_instrs ?a) 0 = 7" "a_heap (fold avm_step sample_instrs ?a) 64 = 7"
    by (simp_all add: sample_instrs_def b del: avm_of_simps)
  moreover obtain s' where "vm_run sample_syms 0x300000 (sample_state\<lparr>ram := sample_machine\<rparr>) = ret s'"
    "avm_of (ram s') 0x300000 0x300200 1024 = fold avm_step sample_instrs ?a" "vm_status (ram s') 0x300000 = VM_DONE"
    using vm_run_refines [OF sample_ready] by (auto simp del: avm_of_simps)
  ultimately show ?thesis by (intro exI [of _ s']) (simp del: avm_of_simps)
qed

lemma typed_program_safe_witness:
  "\<exists>s'. vm_run sample_syms 0x300000 (sample_state\<lparr>ram := sample_machine\<rparr>) = ret s'
    \<and> unat (vm_sp (ram s') 0x300000) = 66 \<and> program_at (ram s') 0x300200 sample_instrs"
  using typed_program_safe [OF sample_ready] by blast

section \<open>Operands and operations\<close>

text \<open>A register or a heap cell reads back what was written to it, but only its low byte:
  the upper half of a 16-bit value is lost.\<close>

theorem vm_write_read:
  assumes "\<not> inreg vm 32 (vm_cell_addr m vm p)" and "\<not> inreg (vm_heap m vm) 16 (vm_cell_addr m vm p)"
  shows "vm_read (vm_write vm 1 r v m) vm 1 r = v AND 0xFF
    \<and> vm_read (vm_write vm 2 p v m) vm 2 p = v AND 0xFF"
proof -
  have b: "ucast (ucast v :: byte) = v AND 0xFF" for v :: "16 word"
    unfolding mask_numerals by (rule bit_eqI) (auto simp: bit_simps)
  define a where "a = vm_cell_addr m vm p"
  let ?m = "store8 m a (ucast v)"
  have eq: "?m x = m x" if "inreg vm 32 x \<or> inreg (vm_heap m vm) 16 x" for x
    using that assms by (auto simp: store8_apply a_def)
  have bp: "vm_bp ?m vm = vm_bp m vm"
    unfolding vm_bp_def by (rule c16.ld_local) (use eq inreg_sub [of vm 24 2 _ 32] in force)
  have hp: "vm_heap ?m vm = vm_heap m vm"
    unfolding vm_heap_def by (rule c32.ld_local) (use eq inreg_sub [of vm 28 4 _ 32] in force)
  have "mp_address ?m (vm_heap m vm) = mp_address m (vm_heap m vm)"
    by (rule mp_local) (use eq in blast)
  then have "vm_cell_addr ?m vm p = a"
    by (simp add: vm_cell_addr_def [of ?m] vm_heap_address_def bp hp)
      (simp add: a_def vm_cell_addr_def vm_heap_address_def)
  then show ?thesis
    by (simp add: vm_read_def vm_write_def c8.ld_st b a_def [symmetric])
qed

lemma vm_write_read_witness:
  "vm_read (vm_write 0x300000 2 64 0x1234 sample_machine) 0x300000 2 64 = 0x34"
proof -
  have "vm_bp sample_machine 0x300000 = 0" by (simp add: vm_fields sample_machine_simps)
  then have c: "vm_cell_addr sample_machine 0x300000 64 = 0x300240"
    by (simp add: vm_cell_addr_def sample_machine_fields)
  show ?thesis
    using vm_write_read [of "0x300000" sample_machine 64 0 "0x1234"]
    by (simp add: c sample_machine_fields inreg_def)
qed

lemma flag_bits:
  "bit FLAG_EQ n \<longleftrightarrow> n = 0" "bit FLAG_GTE n \<longleftrightarrow> n = 1" "bit FLAG_LTE n \<longleftrightarrow> n = 2"
proof -
  have f: "FLAG_EQ = 2 ^ 0" "FLAG_GTE = 2 ^ 1" "FLAG_LTE = 2 ^ 2"
    by (simp_all add: FLAG_EQ_def FLAG_GTE_def FLAG_LTE_def)
  show "bit FLAG_EQ n \<longleftrightarrow> n = 0" "bit FLAG_GTE n \<longleftrightarrow> n = 1" "bit FLAG_LTE n \<longleftrightarrow> n = 2"
    by (simp_all only: f bit_exp_iff possible_bit_word) auto
qed

lemma sint_inj: "sint x = sint y \<longleftrightarrow> x = y" for x y :: "16 word"
proof
  assume "sint x = sint y"
  then have "(word_of_int (sint x) :: 16 word) = word_of_int (sint y)" by (rule arg_cong)
  then show "x = y" by simp
qed simp

lemma set_flag_bit: "n < 8 \<Longrightarrow> bit (set_flag b fl f) n = (if bit fl n then b else bit f n)"
  by (auto simp: set_flag_def bit_simps)

lemma cmp_bit:
  "n < 8 \<Longrightarrow> bit (vm_flags (op_cmp vm i m) vm) n =
     (let a0 = vm_read m vm (ins_mask0 m i) (ins_arg0 m i);
          a1 = vm_read m vm (ins_mask1 m i) (ins_arg1 m i)
      in if n = 2 then a0 \<le>s a1 else if n = 1 then a1 \<le>s a0 else if n = 0 then a0 = a1
         else bit (vm_flags m vm) n)"
proof -
  have f: "vm_flags (update_flags vm g m') vm = g (vm_flags m' vm)" for g m'
    by (simp add: vm_flags_def update_flags_def c8.ld_st)
  show "n < 8 \<Longrightarrow> bit (vm_flags (op_cmp vm i m) vm) n =
     (let a0 = vm_read m vm (ins_mask0 m i) (ins_arg0 m i);
          a1 = vm_read m vm (ins_mask1 m i) (ins_arg1 m i)
      in if n = 2 then a0 \<le>s a1 else if n = 1 then a1 \<le>s a0 else if n = 0 then a0 = a1
         else bit (vm_flags m vm) n)"
    by (simp add: op_cmp_def Let_def f set_flag_bit flag_bits)
qed

text \<open>\<open>op_cmp\<close> sets the three comparison flags to the signed comparison of its operands
  and leaves the other flag bits alone.\<close>

theorem op_cmp_flags:
  "let a0 = vm_read m vm (ins_mask0 m i) (ins_arg0 m i);
       a1 = vm_read m vm (ins_mask1 m i) (ins_arg1 m i);
       f = vm_flags (op_cmp vm i m) vm
   in (bit f 0 \<longleftrightarrow> sint a0 = sint a1) \<and> (bit f 1 \<longleftrightarrow> sint a1 \<le> sint a0) \<and> (bit f 2 \<longleftrightarrow> sint a0 \<le> sint a1)
     \<and> drop_bit 3 f = drop_bit 3 (vm_flags m vm)"
proof -
  have "drop_bit 3 (vm_flags (op_cmp vm i m) vm) = drop_bit 3 (vm_flags m vm)"
  proof (rule bit_eqI)
    fix n
    assume "possible_bit TYPE(byte) n"
    have "bit (vm_flags (op_cmp vm i m) vm) (3 + n) = bit (vm_flags m vm) (3 + n)" if "3 + n < 8"
      using that by (simp add: cmp_bit)
    moreover have "\<not> bit (x :: byte) (3 + n)" if "8 \<le> 3 + n" for x
      using that bit_imp_le_length [of x "3 + n"] by auto
    ultimately show "bit (drop_bit 3 (vm_flags (op_cmp vm i m) vm)) n = bit (drop_bit 3 (vm_flags m vm)) n"
      by (metis bit_drop_bit_eq comp_apply not_le)
  qed
  then show ?thesis
    by (simp add: Let_def cmp_bit word_sle_eq sint_inj)
qed


section \<open>The stack\<close>

text \<open>C34. A pop after a push does not return what was pushed but the byte two above it,
  and leaves the stack pointer one above where it was.\<close>

theorem pop_misses_push:
  assumes r: "step_ready m vm h c n i" "step_ready m vm h c n j"
    and i: "first_at m i x" "reads_ok (unat (vm_bp m vm)) n x" and j: "first_at m j (Reg r)"
    and code: "\<forall>y. inreg j 10 y \<longrightarrow> \<not> owned vm h c n y" and sp: "c \<le> unat (vm_sp m vm)" "unat (vm_sp m vm) + 2 < n"
  shows "a_regs (avm_of (op_pop vm j (op_push vm i m)) vm h n) r = a_heap (avm_of m vm h n) (unat (vm_sp m vm) + 2)
    \<and> vm_sp (op_pop vm j (op_push vm i m)) vm = vm_sp m vm + 1"
proof -
  let ?m = "op_push vm i m" and ?a = "avm_of m vm h n"
  have n: "n \<le> 32768" "c \<le> n" "unat (vm_sp m vm) < n" using r sp by (simp_all add: step_ready_def)
  note p = push_avm [OF r(1) i sp(1) n(3)]
  note k = ready_kept [OF r(2) n(2) p(2)]
  have a: "avm_of ?m vm h n = ?a\<lparr>a_heap := (a_heap ?a)(unat (vm_sp m vm) := ucast (eval_operand ?a x)), a_sp := vm_sp m vm + 2\<rparr>"
    using p(1) by simp
  have s: "vm_sp ?m vm = vm_sp m vm + 2" "unat (vm_sp m vm + 2) = unat (vm_sp m vm) + 2"
    using arg_cong [OF a, of a_sp] n(1) sp(2) by (simp_all add: unat_word_ariths)
  have "?m y = m y" if "inreg j 10 y" for y using p(2) code that by blast
  from ins_fields_local [OF this] have "first_at ?m j (Reg r)" using j by (simp add: first_at_def)
  from pop_avm(1) [OF k(1) n(2) this] have q: "avm_of (op_pop vm j ?m) vm h n =
      assign (Reg r) (a_heap (avm_of ?m vm h n) (unat (vm_sp m vm) + 2)) ((avm_of ?m vm h n)\<lparr>a_sp := vm_sp m vm + 1\<rparr>)"
    using s sp(2) by (simp del: avm_of_simps(1,5))
  show ?thesis using arg_cong [OF q, of a_sp] arg_cong [OF q, of a_regs] unfolding a by (simp del: avm_of_simps(1,5))
qed

text \<open>A second machine: the sample one with the byte 9 two above its stack pointer, about to push and to pop r0.\<close>

definition sample_stack :: mem where
  "sample_stack = store8 sample_machine 0x300242 9"

lemma sample_stack_fields:
  "vm_sp sample_stack 0x300000 = 64" "vm_bp sample_stack 0x300000 = 0" "vm_heap sample_stack 0x300000 = 0x300100"
  "vm_heap_address sample_stack 0x300000 = 0x300200" "ins_mask0 sample_stack 0x300200 = 1" "ins_arg0 sample_stack 0x300200 = 0"
  by (simp_all add: sample_stack_def vm_fields vm_heap_address_def mp_address_def ins_mask0_def ins_arg0_def sample_machine_simps)

lemma pop_misses_push_witness:
  "let m = op_pop 0x300000 0x300200 (op_push 0x300000 0x300200 sample_stack)
   in a_regs (avm_of m 0x300000 0x300200 1024) 0 = 9 \<and> vm_sp m 0x300000 = 65"
proof -
  have far: "\<not> inreg p k x" if "sep p k q l" "inreg q l x" for p q k l x using sep_notin [OF that] .
  have "vm_apart sample_stack 0x300000 0x300200 40 1024"
    unfolding vm_apart_def sample_stack_fields
    using far [of "0x300000" 32 "0x300200" 1024] far [of "0x300000" 28 "0x300100" 16] far [of "0x300228" 984 "0x300100" 16]
    by (auto simp: sep_simps)
  then have r: "step_ready sample_stack 0x300000 0x300200 40 1024 0x300200"
    using far [of "0x300000" 28 "0x300200" 10] by (simp add: step_ready_def sample_stack_fields sep_simps)
  have f: "first_at sample_stack 0x300200 (Reg 0)" by (simp add: first_at_def sample_stack_fields)
  have "\<not> owned 0x300000 0x300200 40 1024 y" if "inreg 0x300200 10 y" for y
    using far [OF _ that, of "0x30000C" 8] far [OF _ that, of "0x300016" 2] far [OF _ that, of "0x30001A" 1]
      far [OF _ that, of "0x300228" 984]
    by (auto simp: owned_def sep_simps inreg_def)
  then have c: "\<forall>y. inreg 0x300200 10 y \<longrightarrow> \<not> owned 0x300000 0x300200 40 1024 y" by blast
  have "sample_stack 0x300242 = 9" by (simp add: sample_stack_def store8_apply)
  then show ?thesis using pop_misses_push [OF r r f _ f c] by (simp add: sample_stack_fields Let_def)
qed

end
