(* ===== verification/Compile_Spec.thy ===== *)
theory Compile_Spec
  imports Host_Spec Vm_Spec
begin

text \<open>
  From the text of a program to its run: what the host assembler writes, put into the heap of a
  machine, computes what the abstract machine computes.
\<close>

section \<open>Programs as text\<close>

primrec source_operand :: "operand \<Rightarrow> h_operand" where
  "source_operand (Imm v) = H_Const (unat v)"
| "source_operand (Reg r) = H_Reg r"
| "source_operand (Cell p) = H_Cell p"
| "source_operand (Via r) = H_At r"

text \<open>The host assembler has no \<open>Cmp\<close>, its table of names ends before it.\<close>

fun source_instr :: "instr \<Rightarrow> h_instr" where
  "source_instr (Mov x y) = (1, [source_operand x, source_operand y])"
| "source_instr (Push x) = (2, [source_operand x])"
| "source_instr (Pop x) = (3, [source_operand x])"
| "source_instr (Cmp x y) = (4, [source_operand x, source_operand y])"

definition source_text :: "instr list \<Rightarrow> byte list" where
  "source_text is = program_text (map source_instr is @ [(0, [])])"

primrec operand_fits :: "operand \<Rightarrow> bool" where
  "operand_fits (Imm v) \<longleftrightarrow> True"
| "operand_fits (Reg r) \<longleftrightarrow> r < 4"
| "operand_fits (Cell p) \<longleftrightarrow> p < 32768"
| "operand_fits (Via r) \<longleftrightarrow> r < 4"

primrec instr_fits :: "instr \<Rightarrow> bool" where
  "instr_fits (Mov x y) \<longleftrightarrow> operand_fits x \<and> operand_fits y"
| "instr_fits (Push x) \<longleftrightarrow> operand_fits x"
| "instr_fits (Pop x) \<longleftrightarrow> operand_fits x"
| "instr_fits (Cmp x y) \<longleftrightarrow> False"

lemma source_operand_ok: "operand_fits x \<Longrightarrow> operand_ok (source_operand x)"
proof (cases x)
  case (Imm v)
  have "unat v < 65536" using unsigned_less [of v] by simp
  then show ?thesis using Imm by simp
qed auto

lemma source_instr_ok: "instr_fits i \<Longrightarrow> instr_ok (source_instr i)"
  by (cases i) (simp_all add: source_operand_ok)

lemma source_operand_at:
  "operand_fits x \<Longrightarrow> operand_at (fst (operand_code (source_operand x))) (snd (operand_code (source_operand x))) x"
  by (cases x) simp_all

section \<open>The file in the heap\<close>

text \<open>The record of an instruction is the instruction.\<close>

lemma source_instr_at:
  assumes "instr_fits i" and "\<And>j. j < 10 \<Longrightarrow> m (p + of_nat j) = host_record x y (instr_code (source_instr i)) ! j"
  shows "instr_at m p i"
  using record_decodes [OF assms(2)] assms(1) source_operand_at
  by (cases i) (auto simp: first_at_def second_at_def Let_def)

lemma source_file:
  fixes x y :: byte
  assumes "\<forall>i \<in> set is. instr_fits i" and "length is < 255" and "fresh hp"
  defines "bytes \<equiv> concat (map (host_record x y) (map instr_code (map source_instr is @ [(0, [])])))"
  shows "host_file gap x y (source_text is) hp = Some bytes" and "length bytes = code_size is"
proof -
  have "map_option fst (host_assemble gap (source_text is) hp) = Some (map instr_code (map source_instr is @ [(0, [])]))"
    unfolding source_text_def by (rule assembled) (use assms(1-3) source_instr_ok in auto)
  then show "host_file gap x y (source_text is) hp = Some bytes"
    by (auto simp: host_file_def bytes_def)
  show "length bytes = code_size is" unfolding bytes_def length_records by (simp add: code_size_def)
qed

lemma file_program:
  assumes "\<forall>i \<in> set is. instr_fits i" and "length is < 255"
  shows "program_at (overlay m h (concat (map (host_record x y) (map instr_code (map source_instr is @ [(0, [])]))))) h is"
proof -
  let ?es = "map instr_code (map source_instr is @ [(0, [])])"
  let ?m = "overlay m h (concat (map (host_record x y) ?es))"
  have r: "?m (h + of_nat (10 * k) + of_nat j) = host_record x y (?es ! k) ! j" if "k \<le> length is" "j < 10" for k j
  proof -
    have "?m (h + of_nat (10 * k + j)) = concat (map (host_record x y) ?es) ! (10 * k + j)"
      by (rule overlay_inside; unfold length_records) (use that assms(2) in simp_all)
    also have "\<dots> = host_record x y (?es ! k) ! j" by (rule nth_records) (use that in simp_all)
    finally show ?thesis by (simp add: add.assoc)
  qed
  have "instr_at ?m (h + of_nat (10 * k)) (is ! k)" if "k < length is" for k
  proof (rule source_instr_at)
    show "instr_fits (is ! k)" using assms(1) that by simp
    show "?m (h + of_nat (10 * k) + of_nat j) = host_record x y (instr_code (source_instr (is ! k))) ! j" if "j < 10" for j
      using r [OF less_imp_le [OF \<open>k < length is\<close>] that] \<open>k < length is\<close> by (simp only: nth_append nth_map length_map map_append if_True)
  qed
  moreover have "ins_op ?m (h + of_nat (10 * length is)) = 0"
    using record_decodes [of ?m "h + of_nat (10 * length is)" x y "?es ! length is", OF r [OF order_refl]]
    by (simp only: nth_append map_append length_map) simp
  ultimately show ?thesis unfolding program_at_def by blast
qed

text \<open>C7. The host assembler turns the text of a program of moves, pushes and pops, on a
  zeroed heap, into a file; with that file in the heap of a machine for which the program is typed,
  the run returns with what the abstract machine computes from the program.\<close>

theorem assembled_runs:
  assumes fits: "\<forall>i \<in> set is. instr_fits i" "length is < 255" and zero: "fresh hp"
    and loaded: "ram s = overlay m h (the (host_file gap x y (source_text is) hp))"
    and machine: "vm_hosts L (tty0 s) (ram s) vm h n (code_size is)" "print_ok L s"
      "vm_status (ram s) vm = VM_READY" "vm_ip (ram s) vm = 0"
    and typed: "prog_type (code_size is) (unat (vm_bp (ram s) vm)) n (unat (vm_sp (ram s) vm)) is = Some sp"
  shows "host_file gap x y (source_text is) hp \<noteq> None
    \<and> (\<exists>s'. vm_run L vm s = ret s' \<and> avm_of (ram s') vm h n = fold avm_step is (avm_of (ram s) vm h n)
      \<and> vm_status (ram s') vm = VM_DONE)"
proof -
  note f = source_file(1) [OF fits zero]
  have "ram s = overlay m h (concat (map (host_record x y) (map instr_code (map source_instr is @ [(0, [])]))))"
    unfolding loaded f option.sel by (rule refl)
  from file_program [OF fits, of m h x y, folded this]
  have "vm_loaded L (tty0 s) (ram s) vm h n is" using machine(1) by (simp add: vm_loaded_def)
  from vm_run_typed [OF machine(2) this machine(3,4) typed] show ?thesis using f by blast
qed

text \<open>The sample program assembled into the heap of the sample machine.\<close>

definition sample_file :: "byte list" where
  "sample_file = the (host_file (\<lambda>_ _. 16) 0 0 (source_text sample_instrs) \<lparr>heap = (\<lambda>_. 0), brk = 0\<rparr>)"

lemma sample_fits: "\<forall>i \<in> set sample_instrs. instr_fits i" "length sample_instrs < 255"
  by (simp_all add: sample_instrs_def)

lemma sample_file_length: "length sample_file = 40"
proof -
  have "fresh \<lparr>heap = (\<lambda>_. 0), brk = 0\<rparr>" by (simp add: fresh_def)
  note f = source_file [OF sample_fits this, where x = 0 and y = 0]
  show ?thesis unfolding sample_file_def f(1) using f(2) by (simp add: sample_code_size)
qed

lemma sample_file_loaded:
  defines "s \<equiv> sample_state\<lparr>ram := overlay sample_machine 0x300200 sample_file\<rparr>"
  shows "vm_hosts sample_syms (tty0 s) (ram s) 0x300000 0x300200 1024 40" "print_ok sample_syms s"
    "vm_status (ram s) 0x300000 = VM_READY" "vm_ip (ram s) 0x300000 = 0" "vm_sp (ram s) 0x300000 = 64"
    "vm_bp (ram s) 0x300000 = 0"
proof -
  let ?m = "overlay sample_machine 0x300200 sample_file"
  have m: "?m x = sample_machine x" if "sep 0x300200 40 a k" "inreg a k x" for a k x
    using sep_notin [OF that] by (simp add: overlay_outside sample_file_length)
  have vm: "?m x = sample_machine x" if "inreg 0x300000 28 x" for x by (rule m [OF _ that]) (simp add: sep_simps)
  note v = vm_local [of "0x300000" ?m sample_machine, OF vm]
  show "vm_status (ram s) 0x300000 = VM_READY" "vm_ip (ram s) 0x300000 = 0" "vm_sp (ram s) 0x300000 = 64" "vm_bp (ram s) 0x300000 = 0"
    by (simp_all add: s_def v sample_machine_fields VM_READY_def)
  have hp: "vm_heap ?m 0x300000 = 0x300100"
  proof -
    have "vm_heap ?m 0x300000 = vm_heap sample_machine 0x300000"
      unfolding vm_heap_def by (rule c32.ld_local, erule m [rotated]) (simp add: sep_simps)
    then show ?thesis by (simp add: sample_machine_fields)
  qed
  have "mp_address ?m 0x300100 = mp_address sample_machine 0x300100"
    by (rule mp_local, erule m [rotated]) (simp add: sep_simps)
  then have "vm_heap_address ?m 0x300000 = vm_heap_address sample_machine 0x300000"
    by (simp add: vm_heap_address_def hp sample_machine_fields)
  moreover have "table_ok sample_syms ?m = table_ok sample_syms sample_machine"
    by (rule table_local, erule m [rotated]) (simp add: sep_simps)
  ultimately show "vm_hosts sample_syms (tty0 s) (ram s) 0x300000 0x300200 1024 40"
    using sample_loaded by (simp add: s_def vm_loaded_def vm_hosts_def vm_placed_def hp sample_machine_fields sample_code_size v)
  have "?m x = sample_machine x" if "inreg 0x101301 65 x \<or> inreg 0x101420 2 x" for x
    using that m [of "0x101301" 65 x] m [of "0x101420" 2 x] by (auto simp: sep_simps)
  from print_ok_ram [OF sample_ready(1), of ?m] this show "print_ok sample_syms s" by (simp add: s_def)
qed

lemma assembled_runs_witness:
  "\<exists>s'. vm_run sample_syms 0x300000 (sample_state\<lparr>ram := overlay sample_machine 0x300200 sample_file\<rparr>) = ret s'
    \<and> vm_status (ram s') 0x300000 = VM_DONE"
proof -
  let ?s = "sample_state\<lparr>ram := overlay sample_machine 0x300200 sample_file\<rparr>"
  note f = sample_file_loaded
  have z: "fresh \<lparr>heap = (\<lambda>_. 0), brk = 0\<rparr>" by (simp add: fresh_def)
  have r: "ram ?s = overlay sample_machine 0x300200
      (the (host_file (\<lambda>_ _. 16) 0 0 (source_text sample_instrs) \<lparr>heap = (\<lambda>_. 0), brk = 0\<rparr>))"
    by (simp add: sample_file_def)
  have t: "prog_type (code_size sample_instrs) (unat (vm_bp (ram ?s) 0x300000)) 1024 (unat (vm_sp (ram ?s) 0x300000)) sample_instrs = Some 66"
    unfolding f(5,6) sample_code_size using sample_typed by simp
  from assembled_runs [OF sample_fits z r f(1) [folded sample_code_size] f(2-4) t] show ?thesis by blast
qed

end
