(* ===== verification/Task.thy ===== *)
theory Task
  imports Report
begin

text \<open>
  The task manager (\<^verbatim>\<open>task.c\<close>) and the context switch it calls (\<^verbatim>\<open>switch.S\<close>). Tasks are structs in
  memory, linked into a ring both ways; the queue holds the first and the last of them.
\<close>

section \<open>Tasks: proc\_t, ctx\_t\<close>

datatype proc_status = SCHEDULE | RUNNING | YIELDING | DONE | INIT | DEINIT | READY

primrec status_code :: "proc_status \<Rightarrow> 32 word" where
  "status_code SCHEDULE = 0"
| "status_code RUNNING = 1"
| "status_code YIELDING = 2"
| "status_code DONE = 3"
| "status_code INIT = 4"
| "status_code DEINIT = 5"
| "status_code READY = 6"

definition proc_status_names :: "string list" where
  "proc_status_names = [''SCHEDULE'', ''RUNNING'', ''YIELDING'', ''DONE'', ''INIT'', ''DEINIT'', ''READY'']"

text \<open>
  \<^verbatim>\<open>proc_t\<close>, 40 bytes: name 0, the five hooks main 4, init 8, deinit 12, yield 16 and schedule 20,
  status 24, ctx 28, prev 32, next 36. \<^verbatim>\<open>ctx_t\<close>, 48 bytes: heap 0, eleven registers from 4.
\<close>

definition proc_name :: "mem \<Rightarrow> addr \<Rightarrow> addr" where "proc_name m p = load32 m p"
definition proc_main :: "mem \<Rightarrow> addr \<Rightarrow> addr" where "proc_main m p = load32 m (p + 4)"
definition proc_init :: "mem \<Rightarrow> addr \<Rightarrow> addr" where "proc_init m p = load32 m (p + 8)"
definition proc_deinit :: "mem \<Rightarrow> addr \<Rightarrow> addr" where "proc_deinit m p = load32 m (p + 12)"
definition proc_yield :: "mem \<Rightarrow> addr \<Rightarrow> addr" where "proc_yield m p = load32 m (p + 16)"
definition proc_schedule :: "mem \<Rightarrow> addr \<Rightarrow> addr" where "proc_schedule m p = load32 m (p + 20)"
definition proc_status :: "mem \<Rightarrow> addr \<Rightarrow> 32 word" where "proc_status m p = load32 m (p + 24)"
definition proc_ctx :: "mem \<Rightarrow> addr \<Rightarrow> addr" where "proc_ctx m p = load32 m (p + 28)"
definition proc_prev :: "mem \<Rightarrow> addr \<Rightarrow> addr" where "proc_prev m p = load32 m (p + 32)"
definition proc_next :: "mem \<Rightarrow> addr \<Rightarrow> addr" where "proc_next m p = load32 m (p + 36)"

definition set_proc_status :: "proc_status \<Rightarrow> addr \<Rightarrow> mem \<Rightarrow> mem" where
  "set_proc_status st p m = store32 m (p + 24) (status_code st)"

definition set_proc_prev :: "mem \<Rightarrow> addr \<Rightarrow> addr \<Rightarrow> mem" where "set_proc_prev m p v = store32 m (p + 32) v"
definition set_proc_next :: "mem \<Rightarrow> addr \<Rightarrow> addr \<Rightarrow> mem" where "set_proc_next m p v = store32 m (p + 36) v"

definition ctx_heap :: "mem \<Rightarrow> addr \<Rightarrow> addr" where "ctx_heap m c = load32 m c"

definition set_ctx_reg :: "addr \<Rightarrow> nat \<Rightarrow> addr \<Rightarrow> mem \<Rightarrow> mem" where
  "set_ctx_reg c k v m = store32 m (c + (4 + 4 * of_nat k)) v"

section \<open>The queue\<close>

text \<open>\<open>call f p\<close> runs the function at address \<open>f\<close> on the task \<open>p\<close>; a null hook is not called.\<close>

type_synonym caller = "addr \<Rightarrow> addr \<Rightarrow> kstate \<Rightarrow> kstate comp"

definition call_hook :: "caller \<Rightarrow> addr \<Rightarrow> addr \<Rightarrow> kstate \<Rightarrow> kstate comp" where
  "call_hook call f p s = (if f \<noteq> 0 then call f p s else ret s)"

definition enqueue :: "addr \<Rightarrow> kstate \<Rightarrow> kstate" where
  "enqueue p s =
     (let q = task_que s;
          s' = (if tq_head q = 0 \<and> tq_tail q = 0
                then s\<lparr>task_que := q\<lparr>tq_head := p, tq_tail := p\<rparr>,
                       ram := set_proc_next (set_proc_prev (ram s) p p) p p\<rparr>
                else s\<lparr>ram := set_proc_next (set_proc_prev (set_proc_next (ram s) p (tq_head q)) p (tq_tail q)) (tq_tail q) p,
                       task_que := q\<lparr>tq_tail := p\<rparr>\<rparr>)
      in s'\<lparr>task_que := (task_que s')\<lparr>tq_tasks := tq_tasks (task_que s') + 1\<rparr>\<rparr>)"

definition task_schedule :: "caller \<Rightarrow> addr \<Rightarrow> kstate \<Rightarrow> kstate comp" where
  "task_schedule call p s =
     (let s = with_ram (set_proc_status SCHEDULE p) s
      in bindc (call_hook call (proc_schedule (ram s) p) p s) (\<lambda>s. ret (enqueue p s)))"

definition task_run :: "caller \<Rightarrow> addr \<Rightarrow> kstate \<Rightarrow> kstate comp" where
  "task_run call p s =
     (let s = with_ram (set_proc_status RUNNING p) s;
          s = s\<lparr>task_que := (task_que s)\<lparr>tq_current := p\<rparr>\<rparr>
      in call_hook call (proc_main (ram s) p) p s)"

definition task_init :: "caller \<Rightarrow> addr \<Rightarrow> kstate \<Rightarrow> kstate comp" where
  "task_init call p s =
     (let s = with_ram (set_proc_status INIT p) s
      in bindc (call_hook call (proc_init (ram s) p) p s) (\<lambda>s. ret (with_ram (set_proc_status READY p) s)))"

text \<open>\<^verbatim>\<open>free\<close> takes a node of the allocator; it is given the node of the heap, and then the context itself.\<close>

definition task_deinit :: "caller \<Rightarrow> syms \<Rightarrow> addr \<Rightarrow> kstate \<Rightarrow> kstate comp" where
  "task_deinit call L p s =
     (let s = with_ram (set_proc_status DEINIT p) s
      in bindc (call_hook call (proc_deinit (ram s) p) p s) (\<lambda>s.
           let s = with_ram (\<lambda>m. free L (ctx_heap m (proc_ctx m p)) m) s;
               s = with_ram (\<lambda>m. free L (proc_ctx m p) m) s
           in ret (with_ram (set_proc_status DONE p) s)))"

definition unlink_task :: "addr \<Rightarrow> mem \<Rightarrow> mem" where
  "unlink_task p m =
     (let prev = proc_prev m p; nxt = proc_next m p;
          m = set_proc_next m prev nxt;
          m = set_proc_prev m nxt prev;
          m = set_proc_next m p 0
      in set_proc_prev m p 0)"

definition task_kill :: "caller \<Rightarrow> syms \<Rightarrow> addr \<Rightarrow> kstate \<Rightarrow> kstate comp" where
  "task_kill call L p s =
     bindc (if proc_status (ram s) p \<noteq> status_code DONE then task_deinit call L p s else ret s)
       (\<lambda>s. ret (with_ram (unlink_task p) s))"

text \<open>
  \<open>sw old new\<close> is the call of \<^verbatim>\<open>switchTask\<close> as its caller sees it: it returns when another task
  switches back, with whatever the others did meanwhile.
\<close>

definition task_yield :: "caller \<Rightarrow> caller \<Rightarrow> addr \<Rightarrow> kstate \<Rightarrow> kstate comp" where
  "task_yield call sw p s =
     (let s = with_ram (set_proc_status YIELDING p) s
      in bindc (call_hook call (proc_yield (ram s) p) p s) (\<lambda>s.
         let nxt = proc_next (ram s) p
         in bindc (sw (proc_ctx (ram s) p) (proc_ctx (ram s) nxt) s) (\<lambda>s.
            ret (with_ram (set_proc_status READY p) s))))"

definition init_ctx :: "addr \<Rightarrow> addr \<Rightarrow> mem \<Rightarrow> mem" where
  "init_ctx c main m =
     (let m = set_ctx_reg c 0 0 m;
          m = set_ctx_reg c 1 0 m;
          m = set_ctx_reg c 2 0 m;
          m = set_ctx_reg c 3 0 m;
          m = set_ctx_reg c 4 0 m;
          m = set_ctx_reg c 5 0 m;
          m = set_ctx_reg c 6 (mp_address m (ctx_heap m c) + 4096) m;
          m = set_ctx_reg c 7 0 m
      in set_ctx_reg c 8 main m)"

definition init_task ::
  "caller \<Rightarrow> syms \<Rightarrow> addr \<Rightarrow> addr \<Rightarrow> addr \<Rightarrow> addr \<Rightarrow> addr \<Rightarrow> addr \<Rightarrow> addr \<Rightarrow> kstate \<Rightarrow> kstate comp" where
  "init_task call L p name main init deinit schedule yield s =
     (let m = store32 (ram s) p name;
          m = store32 m (p + 4) main;
          m = store32 m (p + 8) init;
          m = store32 m (p + 12) deinit;
          m = store32 m (p + 20) schedule;
          m = store32 m (p + 16) yield
      in bindc (malloc L 48 (s\<lparr>ram := m\<rparr>)) (\<lambda>(node, s).
         let s = with_ram (\<lambda>m. store32 m (p + 28) (mp_address m node)) s
         in bindc (malloc L 4096 s) (\<lambda>(heap, s).
            let s = with_ram (\<lambda>m. store32 m (proc_ctx m p) heap) s
            in task_init call p (with_ram (\<lambda>m. init_ctx (proc_ctx m p) main m) s))))"

text \<open>The body of the loop, the task it goes on with next to the state; then the loop.\<close>

definition que_turn :: "caller \<Rightarrow> syms \<Rightarrow> addr \<Rightarrow> kstate \<Rightarrow> (addr \<times> kstate) comp" where
  "que_turn call L current s =
     bindc (lift_comp (term_writestring (proc_name (ram s) current) s)) (\<lambda>s.
     bindc (task_run call current s) (\<lambda>s.
       if proc_status (ram s) current = status_code DONE then
         (let current = proc_next (ram s) current
          in bindc (task_kill call L (proc_prev (ram s) current) s) (\<lambda>s. ret (current, s)))
       else ret (proc_next (ram s) current, s)))"

partial_function (option) run_que_from :: "caller \<Rightarrow> syms \<Rightarrow> addr \<Rightarrow> kstate \<Rightarrow> kstate comp" where
  "run_que_from call L current s =
     (if proc_next (ram s) current \<noteq> 0 then bindc (que_turn call L current s) (\<lambda>r. run_que_from call L (fst r) (snd r))
      else ret s)"

definition run_que :: "caller \<Rightarrow> syms \<Rightarrow> kstate \<Rightarrow> kstate comp" where
  "run_que call L s = run_que_from call L (tq_head (task_que s)) s"

definition task_log_status :: "syms \<Rightarrow> addr \<Rightarrow> kstate \<Rightarrow> kstate option" where
  "task_log_status L p s = do {
     s \<leftarrow> Some (term_writelit ''\<newline>'' s);
     s \<leftarrow> term_writestring (proc_name (ram s) p) s;
     s \<leftarrow> Some (term_writelit '':'' s);
     s \<leftarrow> (let st = proc_status (ram s) p in
            if unat st < 7 then Some (term_writelit (proc_status_names ! unat st) s)
            else term_writestring (load32 (ram s) (s_proc_status_names L + 4 * st)) s);
     Some (term_writelit ''\<newline>'' s) }"

section \<open>The test tasks\<close>

text \<open>\<^verbatim>\<open>itoa(i)\<close> misses its second argument: \<open>base\<close> is what the call finds in its place.\<close>

fun test_task_steps :: "caller \<Rightarrow> caller \<Rightarrow> syms \<Rightarrow> cint \<Rightarrow> addr \<Rightarrow> cint list \<Rightarrow> kstate \<Rightarrow> kstate comp" where
  "test_task_steps call sw L base self [] s = ret s"
| "test_task_steps call sw L base self (i # is) s =
     bindc (lift_comp (do {
         s \<leftarrow> Some (term_writelit ''\<newline>'' s);
         s \<leftarrow> term_writestring (proc_name (ram s) self) s;
         term_writenum L i base s }))
       (\<lambda>s. bindc (task_yield call sw self s) (test_task_steps call sw L base self is))"

definition test_task_A :: "caller \<Rightarrow> caller \<Rightarrow> syms \<Rightarrow> cint \<Rightarrow> addr \<Rightarrow> kstate \<Rightarrow> kstate comp" where
  "test_task_A call sw L base self s =
     bindc (test_task_steps call sw L base self [0, 1, 2, 3, 4] s) (task_kill call L self)"

definition test_task_B :: "caller \<Rightarrow> caller \<Rightarrow> syms \<Rightarrow> cint \<Rightarrow> addr \<Rightarrow> kstate \<Rightarrow> kstate comp" where
  "test_task_B call sw L base self s =
     bindc (test_task_steps call sw L base self [0, 1, 2, 3, 4] s) (task_kill call L self)"

text \<open>\<open>testA\<close> and \<open>testB\<close> are the addresses of its two locals, which the queue goes on pointing at.\<close>

definition init_tasker :: "caller \<Rightarrow> syms \<Rightarrow> addr \<Rightarrow> addr \<Rightarrow> kstate \<Rightarrow> kstate comp" where
  "init_tasker call L testA testB s =
     (let s = s\<lparr>task_que := (task_que s)\<lparr>tq_tasks := 0, tq_head := 0, tq_tail := 0\<rparr>\<rparr>
      in bindc (init_task call L testA (s_literal L ''Task A'') (f_test_task_A L) 0 0 0 0 s) (\<lambda>s.
         bindc (init_task call L testB (s_literal L ''Task B'') (f_test_task_B L) 0 0 0 0 s) (\<lambda>s.
         bindc (task_schedule call testA s) (task_schedule call testB))))"

section \<open>The context switch (switch.S)\<close>

text \<open>
  The flags of a kernel that is not traced: those \<^verbatim>\<open>popf\<close> can load, but for the trap flag, in any
  combination. Of the others bit 1 is set, the reserved ones, the virtual 8086 mode, the resume flag and the
  virtual interrupt flags are clear; no instruction of the kernel sets them.
\<close>

typedef flags = "{w :: 32 word. w AND NOT 0x247ED5 = 2}"
  morphisms flag_word flags_in
  by (rule exI [of _ 2]) simp

lemma flags_code [code abstype]: "flags_in (flag_word f) = f"
  by (rule flag_word_inverse)

definition flags_of :: "32 word \<Rightarrow> flags" where
  "flags_of w = flags_in ((w AND 0x247ED5) OR 2)"

lemma flag_word_of [code abstract]: "flag_word (flags_of w) = (w AND 0x247ED5) OR 2"
  unfolding flags_of_def
  by (rule flags_in_inverse) (simp add: bit.conj_disj_distrib2 and.assoc)

text \<open>
  \<^verbatim>\<open>popf\<close> takes from a word the flags it can load and leaves the others. If it sets the trap flag, the
  processor enters the debug exception after the next instruction: \<open>None\<close>.
\<close>

definition pushf :: "flags \<Rightarrow> 32 word" where
  "pushf f = flag_word f"

definition popf :: "32 word \<Rightarrow> flags option" where
  "popf w = (if w AND 0x100 = 0 then Some (flags_of w) else None)"

lemma popf_pushf [simp]: "popf (pushf f) = Some f"
proof -
  have w: "flag_word f AND NOT 0x247ED5 = 2" using flag_word [of f] by simp
  have "flag_word f AND 0x100 = (flag_word f AND NOT 0x247ED5) AND 0x100" by (simp add: and.assoc)
  then have t: "flag_word f AND 0x100 = 0" unfolding w by simp
  have "(flag_word f AND 0x247ED5) OR (flag_word f AND NOT 0x247ED5) = flag_word f"
    by (simp flip: bit.conj_disj_distrib)
  then have "flags_of (flag_word f) = f" unfolding w by (simp add: flag_word_inject [symmetric] flag_word_of)
  then show ?thesis using t by (simp add: popf_def pushf_def)
qed

record cpu =
  eax :: "32 word"
  ebx :: "32 word"
  ecx :: "32 word"
  edx :: "32 word"
  esi :: "32 word"
  edi :: "32 word"
  esp :: addr
  ebp :: "32 word"
  eip :: addr
  eflags :: flags
  cr3 :: "32 word"

text \<open>
  On entry the stack holds the return address and the two arguments. Everything is pushed, copied
  from there to the first structure, and loaded from the second; the page table register is loaded
  from offset 44, behind the eleven words it was saved in.
\<close>

definition push_all :: "cpu \<Rightarrow> mem \<Rightarrow> mem" where
  "push_all c m =
     (let e = esp c;
          m = store32 m (e - 4) (eax c);
          m = store32 m (e - 8) (ecx c);
          m = store32 m (e - 12) (edx c);
          m = store32 m (e - 16) (ebx c);
          m = store32 m (e - 20) e;
          m = store32 m (e - 24) (ebp c);
          m = store32 m (e - 28) (esi c);
          m = store32 m (e - 32) (edi c);
          m = store32 m (e - 36) (pushf (eflags c))
      in store32 m (e - 40) (cr3 c))"

definition save_regs :: "cpu \<Rightarrow> addr \<Rightarrow> mem \<Rightarrow> mem" where
  "save_regs c old m =
     (let e = esp c;
          m = store32 m (old + 4) (ebx c);
          m = store32 m (old + 8) (ecx c);
          m = store32 m (old + 12) (edx c);
          m = store32 m (old + 16) (esi c);
          m = store32 m (old + 20) (edi c);
          ax = load32 m (e - 4); ip = load32 m e; sp = load32 m (e - 20) + 4;
          bp = load32 m (e - 24); fl = load32 m (e - 36);
          m = store32 m old ax;
          m = store32 m (old + 24) sp;
          m = store32 m (old + 28) bp;
          m = store32 m (old + 32) ip;
          m = store32 m (old + 36) fl;
          pg = load32 m (e - 40);
          m = store32 m (old + 40) pg
      in store32 m (e - 40) pg)"

definition load_regs :: "addr \<Rightarrow> addr \<Rightarrow> mem \<Rightarrow> (cpu \<times> mem) option" where
  "load_regs e new m =
     (let bx = load32 m (new + 4); cx = load32 m (new + 8); dx = load32 m (new + 12);
          si = load32 m (new + 16); di = load32 m (new + 20); bp = load32 m (new + 28);
          m = store32 m (e - 44) new;
          fl = load32 m (new + 36);
          m = store32 m (e - 48) fl
      in case popf fl of None \<Rightarrow> None
         | Some f \<Rightarrow>
             (let sp = load32 m (new + 24);
                  m = store32 m (sp - 4) new;
                  pg = load32 m (new + 44);
                  ip = load32 m (new + 32);
                  m = store32 m (sp - 4) ip;
                  ax = load32 m new
              in Some (\<lparr>eax = ax, ebx = bx, ecx = cx, edx = dx, esi = si, edi = di, esp = sp, ebp = bp,
                   eip = load32 m (sp - 4), eflags = f, cr3 = pg\<rparr>, m)))"

definition switchTask :: "cpu \<Rightarrow> mem \<Rightarrow> (cpu \<times> mem) option" where
  "switchTask c m =
     (let m = push_all c m;
          m = save_regs c (load32 m (esp c + 4)) m
      in load_regs (esp c) (load32 m (esp c + 8)) m)"

end
