(* ===== verification/Task_Spec.thy ===== *)
theory Task_Spec
  imports Task
begin

text \<open>
  What the task queue promises: the tasks form a ring in the order they were scheduled. Proved for
  every history of scheduling and killing tasks; and what a first switch to a new task does.
\<close>

section \<open>Fields of tasks after writes\<close>

named_theorems proc_simps \<open>links and status of tasks after writes to those of tasks\<close>

lemma proc_same [proc_simps]:
  "proc_next (set_proc_next m p v) p = v" "proc_next (set_proc_prev m p v) p = proc_next m p"
  "proc_prev (set_proc_next m p v) p = proc_prev m p" "proc_prev (set_proc_prev m p v) p = v"
  "proc_next (set_proc_status st p m) p = proc_next m p" "proc_prev (set_proc_status st p m) p = proc_prev m p"
  "proc_status (set_proc_status st p m) p = status_code st"
  "proc_status (set_proc_next m p v) p = proc_status m p" "proc_status (set_proc_prev m p v) p = proc_status m p"
  by (simp_all add: proc_next_def proc_prev_def proc_status_def set_proc_next_def set_proc_prev_def
      set_proc_status_def mem_simps sep_simps)

lemma set_proc_outside:
  assumes "\<not> inreg p 40 x"
  shows "set_proc_next m p v x = m x" "set_proc_prev m p v x = m x" "set_proc_status st p m x = m x"
  using inreg_fields(1) [OF assms, of 36 4] inreg_fields(1) [OF assms, of 32 4] inreg_fields(1) [OF assms, of 24 4]
  by (simp_all add: set_proc_next_def set_proc_prev_def set_proc_status_def c32.st_outside)

lemma proc_local:
  assumes "\<And>x. inreg p 40 x \<Longrightarrow> m x = m' x"
  shows "proc_next m p = proc_next m' p" "proc_prev m p = proc_prev m' p" "proc_status m p = proc_status m' p"
    "proc_main m p = proc_main m' p" "proc_schedule m p = proc_schedule m' p"
  unfolding proc_next_def proc_prev_def proc_status_def proc_main_def proc_schedule_def
  by (rule c32.ld_local, rule assms, erule inreg_sub, simp)+

interpretation tnx: linked proc_next set_proc_next 40
  by unfold_locales (auto simp: proc_simps set_proc_outside intro: proc_local)

interpretation tpr: linked proc_prev set_proc_prev 40
  by unfold_locales (auto simp: proc_simps set_proc_outside intro: proc_local)

lemma proc_other [proc_simps]:
  assumes "sep p 40 q 40"
  shows "proc_next (set_proc_prev m p v) q = proc_next m q" "proc_next (set_proc_next m p v) q = proc_next m q"
    "proc_prev (set_proc_prev m p v) q = proc_prev m q" "proc_prev (set_proc_next m p v) q = proc_prev m q"
    "proc_next (set_proc_status st p m) q = proc_next m q" "proc_prev (set_proc_status st p m) q = proc_prev m q"
    "proc_status (set_proc_prev m p v) q = proc_status m q" "proc_status (set_proc_next m p v) q = proc_status m q"
  using assms set_proc_outside
  by (auto intro!: tnx.nxt_frame [OF assms] tpr.nxt_frame [OF assms] proc_local(3) dest: sep_notin)

section \<open>The ring\<close>

text \<open>
  Every task points at the next, the last at the first; every task but the first points back at
  the one before. The first points back at itself, for \<open>task_schedule\<close> does not update it.
\<close>

definition task_ring :: "kstate \<Rightarrow> addr list \<Rightarrow> bool" where
  "task_ring s ps \<longleftrightarrow>
     (case ps of [] \<Rightarrow> tq_head (task_que s) = 0 \<and> tq_tail (task_que s) = 0
      | h # qs \<Rightarrow> tq_head (task_que s) = h \<and> tq_tail (task_que s) = last ps
          \<and> path (proc_next (ram s)) h ps h \<and> backs (proc_prev (ram s)) h (h # qs))
     \<and> 0 \<notin> set ps \<and> distinct ps \<and> nodes_sep 40 ps"

lemma ring_keep:
  assumes "task_ring s ps" and "tq_head (task_que s') = tq_head (task_que s)"
    and "tq_tail (task_que s') = tq_tail (task_que s)"
    and "\<And>q. q \<in> set ps \<Longrightarrow> proc_next (ram s') q = proc_next (ram s) q \<and> proc_prev (ram s') q = proc_prev (ram s) q"
  shows "task_ring s' ps"
  using assms path_cong [of ps "proc_next (ram s')" "proc_next (ram s)"]
    backs_cong [of ps "proc_prev (ram s')" "proc_prev (ram s)"]
  by (auto simp: task_ring_def split: list.splits)

text \<open>Nothing a ring is made of has changed between two states.\<close>

definition same_links :: "addr list \<Rightarrow> kstate \<Rightarrow> kstate \<Rightarrow> bool" where
  "same_links ps s s' \<longleftrightarrow> tq_head (task_que s') = tq_head (task_que s) \<and> tq_tail (task_que s') = tq_tail (task_que s)
     \<and> (\<forall>q \<in> set ps. proc_next (ram s') q = proc_next (ram s) q \<and> proc_prev (ram s') q = proc_prev (ram s) q)"

lemma same_links_refl [simp]: "same_links ps s s"
  by (simp add: same_links_def)

lemma same_links_trans: "same_links ps s s' \<Longrightarrow> same_links ps s' s'' \<Longrightarrow> same_links ps s s''"
  by (simp add: same_links_def)

lemma ring_same: "task_ring s ps \<Longrightarrow> same_links ps s s' \<Longrightarrow> task_ring s' ps"
  by (rule ring_keep) (simp_all add: same_links_def)

lemma ring_frame:
  assumes "task_ring s ps" and "task_que s' = task_que s"
    and "\<And>q x. q \<in> set ps \<Longrightarrow> inreg q 40 x \<Longrightarrow> ram s' x = ram s x"
  shows "task_ring s' ps"
proof (rule ring_keep [OF assms(1)])
  show "proc_next (ram s') q = proc_next (ram s) q \<and> proc_prev (ram s') q = proc_prev (ram s) q" if "q \<in> set ps" for q
    using proc_local(1,2) [of q "ram s'" "ram s"] assms(3) [OF that] by blast
qed (simp_all add: assms(2))

lemma enqueue_ring:
  assumes r: "task_ring s ps" and p: "p \<noteq> 0" "p \<notin> set ps" "nodes_sep 40 (p # ps)"
  shows "task_ring (enqueue p s) (ps @ [p])"
proof (cases ps)
  case Nil
  then show ?thesis
    using r p by (simp add: task_ring_def enqueue_def Let_def proc_simps)
next
  case (Cons h qs)
  let ?t = "last ps"
  define m1 where "m1 = set_proc_prev (set_proc_next (ram s) p h) p ?t"
  define m2 where "m2 = set_proc_next m1 ?t p"
  have h: "h \<noteq> 0" "tq_head (task_que s) = h" "tq_tail (task_que s) = ?t"
    "path (proc_next (ram s)) h ps h" "backs (proc_prev (ram s)) h ps" "distinct ps" "0 \<notin> set ps"
    using r Cons by (auto simp: task_ring_def)
  have e: "ram (enqueue p s) = m2" "tq_head (task_que (enqueue p s)) = h" "tq_tail (task_que (enqueue p s)) = p"
    using h by (simp_all add: enqueue_def Let_def m1_def m2_def)
  have ps: "ps = butlast ps @ [?t]" "?t \<in> set ps" using Cons by simp_all
  have s: "sep p 40 q 40" if "q \<in> set ps" for q
    using that p(2) by (intro nodes_sepD [OF p(3)]) auto
  have m1: "proc_next m1 q = proc_next (ram s) q" "proc_prev m1 q = proc_prev (ram s) q" if "q \<in> set ps" for q
    using s [OF that] by (simp_all add: m1_def proc_simps)
  have "path (proc_next m1) h (butlast ps @ [?t]) h"
    using h(4) path_cong [of ps "proc_next m1" "proc_next (ram s)"] m1(1) ps(1) by simp
  then have "path (proc_next m2) h (butlast ps @ [?t, p]) h"
    unfolding m2_def
  proof (rule tnx.path_extend)
    show "proc_next m1 p = h" by (simp add: m1_def proc_simps)
    have "distinct (ps @ [p])" using h(6) p(2) by simp
    then show "distinct (butlast ps @ [?t, p])" using ps(1) by (metis append.assoc append_Cons append_Nil)
    show "nodes_sep 40 (butlast ps @ [?t, p])"
      by (rule nodes_sep_subset [OF p(3)]) (use ps(2) in \<open>auto dest: in_set_butlastD\<close>)
  qed
  then have path: "path (proc_next m2) h (ps @ [p]) h"
    using ps(1) by (metis append.assoc append_Cons append_Nil)
  have prev: "proc_prev m2 q = proc_prev m1 q" if "q \<in> set (p # ps)" for q
    using that s [OF ps(2)] nodes_sepD [OF p(3), of ?t q] ps(2)
    by (cases "q = ?t") (auto simp: m2_def proc_simps sep_sym)
  have "backs (proc_prev m2) h ps"
    using h(5) backs_cong [of ps "proc_prev m2" "proc_prev (ram s)"] prev m1(2) by simp
  moreover have "proc_prev m2 p = ?t" using prev [of p] by (simp add: m1_def proc_simps)
  ultimately have "backs (proc_prev m2) h (ps @ [p])"
    using Cons by (simp add: backs_append)
  moreover have "nodes_sep 40 (ps @ [p])" by (rule nodes_sep_subset [OF p(3)]) auto
  ultimately show ?thesis
    using Cons path e h p(1,2) by (auto simp: task_ring_def)
qed

lemma unlink_ring:
  assumes r: "task_ring s (us @ p # vs)" and ne: "us \<noteq> []" "vs \<noteq> []"
  shows "task_ring (with_ram (unlink_task p) s) (us @ vs)"
proof -
  obtain us' a where us: "us = us' @ [a]" using ne(1) by (cases us rule: rev_cases) auto
  obtain b vs' where vs: "vs = b # vs'" using ne(2) by (cases vs) auto
  let ?ps = "us @ p # vs"
  obtain h hs where hd: "?ps = h # hs" using ne(1) by (cases us) auto
  then have hd_us: "hd us = h" using ne(1) by (cases us) auto
  have h: "tq_head (task_que s) = h" "tq_tail (task_que s) = last ?ps"
    "path (proc_next (ram s)) h ?ps h" "backs (proc_prev (ram s)) h ?ps" "distinct ?ps" "0 \<notin> set ?ps" "nodes_sep 40 ?ps"
    using r hd unfolding task_ring_def by simp_all
  have "proc_next (ram s) p = b" using h(3) vs by (auto simp: path_append)
  moreover have "proc_prev (ram s) p = a" using h(4) us by (simp add: backs_append)
  ultimately have links: "proc_next (ram s) p = b" "proc_prev (ram s) p = a" by simp_all
  have s: "sep x 40 y 40" if "x \<in> set ?ps" "y \<in> set ?ps" "x \<noteq> y" for x y
    by (rule nodes_sepD [OF h(7) that])
  define m1 where "m1 = set_proc_next (ram s) a b"
  define m2 where "m2 = set_proc_prev m1 b a"
  define m3 where "m3 = set_proc_prev (set_proc_next m2 p 0) p 0"
  have m3: "unlink_task p (ram s) = m3" by (simp add: unlink_task_def Let_def links m1_def m2_def m3_def)
  have ab: "a \<in> set ?ps" "b \<in> set ?ps" "p \<in> set ?ps" "a \<noteq> b" "a \<noteq> p" "b \<noteq> p"
    using h(5) us vs by auto
  have nx: "proc_next m3 q = proc_next m1 q" if "q \<in> set (us @ vs)" for q
  proof -
    have q: "q \<in> set ?ps" "q \<noteq> p" using that h(5) by auto
    then have "sep p 40 q 40" using s ab(3) by blast
    then have "proc_next m3 q = proc_next m2 q" by (simp add: m3_def proc_simps)
    also have "\<dots> = proc_next m1 q"
      using s [OF ab(2) q(1)] by (cases "q = b") (simp_all add: m2_def proc_simps)
    finally show ?thesis .
  qed
  have pv: "proc_prev m3 q = (if q = b then a else proc_prev (ram s) q)" if "q \<in> set (us @ vs)" for q
  proof -
    have q: "q \<in> set ?ps" "q \<noteq> p" using that h(5) by auto
    then have "sep p 40 q 40" using s ab(3) by blast
    then have "proc_prev m3 q = proc_prev m2 q" by (simp add: m3_def proc_simps)
    also have "\<dots> = (if q = b then a else proc_prev m1 q)"
      using s [OF ab(2) q(1)] by (simp add: m2_def proc_simps)
    also have "proc_prev m1 q = proc_prev (ram s) q"
      using s [OF ab(1) q(1)] by (cases "q = a") (simp_all add: m1_def proc_simps)
    finally show ?thesis .
  qed
  have "path (proc_next m1) h (us' @ a # vs) h"
    using tnx.path_unlink [of "ram s" h us' a p vs h] h(3,5,7) us links(1) by (simp add: m1_def)
  then have "path (proc_next m3) h (us @ vs) h"
    using path_cong [of "us @ vs" "proc_next m3" "proc_next m1"] nx us by simp
  moreover have "backs (proc_prev m3) h (us @ vs)"
  proof -
    have "b \<notin> set us" "b \<notin> set vs'" using h(5) vs by auto
    then have "backs (proc_prev m3) h us = backs (proc_prev (ram s)) h us"
      "backs (proc_prev m3) b vs' = backs (proc_prev (ram s)) b vs'"
      using pv vs by (auto intro!: backs_cong)
    moreover have "proc_prev m3 b = a" using pv [of b] vs by simp
    ultimately show ?thesis using h(4) us vs by (simp add: backs_append)
  qed
  moreover have "nodes_sep 40 (us @ vs)" by (rule nodes_sep_subset [OF h(7)]) auto
  ultimately show ?thesis
    using h hd_us ne m3 by (cases us) (auto simp: task_ring_def)
qed

section \<open>Histories\<close>

text \<open>
  The states the queue can be in: empty; after scheduling a task that is not queued; after killing a task
  that is neither the first nor the last, ended already or not; and whatever the rest of the kernel does
  without touching the links of the tasks. The hooks of the two operations, and the clean-up of a task that
  has not ended, leave the links alone as well. Killing the first or the last task is left out: \<open>task_kill\<close>
  does not move the head or the tail of the queue, and what is left is no ring.
\<close>

inductive task_history :: "caller \<Rightarrow> syms \<Rightarrow> kstate \<Rightarrow> addr list \<Rightarrow> bool" for call L where
  start: "tq_head (task_que s) = 0 \<Longrightarrow> tq_tail (task_que s) = 0 \<Longrightarrow> task_history call L s []"
| scheduled: "task_history call L s ps \<Longrightarrow> p \<noteq> 0 \<Longrightarrow> p \<notin> set ps \<Longrightarrow> nodes_sep 40 (p # ps) \<Longrightarrow>
    s0 = with_ram (set_proc_status SCHEDULE p) s \<Longrightarrow> call_hook call (proc_schedule (ram s0) p) p s0 = ret s1 \<Longrightarrow>
    same_links ps s0 s1 \<Longrightarrow> task_schedule call p s = ret s' \<Longrightarrow> task_history call L s' (ps @ [p])"
| killed: "task_history call L s (us @ p # vs) \<Longrightarrow> us \<noteq> [] \<Longrightarrow> vs \<noteq> [] \<Longrightarrow>
    (if proc_status (ram s) p \<noteq> status_code DONE then task_deinit call L p s else ret s) = ret s1 \<Longrightarrow>
    same_links (us @ p # vs) s s1 \<Longrightarrow> task_kill call L p s = ret s' \<Longrightarrow> task_history call L s' (us @ vs)"
| elsewhere: "task_history call L s ps \<Longrightarrow> same_links ps s s' \<Longrightarrow> task_history call L s' ps"

lemma schedule_plain:
  "proc_schedule (ram s) p = 0 \<Longrightarrow>
     task_schedule call p s = ret (enqueue p (with_ram (set_proc_status SCHEDULE p) s))"
  by (simp add: task_schedule_def call_hook_def proc_schedule_def set_proc_status_def mem_simps sep_simps)

lemma status_ring:
  assumes "task_ring s ps" and "p \<in> set ps \<or> nodes_sep 40 (p # ps)"
  shows "task_ring (with_ram (set_proc_status st p) s) ps"
proof (rule ring_keep [OF assms(1)])
  fix q
  assume q: "q \<in> set ps"
  have "nodes_sep 40 ps" using assms(1) by (simp add: task_ring_def)
  then have "q = p \<or> sep p 40 q 40"
    using assms(2) q nodes_sepD [of 40 ps p q] nodes_sepD [of 40 "p # ps" p q] by auto
  then show "proc_next (ram (with_ram (set_proc_status st p) s)) q = proc_next (ram s) q
      \<and> proc_prev (ram (with_ram (set_proc_status st p) s)) q = proc_prev (ram s) q"
    by (auto simp: proc_simps)
qed simp_all

lemma history_ring:
  assumes "task_history call L s ps"
  shows "task_ring s ps"
  using assms
proof (induction rule: task_history.induct)
  case (start s)
  then show ?case by (simp add: task_ring_def nodes_sep_def)
next
  case (scheduled s ps p s0 s1 s')
  have "task_ring s0 ps" unfolding scheduled(5) using scheduled by (intro status_ring) auto
  then have "task_ring s1 ps" using scheduled(7) by (rule ring_same)
  moreover have "s' = enqueue p s1" using scheduled(5,6,8) by (simp add: task_schedule_def)
  ultimately show ?case using scheduled enqueue_ring by auto
next
  case (killed s us p vs s1 s')
  have "task_ring s1 (us @ p # vs)" using killed by (blast intro: ring_same)
  moreover have "s' = with_ram (unlink_task p) s1" using killed(4,6) unfolding task_kill_def by simp
  ultimately show ?case using unlink_ring [of s1 us p vs] killed by simp
next
  case (elsewhere s ps s')
  then show ?case by (blast intro: ring_same)
qed

text \<open>C10. From the empty queue, over any history of scheduling new tasks and of killing tasks
  other than the first and the last, whose hooks and clean-up leave the links alone, the tasks form a ring
  through their \<open>next\<close> links in the order they were scheduled, from the head of the queue by its tail back to
  the head, and the \<open>prev\<close> links, that of the head excepted, run the other way.\<close>

theorem task_history_ring:
  assumes "task_history call L s ps"
  shows "task_ring s ps"
  using assms by (rule history_ring)

lemma two_tasks:
  "\<exists>s. task_history call sample_syms s [0x200000, 0x200100]"
proof -
  have e: "task_history call sample_syms sample_state []"
    by (rule task_history.start) (simp_all add: sample_state_def)
  obtain s1 where s1: "task_schedule call 0x200000 sample_state = ret s1"
    "proc_schedule (ram s1) 0x200100 = 0"
  proof -
    have z: "proc_schedule (ram sample_state) 0x200000 = 0" "proc_schedule (ram sample_state) 0x200100 = 0"
      by (simp_all add: proc_schedule_def)
    let ?s = "enqueue 0x200000 (with_ram (set_proc_status SCHEDULE 0x200000) sample_state)"
    have "proc_schedule (ram ?s) 0x200100 = 0"
      by (simp add: enqueue_def Let_def proc_schedule_def set_proc_next_def set_proc_prev_def
          set_proc_status_def sample_state_def mem_simps sep_simps)
    then show ?thesis using that schedule_plain [OF z(1)] by blast
  qed
  have t1: "task_history call sample_syms s1 ([] @ [0x200000])"
    by (rule task_history.scheduled [OF e _ _ _ refl _ same_links_refl s1(1)])
      (simp_all add: same_links_def nodes_sep_def proc_schedule_def call_hook_def set_proc_status_def mem_simps sep_simps)
  obtain s2 where s2: "task_schedule call 0x200100 s1 = ret s2" using schedule_plain [OF s1(2)] by blast
  have "task_history call sample_syms s2 ([0x200000] @ [0x200100])"
    by (rule task_history.scheduled [OF _ _ _ _ refl _ same_links_refl s2])
      (use t1 s1(2) in \<open>simp_all add: same_links_def nodes_sep_def proc_schedule_def call_hook_def set_proc_status_def mem_simps sep_simps\<close>)
  then show ?thesis by auto
qed

lemma task_history_ring_witness:
  "\<exists>s. task_ring s [0x200000, 0x200100] \<and> proc_next (ram s) 0x200100 = 0x200000"
proof -
  obtain s where "task_history (\<lambda>f p s. ret s) sample_syms s [0x200000, 0x200100]" using two_tasks by blast
  from task_history_ring [OF this] show ?thesis by (intro exI [of _ s]) (simp add: task_ring_def)
qed

section \<open>Running the queue\<close>

definition que_live :: "kstate \<Rightarrow> addr list \<Rightarrow> bool" where
  "que_live s ps \<longleftrightarrow> task_ring s ps \<and> geometry_ok (tty0 s) \<and> cursor_ok (tty0 s)
     \<and> (\<forall>q \<in> set ps. sep (t_buffer (tty0 s)) (frame_bytes (tty0 s)) q 40)"

lemma term_write_from_frame:
  "geometry_ok (tty0 s) \<Longrightarrow> cursor_ok (tty0 s) \<Longrightarrow>
     term_frame s (term_write_from data n i s) \<and> cursor_ok (tty0 (term_write_from data n i s))"
proof (induction data n i s rule: term_write_from.induct)
  case (1 data n i s)
  show ?case
  proof (cases "i < n")
    case False
    then show ?thesis using 1(2,3) by (subst (1 2) term_write_from.simps) simp
  next
    case True
    let ?s = "term_putchar (load8 (ram s) (data + i)) s"
    have "term_frame ?s (term_write_from data n (i + 1) ?s) \<and> cursor_ok (tty0 (term_write_from data n (i + 1) ?s))"
      by (rule 1(1) [OF True]) (use 1(2,3) tp.put_geometry tp.put_cursor in blast)+
    moreover have "term_write_from data n i s = term_write_from data n (i + 1) ?s"
      using True by (subst term_write_from.simps) simp
    ultimately show ?thesis
      using term_frame_trans [OF tp.put_frame [OF 1(2,3)]] by metis
  qed
qed

lemma write_live:
  assumes "que_live s ps" and "term_writestring a s = Some s'"
  shows "que_live s' ps"
proof -
  have l: "task_ring s ps" "geometry_ok (tty0 s)" "cursor_ok (tty0 s)"
    "\<forall>q \<in> set ps. sep (t_buffer (tty0 s)) (frame_bytes (tty0 s)) q 40"
    using assms(1) by (simp_all add: que_live_def)
  obtain n where "s' = term_write_from a n 0 s"
    using assms(2) by (auto simp: term_writestring_def split: option.splits)
  then have f: "term_frame s s'" "cursor_ok (tty0 s')"
    using term_write_from_frame [OF l(2,3)] by auto
  then have g: "same_geometry (tty0 s) (tty0 s')" "geometry_ok (tty0 s')"
    using term_frame_geometry [OF f(1) l(2)] by (auto simp: term_frame_def)
  have "task_ring s' ps"
  proof (rule ring_frame [OF l(1)])
    show "task_que s' = task_que s" using f(1) by (simp add: term_frame_def rest_def)
    show "ram s' x = ram s x" if "q \<in> set ps" "inreg q 40 x" for q x
      using f(1) l(4) that sep_notin by (auto simp: term_frame_def in_frame_def)
  qed
  then show ?thesis
    using f g l(4) by (simp add: que_live_def same_geometry_def frame_bytes_def)
qed

lemma run_live:
  assumes "que_live s ps" and "p \<in> set ps"
  defines "s' \<equiv> (with_ram (set_proc_status RUNNING p) s)\<lparr>task_que := (task_que s)\<lparr>tq_current := p\<rparr>\<rparr>"
  shows "que_live s' ps" and "proc_status (ram s') p = status_code RUNNING"
proof -
  have "task_ring (with_ram (set_proc_status RUNNING p) s) ps"
    using assms(1,2) by (intro status_ring) (simp_all add: que_live_def)
  then have "task_ring s' ps"
    by (rule ring_keep) (simp_all add: s'_def)
  then show "que_live s' ps" using assms(1) by (simp add: que_live_def s'_def)
  show "proc_status (ram s') p = status_code RUNNING" by (simp add: s'_def proc_simps)
qed

text \<open>A main function that comes back without having ended its task or touched the queue.\<close>

definition mains_return :: "caller \<Rightarrow> addr list \<Rightarrow> bool" where
  "mains_return call ps \<longleftrightarrow>
     (\<forall>f p s. p \<in> set ps \<longrightarrow> que_live s ps \<longrightarrow> proc_status (ram s) p = status_code RUNNING \<longrightarrow>
        (\<exists>s'. call f p s = ret s' \<and> que_live s' ps \<and> proc_status (ram s') p \<noteq> status_code DONE))"

lemma task_run_live:
  assumes "mains_return call ps" and "que_live s ps" and "p \<in> set ps"
  shows "\<exists>s'. task_run call p s = ret s' \<and> que_live s' ps \<and> proc_status (ram s') p \<noteq> status_code DONE"
proof -
  let ?s = "(with_ram (set_proc_status RUNNING p) s)\<lparr>task_que := (task_que s)\<lparr>tq_current := p\<rparr>\<rparr>"
  note r = run_live [OF assms(2,3)]
  have t: "task_run call p s = call_hook call (proc_main (ram ?s) p) p ?s" by (simp add: task_run_def Let_def)
  show ?thesis
  proof (cases "proc_main (ram ?s) p = 0")
    case True
    then show ?thesis using r t by (simp add: call_hook_def)
  next
    case False
    then show ?thesis
      using assms(1,3) r t unfolding mains_return_def call_hook_def by presburger
  qed
qed

lemma ring_successor:
  assumes "task_ring s ps" and "p \<in> set ps"
  shows "proc_next (ram s) p \<noteq> 0" "proc_next (ram s) p \<in> set ps"
proof -
  obtain h qs where ps: "ps = h # qs" using assms(2) by (cases ps) auto
  then have "path (proc_next (ram s)) h ps h" "0 \<notin> set ps" "h \<in> set ps"
    using assms(1) by (simp_all add: task_ring_def)
  moreover from path_in [OF this(1) assms(2)] this
  show "proc_next (ram s) p \<in> set ps" by auto
  ultimately show "proc_next (ram s) p \<noteq> 0" by metis
qed

text \<open>A turn at a task of a live queue goes on to the next one, unless its name is no string.\<close>

lemma turn_live:
  assumes "mains_return call ps" and live: "que_live s ps" and p: "p \<in> set ps"
  shows "que_turn call L p s = None \<or> (\<exists>q s'. que_turn call L p s = ret (q, s') \<and> que_live s' ps \<and> q \<in> set ps)"
proof (cases "term_writestring (proc_name (ram s) p) s")
  case None
  then show ?thesis by (simp add: que_turn_def)
next
  case (Some s1)
  then have l1: "que_live s1 ps" using live write_live by blast
  obtain s2 where s2: "task_run call p s1 = ret s2" "que_live s2 ps" "proc_status (ram s2) p \<noteq> status_code DONE"
    using task_run_live [OF assms(1) l1 p] by blast
  moreover have "proc_next (ram s2) p \<in> set ps" using s2(2) p ring_successor(2) by (simp add: que_live_def)
  ultimately show ?thesis using Some by (simp add: que_turn_def)
qed

text \<open>The loop does not end while every turn keeps an invariant under which the link is not null.\<close>

lemma run_que_invariant:
  assumes turn: "\<And>p s. I p s \<Longrightarrow> proc_next (ram s) p \<noteq> 0
      \<and> (que_turn call L p s = None \<or> (\<exists>q s'. que_turn call L p s = ret (q, s') \<and> I q s'))"
    and start: "I p s"
  shows "run_que_from call L p s = None"
proof -
  have *: "call' = call \<and> L' = L \<longrightarrow> \<not> I p s" if "run_que_from call' L' p s = Some r" for call' L' p s r
  proof (rule run_que_from.raw_induct [OF _ that])
    fix run call' L' p s r
    assume IH: "\<And>call' L' p s r. run call' L' p s = Some r \<Longrightarrow> call' = call \<and> L' = L \<longrightarrow> \<not> I p s"
      and step: "(if proc_next (ram s) p \<noteq> 0 then bindc (que_turn call' L' p s) (\<lambda>r. run call' L' (fst r) (snd r))
        else ret s) = Some r"
    show "call' = call \<and> L' = L \<longrightarrow> \<not> I p s"
    proof (intro impI notI, elim conjE)
      assume eq: "call' = call" "L' = L" and I: "I p s"
      then obtain q s' where "I q s'" "run call L q s' = Some r" using turn [OF I] step by auto
      then show False using IH eq by blast
    qed
  qed
  show ?thesis using * start by (cases "run_que_from call L p s") auto
qed

lemma ring_head:
  "task_ring s ps \<Longrightarrow> ps \<noteq> [] \<Longrightarrow> tq_head (task_que s) = ps ! 0"
  by (cases ps) (simp_all add: task_ring_def)

text \<open>\<open>run_que\<close> on a queue that is not empty never returns as long as no task ends:
  the ring has no null link for its loop to stop at.\<close>

theorem run_que_forever:
  assumes "que_live s ps" and "ps \<noteq> []" and "mains_return call ps"
  shows "run_que call L s = None"
  unfolding run_que_def
proof (rule run_que_invariant [where I = "\<lambda>p s. que_live s ps \<and> p \<in> set ps"])
  show "que_live s ps \<and> tq_head (task_que s) \<in> set ps"
    using assms(1,2) ring_head [of s ps] by (simp add: que_live_def)
  fix p s
  assume "que_live s ps \<and> p \<in> set ps"
  then show "proc_next (ram s) p \<noteq> 0 \<and> (que_turn call L p s = None
      \<or> (\<exists>q s'. que_turn call L p s = ret (q, s') \<and> que_live s' ps \<and> q \<in> set ps))"
    using turn_live [OF assms(3)] ring_successor(1) [of s ps p] by (auto simp: que_live_def)
qed

text \<open>For instance the queue of two tasks without a main function.\<close>

lemma run_que_forever_witness:
  "\<exists>s. task_ring s [0x200000, 0x200100] \<and> run_que (\<lambda>f p s. ret s) sample_syms s = None"
proof -
  let ?ps = "[0x200000, 0x200100] :: addr list"
  obtain s where h: "task_history (\<lambda>f p s. ret s) sample_syms s ?ps" using two_tasks by blast
  let ?s = "s\<lparr>tty0 := sample_term\<rparr>"
  have "task_history (\<lambda>f p s. ret s) sample_syms ?s ?ps" by (rule task_history.elsewhere [OF h]) (simp add: same_links_def)
  from history_ring [OF this] have r: "task_ring ?s ?ps" .
  then have "que_live ?s ?ps"
    using sample_screen by (simp add: que_live_def frame_bytes_def sep_simps)
  moreover have "mains_return (\<lambda>f p s. ret s) ?ps" by (simp add: mains_return_def)
  ultimately show ?thesis using run_que_forever [of ?s ?ps] r by auto
qed

section \<open>Context switches\<close>

text \<open>The stack of a call of \<open>switchTask\<close>, from the deepest word it pushes to its last argument.\<close>

abbreviation stack_apart :: "cpu \<Rightarrow> addr \<Rightarrow> bool" where
  "stack_apart c a \<equiv> sep (esp c - 48) 60 a 48"

lemma esp_offsets:
  assumes "esp c = b + 48"
  shows "esp c - 4 = b + 44" "esp c - 8 = b + 40" "esp c - 12 = b + 36" "esp c - 16 = b + 32"
    "esp c - 20 = b + 28" "esp c - 24 = b + 24" "esp c - 28 = b + 20" "esp c - 32 = b + 16"
    "esp c - 36 = b + 12" "esp c - 40 = b + 8" "esp c - 44 = b + 4" "esp c - 48 = b"
  using assms by simp_all

lemma push_all_slots:
  assumes "esp c = b + 48"
  shows "load32 (push_all c m) (b + 44) = eax c" "load32 (push_all c m) (b + 24) = ebp c"
    "load32 (push_all c m) (b + 28) = b + 48" "load32 (push_all c m) (b + 12) = pushf (eflags c)"
    "load32 (push_all c m) (b + 8) = cr3 c" "load32 (push_all c m) (b + 48) = load32 m (b + 48)"
    "load32 (push_all c m) (b + 52) = load32 m (b + 52)" "load32 (push_all c m) (b + 56) = load32 m (b + 56)"
  unfolding push_all_def Let_def esp_offsets [OF assms] unfolding assms
  by (simp_all add: mem_simps sep_simps)

lemma push_all_outside:
  assumes "esp c = b + 48" and "\<not> inreg b 60 x"
  shows "push_all c m x = m x"
  unfolding push_all_def Let_def esp_offsets [OF assms(1)]
  by (simp add: c32.st_outside inreg_fields [OF assms(2)])

lemma save_regs_slots:
  fixes c m old b
  defines "m' \<equiv> save_regs c old m"
  assumes e: "esp c = b + 48" and s: "sep b 60 old 48"
  shows "load32 m' old = load32 m (b + 44)" "load32 m' (old + 4) = ebx c" "load32 m' (old + 8) = ecx c"
    "load32 m' (old + 12) = edx c" "load32 m' (old + 16) = esi c" "load32 m' (old + 20) = edi c"
    "load32 m' (old + 24) = load32 m (b + 28) + 4" "load32 m' (old + 28) = load32 m (b + 24)"
    "load32 m' (old + 32) = load32 m (b + 48)" "load32 m' (old + 36) = load32 m (b + 12)"
    "load32 m' (b + 56) = load32 m (b + 56)"
  unfolding m'_def save_regs_def Let_def esp_offsets [OF e] unfolding e
  by (simp_all add: mem_simps sep_simps sep_fields [OF s])

lemma save_regs_outside:
  assumes "esp c = b + 48" and "\<not> inreg b 60 x" and "\<not> inreg old 48 x"
  shows "save_regs c old m x = m x"
  unfolding save_regs_def Let_def esp_offsets [OF assms(1)]
  by (simp add: c32.st_outside inreg_fields [OF assms(2)] inreg_fields [OF assms(3)])

lemma load_regs_eq:
  assumes e: "esp c = b + 48" and s: "sep b 60 new 48" and sp: "sep (load32 m (new + 24) - 4) 4 new 48"
  shows "map_option fst (load_regs (esp c) new m) = map_option (\<lambda>f.
    \<lparr>eax = load32 m new, ebx = load32 m (new + 4), ecx = load32 m (new + 8), edx = load32 m (new + 12),
     esi = load32 m (new + 16), edi = load32 m (new + 20), esp = load32 m (new + 24), ebp = load32 m (new + 28),
     eip = load32 m (new + 32), eflags = f, cr3 = load32 m (new + 44)\<rparr>) (popf (load32 m (new + 36)))"
  unfolding load_regs_def Let_def esp_offsets [OF e]
  by (simp add: mem_simps sep_simps sep_fields [OF s] sep_fields [OF sp] split: option.split)

text \<open>A call of \<open>switchTask\<close>: its arguments on the stack, and the stack apart from both structures.\<close>

definition switch_call :: "cpu \<Rightarrow> mem \<Rightarrow> addr \<Rightarrow> addr \<Rightarrow> bool" where
  "switch_call c m old new \<longleftrightarrow> load32 m (esp c + 4) = old \<and> load32 m (esp c + 8) = new
     \<and> stack_apart c old \<and> stack_apart c new"

lemma switchTask_split:
  assumes "switch_call c m old new"
  shows "switchTask c m = load_regs (esp c) new (save_regs c old (push_all c m))"
proof -
  define b where "b = esp c - 48"
  have e: "esp c = b + 48" "esp c + 4 = b + 52" "esp c + 8 = b + 56" by (simp_all add: b_def)
  have s: "sep b 60 old 48" "load32 m (b + 52) = old" "load32 m (b + 56) = new"
    using assms unfolding switch_call_def e(2,3) [symmetric] b_def [symmetric] by simp_all
  have old: "load32 (push_all c m) (b + 52) = old" using push_all_slots [OF e(1)] s by simp
  have "load32 (save_regs c old (push_all c m)) (b + 56) = new"
    using save_regs_slots(11) [OF e(1) s(1)] push_all_slots [OF e(1)] s(3) by simp
  then show ?thesis unfolding switchTask_def Let_def e(2,3) old by simp
qed

lemma switchTask_eq:
  fixes c m old new
  defines "m' \<equiv> save_regs c old (push_all c m)"
  assumes "switch_call c m old new" and "sep (load32 m' (new + 24) - 4) 4 new 48"
  shows "map_option fst (switchTask c m) = map_option (\<lambda>f.
    \<lparr>eax = load32 m' new, ebx = load32 m' (new + 4), ecx = load32 m' (new + 8), edx = load32 m' (new + 12),
     esi = load32 m' (new + 16), edi = load32 m' (new + 20), esp = load32 m' (new + 24), ebp = load32 m' (new + 28),
     eip = load32 m' (new + 32), eflags = f, cr3 = load32 m' (new + 44)\<rparr>) (popf (load32 m' (new + 36)))"
  unfolding switchTask_split [OF assms(2)] m'_def
  by (rule load_regs_eq [where b = "esp c - 48"]) (use assms(2,3) in \<open>simp_all add: switch_call_def m'_def\<close>)

text \<open>What a switch saves, and what it leaves alone.\<close>

lemma save_outside:
  assumes "switch_call c m old new" and "\<not> inreg (esp c - 48) 60 x" and "\<not> inreg old 48 x"
  shows "save_regs c old (push_all c m) x = m x"
  using save_regs_outside [of c "esp c - 48" x old] push_all_outside [of c "esp c - 48" x] assms by simp

lemma switch_saves:
  assumes call: "switch_call c m old new" and ended: "switchTask c m = Some (c1, m1)" and sp: "sep (esp c1 - 4) 4 old 48"
  shows "load32 m1 old = eax c" "load32 m1 (old + 4) = ebx c" "load32 m1 (old + 8) = ecx c"
    "load32 m1 (old + 12) = edx c" "load32 m1 (old + 16) = esi c" "load32 m1 (old + 20) = edi c"
    "load32 m1 (old + 24) = esp c + 4" "load32 m1 (old + 28) = ebp c"
    "load32 m1 (old + 32) = load32 m (esp c)" "load32 m1 (old + 36) = pushf (eflags c)"
proof -
  define b where "b = esp c - 48"
  have e: "esp c = b + 48" by (simp add: b_def)
  have s: "sep b 60 old 48" "sep b 60 new 48" using call by (simp_all add: switch_call_def b_def)
  let ?m = "save_regs c old (push_all c m)"
  have run: "load_regs (esp c) new ?m = Some (c1, m1)" using ended by (simp add: switchTask_split [OF call])
  have "esp c1 = load32 (store32 (store32 ?m (esp c - 44) new) (esp c - 48) (load32 (store32 ?m (esp c - 44) new) (new + 36))) (new + 24)"
    using run by (auto simp: load_regs_def Let_def split: option.splits)
  also have "\<dots> = load32 ?m (new + 24)"
    unfolding esp_offsets [OF e] by (simp add: mem_simps sep_fields [OF s(2)])
  finally have sp': "sep (load32 ?m (new + 24) - 4) 4 old 48" using sp by simp
  have ld: "load32 m1 (old + i) = load32 ?m (old + i)" if "unat i + 4 \<le> 48" for i
  proof -
    have "load32 (snd (the (load_regs (esp c) new ?m))) (old + i) = load32 ?m (old + i)"
      using run that unfolding load_regs_def Let_def esp_offsets [OF e]
      by (auto simp: mem_simps sep_fields [OF s(1)] sep_fields [OF s(2)] sep_fields [OF sp'] split: option.splits)
    then show ?thesis by (simp add: run)
  qed
  note v = save_regs_slots(1-10) [OF e s(1), of "push_all c m"] push_all_slots [OF e]
  show "load32 m1 old = eax c" "load32 m1 (old + 4) = ebx c" "load32 m1 (old + 8) = ecx c"
    "load32 m1 (old + 12) = edx c" "load32 m1 (old + 16) = esi c" "load32 m1 (old + 20) = edi c"
    "load32 m1 (old + 24) = esp c + 4" "load32 m1 (old + 28) = ebp c"
    "load32 m1 (old + 32) = load32 m (esp c)" "load32 m1 (old + 36) = pushf (eflags c)"
    using ld [of 0] ld v by (simp_all add: e)
qed

lemma switch_keeps_new:
  assumes "switch_call c m old new" and "sep old 48 new 48" and "unat i + 4 \<le> 48"
  shows "load32 (save_regs c old (push_all c m)) (new + i) = load32 m (new + i)"
proof (rule c32.ld_local)
  fix x
  assume "inreg (new + i) 4 x"
  then have x: "inreg new 48 x" by (rule inreg_sub) (use assms(3) in simp)
  have "\<not> inreg (esp c - 48) 60 x" using assms(1) x by (intro sep_notin [of _ _ new 48]) (simp_all add: switch_call_def)
  moreover have "\<not> inreg old 48 x" using assms(2) x by (rule sep_notin)
  ultimately show "save_regs c old (push_all c m) x = m x" by (rule save_outside [OF assms(1)])
qed

text \<open>C22. A context saved by \<open>switchTask\<close> and switched back to later, its structure
  untouched meanwhile, resumes behind the call with the registers, flags and stack it had; only the page
  table register comes from the word behind the structure.\<close>

theorem switch_roundtrip:
  assumes "switch_call c m old new" and "switchTask c m = Some (c1, m1)" and "sep (esp c1 - 4) 4 old 48"
    and "\<forall>x. inreg old 48 x \<longrightarrow> m2 x = m1 x"
    and "switch_call c2 m2 old2 old" and "sep old2 48 old 48"
  shows "map_option fst (switchTask c2 m2)
    = Some (c\<lparr>esp := esp c + 4, eip := load32 m (esp c), cr3 := load32 m2 (old + 44)\<rparr>)"
proof -
  have ld: "load32 (save_regs c2 old2 (push_all c2 m2)) (old + i) = load32 m2 (old + i)" if "unat i + 4 \<le> 48" for i
    using switch_keeps_new [OF assms(5,6) that] .
  have m2: "load32 m2 (old + i) = load32 m1 (old + i)" if "unat i + 4 \<le> 48" for i
    by (rule c32.ld_local) (use assms(4) inreg_sub that in blast)
  note v = switch_saves [OF assms(1-3)]
  have f: "load32 (save_regs c2 old2 (push_all c2 m2)) (old + 24) = esp c + 4"
    using ld [of 24] m2 [of 24] v by simp
  have "sep (esp c - 48) 60 old 48" using assms(1) by (simp add: switch_call_def)
  from sep_sub_left [OF this, of 48 4 48] have "sep (esp c) 4 old 48" by simp
  then have "sep (load32 (save_regs c2 old2 (push_all c2 m2)) (old + 24) - 4) 4 old 48" using f by simp
  note eq = switchTask_eq [OF assms(5) this]
  have regs: "\<lparr>eax = eax c, ebx = ebx c, ecx = ecx c, edx = edx c, esi = esi c, edi = edi c, esp = sp, ebp = ebp c,
      eip = ip, eflags = eflags c, cr3 = pg\<rparr> = c\<lparr>esp := sp, eip := ip, cr3 := pg\<rparr>" for sp ip pg
    by simp
  from eq show ?thesis
    using ld [of 0] ld m2 [of 0] m2 v by (simp add: regs)
qed

section \<open>The first switch to a task\<close>

lemma init_ctx_slots:
  "load32 (init_ctx c main m) (c + 24) = 0" "load32 (init_ctx c main m) (c + 32) = 0"
  "load32 (init_ctx c main m) (c + 36) = main"
  by (simp_all add: init_ctx_def Let_def set_ctx_reg_def mem_simps sep_simps)

text \<open>C38. \<open>task_yield\<close> passes the contexts where \<open>switchTask\<close> expects their registers, one
  word further on. So the first switch to a task set up by \<open>init_task\<close> takes the address of its main function
  for its flags, and 0 for its stack pointer and for the place to continue: if the address sets the trap flag
  (bit 8) the switch ends in a debug exception, otherwise it jumps to address 0 with a null stack pointer and
  those bits of the address that \<open>popf\<close> loads in the flags.\<close>

theorem first_switch_null:
  assumes "\<forall>x. inreg ctx 48 x \<longrightarrow> m x = init_ctx ctx main m0 x"
    and "switch_call c m old ctx" and "sep old 48 ctx 48" and "sep (- 4) 4 ctx 48"
  shows "case switchTask c m of
      None \<Rightarrow> main AND 0x100 \<noteq> 0
    | Some (c', m') \<Rightarrow> main AND 0x100 = 0 \<and> eip c' = 0 \<and> esp c' = 0 \<and> pushf (eflags c') = (main AND 0x247ED5) OR 2"
proof -
  have "load32 m (ctx + i) = load32 (init_ctx ctx main m0) (ctx + i)" if "unat i + 4 \<le> 48" for i
    by (rule c32.ld_local) (use assms(1) inreg_sub that in blast)
  then have ld: "load32 (save_regs c old (push_all c m)) (ctx + i) = load32 (init_ctx ctx main m0) (ctx + i)"
    if "unat i + 4 \<le> 48" for i
    using switch_keeps_new [OF assms(2,3) that] that by simp
  have "sep (load32 (save_regs c old (push_all c m)) (ctx + 24) - 4) 4 ctx 48"
    using ld [of 24] init_ctx_slots(1) assms(4) by simp
  from switchTask_eq [OF assms(2) this] show ?thesis
    using ld init_ctx_slots
    by (auto simp: popf_def pushf_def flag_word_of split: option.splits if_splits)
qed

definition sample_cpu :: cpu where
  "sample_cpu = \<lparr>eax = 1, ebx = 2, ecx = 3, edx = 4, esi = 5, edi = 6, esp = 0x90000, ebp = 0x90100,
     eip = 0x104F00, eflags = flags_of 0x202, cr3 = 0\<rparr>"

text \<open>A main function at \<open>0x106200\<close>, without bit 8, and one at \<open>0x106100\<close>, with it.\<close>

lemma first_switch_null_witness:
  "(\<exists>c m. switchTask sample_cpu
     (store32 (store32 (init_ctx 0x300000 0x106200 (\<lambda>_. 0)) 0x90004 0x200000) 0x90008 0x300000) = Some (c, m) \<and> eip c = 0)
    \<and> switchTask sample_cpu
     (store32 (store32 (init_ctx 0x300000 0x106100 (\<lambda>_. 0)) 0x90004 0x200000) 0x90008 0x300000) = None"
proof -
  let ?fresh = "\<lambda>main. init_ctx 0x300000 main (\<lambda>_. 0)"
  let ?m = "\<lambda>main. store32 (store32 (?fresh main) 0x90004 0x200000) 0x90008 0x300000"
  have keep: "\<forall>x. inreg 0x300000 48 x \<longrightarrow> ?m main x = ?fresh main x" for main
  proof (intro allI impI)
    show "?m main x = ?fresh main x" if "inreg 0x300000 48 x" for x
      by (simp add: c32.st_sep [OF _ that] sep_simps)
  qed
  have call: "switch_call sample_cpu (?m main) 0x200000 0x300000" for main
    by (simp add: switch_call_def sample_cpu_def mem_simps sep_simps)
  have n: "sep 0x200000 48 (0x300000 :: addr) 48" "sep (- 4) 4 (0x300000 :: addr) 48" by (simp_all add: sep_def)
  note first = first_switch_null [OF keep call n]
  have "(0x106200 :: 32 word) AND 0x100 = 0" "(0x106100 :: 32 word) AND 0x100 \<noteq> 0" by simp_all
  then show ?thesis
    using first [of "0x106200"] first [of "0x106100"]
    by (auto split: option.splits)
qed

text \<open>A task that switches to another, which switches straight back.\<close>

lemma switch_roundtrip_witness:
  "\<exists>c2 m2. map_option fst (switchTask c2 m2) = Some (sample_cpu\<lparr>esp := 0x90004, eip := 0x104F55, cr3 := load32 m2 0x20002C\<rparr>)"
proof -
  let ?m = "store32 (store32 (store32 (store32 (\<lambda>_. 0) 0x300018 0x80000) 0x90000 0x104F55) 0x90004 0x200000) 0x90008 0x300000"
  have call: "switch_call sample_cpu ?m 0x200000 0x300000"
    by (simp add: switch_call_def sample_cpu_def mem_simps sep_simps)
  have n: "sep 0x200000 48 (0x300000 :: addr) 48" by (simp add: sep_simps)
  have new: "load32 (save_regs sample_cpu 0x200000 (push_all sample_cpu ?m)) (0x300000 + 0x18) = 0x80000"
    "load32 (save_regs sample_cpu 0x200000 (push_all sample_cpu ?m)) (0x300000 + 0x24) = 0"
    using switch_keeps_new [OF call n, of "0x18"] switch_keeps_new [OF call n, of "0x24"]
    by (simp_all add: mem_simps sep_simps)
  then have "map_option (\<lambda>r. esp (fst r)) (switchTask sample_cpu ?m) = Some 0x80000"
    using arg_cong [OF switchTask_eq [OF call], of "map_option esp"]
    by (simp add: sep_simps popf_def option.map_comp comp_def)
  then obtain c1 m1 where sw: "switchTask sample_cpu ?m = Some (c1, m1)" "esp c1 = 0x80000"
    by (cases "switchTask sample_cpu ?m") auto
  let ?m2 = "store32 (store32 m1 0x80004 0x300000) 0x80008 0x200000"
  let ?c2 = "sample_cpu\<lparr>esp := 0x80000\<rparr>"
  have keep: "\<forall>x. inreg 0x200000 48 x \<longrightarrow> ?m2 x = m1 x"
  proof (intro allI impI)
    show "?m2 x = m1 x" if "inreg 0x200000 48 x" for x
      by (simp add: c32.st_sep [OF _ that] sep_simps)
  qed
  have call2: "switch_call ?c2 ?m2 0x300000 0x200000"
    by (simp add: switch_call_def sample_cpu_def mem_simps sep_simps)
  have "sep (esp c1 - 4) 4 0x200000 48" unfolding sw(2) by (simp add: sep_simps)
  from switch_roundtrip [OF call sw(1) this keep call2]
  have "map_option fst (switchTask ?c2 ?m2) = Some (sample_cpu\<lparr>esp := esp sample_cpu + 4, eip := load32 ?m (esp sample_cpu),
      cr3 := load32 ?m2 (0x200000 + 44)\<rparr>)"
    by (simp add: sep_simps)
  moreover have "load32 ?m (esp sample_cpu) = 0x104F55" "esp sample_cpu = 0x90000"
    by (simp_all add: sample_cpu_def mem_simps sep_simps)
  ultimately show ?thesis by (intro exI [of _ ?c2] exI [of _ ?m2]) simp
qed

end
