(* ===== verification/Task_Run.thy ===== *)
theory Task_Run
  imports Task_Spec
begin

text \<open>
  The scheduler at work: \<open>run_que\<close> serves the tasks of its ring one after the other, over and over;
  and what becomes of the ring when a task ends.
\<close>

text \<open>The name of every task is a string, off the screen and apart from the tasks.\<close>

definition name_ok :: "kstate \<Rightarrow> addr list \<Rightarrow> addr \<Rightarrow> bool" where
  "name_ok s ps p \<longleftrightarrow> (\<exists>cs. cstr_at (ram s) (proc_name (ram s) p) cs \<and> length cs < 4294967296
     \<and> sep (t_buffer (tty0 s)) (frame_bytes (tty0 s)) (proc_name (ram s) p) (Suc (length cs))
     \<and> (\<forall>q \<in> set ps. sep q 40 (proc_name (ram s) p) (Suc (length cs))))"

text \<open>What printing and running need of the tasks, whatever their links are.\<close>

definition stage_ok :: "kstate \<Rightarrow> addr list \<Rightarrow> bool" where
  "stage_ok s ps \<longleftrightarrow> geometry_ok (tty0 s) \<and> cursor_ok (tty0 s) \<and> 0 \<notin> set ps \<and> nodes_sep 40 ps
     \<and> (\<forall>q \<in> set ps. sep (t_buffer (tty0 s)) (frame_bytes (tty0 s)) q 40 \<and> name_ok s ps q)"

definition que_ready :: "kstate \<Rightarrow> addr list \<Rightarrow> bool" where
  "que_ready s ps \<longleftrightarrow> que_live s ps \<and> (\<forall>p \<in> set ps. name_ok s ps p)"

text \<open>A main function that comes back without having ended its task, touched the queue or spoilt a name.\<close>

definition mains_yield :: "caller \<Rightarrow> addr list \<Rightarrow> bool" where
  "mains_yield call ps \<longleftrightarrow>
     (\<forall>f p s. p \<in> set ps \<longrightarrow> que_ready s ps \<longrightarrow> proc_status (ram s) p = status_code RUNNING \<longrightarrow>
        (\<exists>s'. call f p s = ret s' \<and> que_ready s' ps \<and> proc_status (ram s') p \<noteq> status_code DONE))"

lemma name_local: "(\<And>x. inreg p 40 x \<Longrightarrow> m' x = m x) \<Longrightarrow> proc_name m' p = proc_name m p"
  unfolding proc_name_def by (rule c32.ld_local) (use inreg_mono [of p 4 _ 40] in simp)

text \<open>Names survive what touches neither them nor the pointers to them.\<close>

lemma name_kept:
  assumes ok: "name_ok s ps p" and geo: "same_geometry (tty0 s) (tty0 s')"
    and ptr: "proc_name (ram s') p = proc_name (ram s) p"
    and same: "\<And>x. \<not> in_frame (tty0 s) x \<Longrightarrow> \<forall>q \<in> set ps. \<not> inreg q 40 x \<Longrightarrow> ram s' x = ram s x"
  shows "name_ok s' ps p"
proof -
  let ?n = "proc_name (ram s) p"
  obtain cs where cs: "cstr_at (ram s) ?n cs" "length cs < 4294967296"
    "sep (t_buffer (tty0 s)) (frame_bytes (tty0 s)) ?n (Suc (length cs))" "\<forall>q \<in> set ps. sep q 40 ?n (Suc (length cs))"
    using ok by (auto simp: name_ok_def)
  have "cstr_at (ram s') ?n cs"
  proof (rule cstr_at_frame [OF cs(1)])
    fix x
    assume x: "inreg ?n (Suc (length cs)) x"
    show "ram s' x = ram s x"
      by (rule same) (use x cs(3,4) sep_notin in \<open>auto simp: in_frame_def\<close>)
  qed
  then show ?thesis
    using cs geo ptr unfolding name_ok_def same_geometry_def frame_bytes_def by (intro exI [of _ cs]) simp
qed

lemma ready_stage: "que_ready s ps \<longleftrightarrow> task_ring s ps \<and> stage_ok s ps"
  by (auto simp: que_ready_def que_live_def stage_ok_def task_ring_def)

text \<open>A turn at a task: its name is printed, and it runs.\<close>

lemma write_stage:
  assumes st: "stage_ok s ps" and "p \<in> set ps"
  shows "\<exists>s'. term_writestring (proc_name (ram s) p) s = Some s' \<and> stage_ok s' ps \<and> same_links ps s s'
    \<and> (\<forall>q \<in> set ps. proc_main (ram s') q = proc_main (ram s) q)"
proof -
  have "name_ok s ps p" using assms by (simp add: stage_ok_def)
  then obtain cs where cs: "cstr_at (ram s) (proc_name (ram s) p) cs" "length cs < 4294967296"
    "sep (t_buffer (tty0 s)) (frame_bytes (tty0 s)) (proc_name (ram s) p) (Suc (length cs))"
    by (auto simp: name_ok_def)
  have g: "geometry_ok (tty0 s)" "cursor_ok (tty0 s)" using st by (simp_all add: stage_ok_def)
  let ?s = "fold term_putchar cs s"
  have w: "term_writestring (proc_name (ram s) p) s = Some ?s"
    by (rule term_writestring_fold [OF cs(1,2) g]) (use cs(3) sep_notin in \<open>auto simp: in_frame_def\<close>)
  have f: "term_frame s ?s" "cursor_ok (tty0 ?s)" using tp.fold_put [OF g] by simp_all
  have geo: "same_geometry (tty0 s) (tty0 ?s)" using f(1) by (simp add: term_frame_def)
  have node: "ram ?s x = ram s x" if "q \<in> set ps" "inreg q 40 x" for q x
    using f(1) st that sep_notin by (auto simp: term_frame_def in_frame_def stage_ok_def)
  have "name_ok ?s ps q" if "q \<in> set ps" for q
  proof (rule name_kept)
    show "name_ok s ps q" using st that by (simp add: stage_ok_def)
    show "same_geometry (tty0 s) (tty0 ?s)" by (rule geo)
    show "proc_name (ram ?s) q = proc_name (ram s) q" by (rule name_local) (rule node [OF that])
  qed (use f in \<open>simp add: term_frame_def\<close>)
  then have "stage_ok ?s ps"
    using st f(2) same_geometry_ok [OF geo] geo
    by (simp add: stage_ok_def) (simp add: same_geometry_def frame_bytes_def)
  moreover have "proc_main (ram ?s) q = proc_main (ram s) q" "proc_next (ram ?s) q = proc_next (ram s) q"
    "proc_prev (ram ?s) q = proc_prev (ram s) q" if "q \<in> set ps" for q
    by (rule proc_local, rule node [OF that], assumption)+
  moreover have "task_que ?s = task_que s" using f(1) by (simp add: term_frame_def rest_def)
  ultimately show ?thesis using w by (simp add: same_links_def)
qed

text \<open>Writes to the links and the status of a task spoil no name.\<close>

lemma stage_nodes:
  assumes st: "stage_ok s ps" and geo: "tty0 s' = tty0 s"
    and ptr: "\<And>q. q \<in> set ps \<Longrightarrow> proc_name (ram s') q = proc_name (ram s) q"
    and same: "\<And>x. \<forall>q \<in> set ps. \<not> inreg q 40 x \<Longrightarrow> ram s' x = ram s x"
  shows "stage_ok s' ps"
proof -
  have "name_ok s' ps q" if "q \<in> set ps" for q
    by (rule name_kept [of s]) (use st geo that ptr same in \<open>simp_all add: stage_ok_def same_geometry_def\<close>)
  then show ?thesis using st geo by (simp add: stage_ok_def)
qed

lemma name_same:
  assumes "p = q \<or> sep p 40 q 40"
  shows "proc_name (set_proc_status c p m) q = proc_name m q" "proc_name (set_proc_next m p v) q = proc_name m q"
    "proc_name (set_proc_prev m p v) q = proc_name m q"
proof -
  have "proc_name (set_proc_status c p m) p = proc_name m p" "proc_name (set_proc_next m p v) p = proc_name m p"
    "proc_name (set_proc_prev m p v) p = proc_name m p"
    by (simp_all add: proc_name_def set_proc_status_def set_proc_next_def set_proc_prev_def mem_simps sep_simps)
  moreover have "proc_name (set_proc_status c p m) q = proc_name m q" "proc_name (set_proc_next m p v) q = proc_name m q"
    "proc_name (set_proc_prev m p v) q = proc_name m q" if "sep p 40 q 40"
    by (rule name_local, rule set_proc_outside, rule sep_notin [OF that], assumption)+
  ultimately show "proc_name (set_proc_status c p m) q = proc_name m q" "proc_name (set_proc_next m p v) q = proc_name m q"
    "proc_name (set_proc_prev m p v) q = proc_name m q"
    using assms by auto
qed

definition set_running :: "addr \<Rightarrow> kstate \<Rightarrow> kstate" where
  "set_running p s = (with_ram (set_proc_status RUNNING p) s)\<lparr>task_que := (task_que s)\<lparr>tq_current := p\<rparr>\<rparr>"

lemma task_run_hook: "task_run call p s = call_hook call (proc_main (ram (set_running p s)) p) p (set_running p s)"
  by (simp add: task_run_def Let_def set_running_def)

lemma status_stage:
  assumes st: "stage_ok s ps" and p: "p \<in> set ps"
  shows "stage_ok (with_ram (set_proc_status c p) s) ps" "same_links ps s (with_ram (set_proc_status c p) s)"
proof -
  have ps: "p = q \<or> sep p 40 q 40" if "q \<in> set ps" for q
    using st p that nodes_sepD [of 40 ps p q] by (auto simp: stage_ok_def)
  show "stage_ok (with_ram (set_proc_status c p) s) ps"
    by (rule stage_nodes [OF st]) (use p ps in \<open>simp_all add: name_same set_proc_outside\<close>)
  have "proc_next (set_proc_status c p (ram s)) q = proc_next (ram s) q
      \<and> proc_prev (set_proc_status c p (ram s)) q = proc_prev (ram s) q" if "q \<in> set ps" for q
    using ps [OF that] by (auto simp: proc_simps)
  then show "same_links ps s (with_ram (set_proc_status c p) s)" by (simp add: same_links_def)
qed

lemma running_stage:
  assumes st: "stage_ok s ps" and p: "p \<in> set ps"
  shows "stage_ok (set_running p s) ps" "same_links ps s (set_running p s)"
    "proc_status (ram (set_running p s)) p = status_code RUNNING"
  using status_stage [OF assms, of RUNNING]
  by (auto simp: set_running_def stage_ok_def same_links_def name_ok_def proc_simps)

lemma write_ready:
  assumes "que_ready s ps" and "p \<in> set ps"
  shows "\<exists>s'. term_writestring (proc_name (ram s) p) s = Some s' \<and> que_ready s' ps
    \<and> (\<forall>q \<in> set ps. proc_main (ram s') q = proc_main (ram s) q)"
  using assms write_stage [of s ps p] ring_same [of s ps] unfolding ready_stage by blast

lemma run_ready:
  assumes mains: "mains_yield call ps" and "que_ready s ps" and p: "p \<in> set ps"
  shows "\<exists>s'. task_run call p s = ret s' \<and> que_ready s' ps \<and> proc_status (ram s') p \<noteq> status_code DONE"
proof -
  let ?s = "set_running p s"
  have ready: "que_ready ?s ps" and run: "proc_status (ram ?s) p = status_code RUNNING"
    using assms(2) running_stage [of s ps p] ring_same [of s ps ?s] p unfolding ready_stage by blast+
  show ?thesis
  proof (cases "proc_main (ram ?s) p = 0")
    case True
    then show ?thesis using ready run task_run_hook [of call p s] by (simp add: call_hook_def)
  next
    case False
    then show ?thesis using mains p ready run task_run_hook [of call p s] unfolding mains_yield_def call_hook_def by presburger
  qed
qed

lemma ring_next:
  assumes "task_ring s ps" and "i < length ps"
  shows "proc_next (ram s) (ps ! i) = ps ! (Suc i mod length ps)"
proof -
  obtain h qs where ps: "ps = h # qs" using assms(2) by (cases ps) auto
  then have "path (proc_next (ram s)) h ps h" using assms(1) by (simp add: task_ring_def)
  from path_nth [OF this assms(2)] show ?thesis
    using assms(2) ps by (cases "Suc i < length ps") (auto simp: less_Suc_eq)
qed

lemma turn_ready:
  assumes "mains_yield call ps" and "que_ready s ps" and i: "i < length ps"
  shows "\<exists>s'. que_turn call L (ps ! i) s = ret (ps ! (Suc i mod length ps), s') \<and> que_ready s' ps"
proof -
  have p: "ps ! i \<in> set ps" using i by simp
  obtain s1 where s1: "term_writestring (proc_name (ram s) (ps ! i)) s = Some s1" "que_ready s1 ps"
    using write_ready [OF assms(2) p] by blast
  obtain s2 where s2: "task_run call (ps ! i) s1 = ret s2" "que_ready s2 ps"
    "proc_status (ram s2) (ps ! i) \<noteq> status_code DONE"
    using run_ready [OF assms(1) s1(2) p] by blast
  then have "proc_next (ram s2) (ps ! i) = ps ! (Suc i mod length ps)"
    using ring_next [OF _ i] by (simp add: que_ready_def que_live_def)
  then show ?thesis using s1 s2 by (simp add: que_turn_def)
qed

text \<open>A number of turns, from the first.\<close>

primrec que_turns :: "caller \<Rightarrow> syms \<Rightarrow> nat \<Rightarrow> addr \<Rightarrow> kstate \<Rightarrow> (addr \<times> kstate) comp" where
  "que_turns call L 0 p s = ret (p, s)"
| "que_turns call L (Suc n) p s = bindc (que_turns call L n p s) (\<lambda>r. que_turn call L (fst r) (snd r))"

text \<open>C11. \<open>run_que\<close> serves the tasks of its queue in turn and does not stop: as long as the
  main functions come back without ending their tasks, the loop does any number of turns, each prints the
  name of a task and runs it, and after \<open>n\<close> of them the task that is current is number \<open>n\<close> of the ring,
  counted around. So every task runs again and again, and \<open>run_que\<close> never returns: the ring has no null
  link for its loop to stop at.\<close>

theorem run_que_fair:
  assumes "que_ready s ps" and "ps \<noteq> []" and "mains_yield call ps"
  shows "(\<exists>s'. que_turns call L n (tq_head (task_que s)) s = ret (ps ! (n mod length ps), s') \<and> que_ready s' ps)
    \<and> run_que call L s = None"
proof
  have h: "tq_head (task_que s) = ps ! 0"
    using ring_head assms(1,2) by (simp add: que_ready_def que_live_def)
  show "\<exists>s'. que_turns call L n (tq_head (task_que s)) s = ret (ps ! (n mod length ps), s') \<and> que_ready s' ps"
  proof (induction n)
    case 0
    show ?case using h assms(1) by simp
  next
    case (Suc n)
    then obtain s' where s': "que_turns call L n (tq_head (task_que s)) s = ret (ps ! (n mod length ps), s')" "que_ready s' ps"
      by blast
    have "n mod length ps < length ps" using assms(2) by simp
    from turn_ready [OF assms(3) s'(2) this, of L] show ?case using s'(1) by (simp add: mod_Suc_eq)
  qed
  show "run_que call L s = None"
    unfolding run_que_def
  proof (rule run_que_invariant [where I = "\<lambda>p s. que_ready s ps \<and> (\<exists>i < length ps. p = ps ! i)"])
    show "que_ready s ps \<and> (\<exists>i < length ps. tq_head (task_que s) = ps ! i)" using h assms(1,2) by auto
    fix p s
    assume "que_ready s ps \<and> (\<exists>i < length ps. p = ps ! i)"
    then obtain i where i: "que_ready s ps" "i < length ps" "p = ps ! i" by blast
    then have "task_ring s ps" "p \<in> set ps" by (simp_all add: que_ready_def que_live_def)
    then have "proc_next (ram s) p \<noteq> 0" by (rule ring_successor(1))
    moreover have "Suc i mod length ps < length ps" using assms(2) by simp
    ultimately show "proc_next (ram s) p \<noteq> 0 \<and> (que_turn call L p s = None
        \<or> (\<exists>q s'. que_turn call L p s = ret (q, s') \<and> que_ready s' ps \<and> (\<exists>i < length ps. q = ps ! i)))"
      using turn_ready [OF assms(3) i(1,2), of L] i(3) by blast
  qed
qed

text \<open>Two tasks, A and B; after five turns B is next.\<close>

definition sample_tasks :: mem where
  "sample_tasks = (let m = (\<lambda>_. 0)(0x300000 := 65, 0x300010 := 66);
     m = store32 m 0x200000 0x300000; m = store32 m 0x200100 0x300010;
     m = store32 m 0x200004 0x106100; m = store32 m 0x200104 0x106200;
     m = set_proc_next m 0x200000 0x200100; m = set_proc_next m 0x200100 0x200000;
     m = set_proc_prev m 0x200000 0x200000 in set_proc_prev m 0x200100 0x200000)"

definition sample_que :: kstate where
  "sample_que = sample_state\<lparr>ram := sample_tasks,
     task_que := \<lparr>tq_tasks = 2, tq_head = 0x200000, tq_tail = 0x200100, tq_current = 0\<rparr>\<rparr>"

lemma sample_tasks_fields:
  "proc_next sample_tasks 0x200000 = 0x200100" "proc_next sample_tasks 0x200100 = 0x200000"
  "proc_prev sample_tasks 0x200000 = 0x200000" "proc_prev sample_tasks 0x200100 = 0x200000"
  "proc_name sample_tasks 0x200000 = 0x300000" "proc_name sample_tasks 0x200100 = 0x300010"
  by (simp_all add: sample_tasks_def Let_def proc_next_def proc_prev_def proc_name_def set_proc_next_def set_proc_prev_def
      mem_simps sep_simps)

lemma sample_tasks_names: "cstr_at sample_tasks 0x300000 [65]" "cstr_at sample_tasks 0x300010 [66]"
  by (simp_all add: sample_tasks_def Let_def set_proc_next_def set_proc_prev_def c32.st_outside inreg_def)

lemma sample_que_ready: "que_ready sample_que [0x200000, 0x200100]"
proof -
  have t: "ram sample_que = sample_tasks" "tty0 sample_que = sample_term" "tq_head (task_que sample_que) = 0x200000"
    "tq_tail (task_que sample_que) = 0x200100"
    by (simp_all add: sample_que_def)
  have "task_ring sample_que [0x200000, 0x200100]"
    by (simp add: task_ring_def t sample_tasks_fields nodes_sep_def sep_simps)
  then have "que_live sample_que [0x200000, 0x200100]"
    using sample_screen by (simp add: que_live_def t frame_bytes_def sep_simps)
  moreover have "name_ok sample_que [0x200000, 0x200100] 0x200000"
    unfolding name_ok_def t sample_tasks_fields
    by (intro exI [of _ "[65]"]) (simp add: sample_tasks_names frame_bytes_def sep_simps del: cstr_at.simps)
  moreover have "name_ok sample_que [0x200000, 0x200100] 0x200100"
    unfolding name_ok_def t sample_tasks_fields
    by (intro exI [of _ "[66]"]) (simp add: sample_tasks_names frame_bytes_def sep_simps del: cstr_at.simps)
  ultimately show ?thesis by (simp add: que_ready_def)
qed

lemma run_que_fair_witness:
  "(\<exists>s'. que_turns (\<lambda>f p s. ret s) sample_syms 5 0x200000 sample_que = ret (0x200100, s'))
    \<and> run_que (\<lambda>f p s. ret s) sample_syms sample_que = None"
proof -
  have "mains_yield (\<lambda>f p s. ret s) [0x200000, 0x200100]" by (simp add: mains_yield_def)
  note f = run_que_fair [OF sample_que_ready _ this, of sample_syms 5]
  have "[0x200000, 0x200100 :: addr] ! (5 mod length [0x200000, 0x200100 :: addr]) = 0x200100" by (simp flip: numeral_2_eq_2)
  with f have "\<exists>s'. que_turns (\<lambda>f p s. ret s) sample_syms 5 (tq_head (task_que sample_que)) sample_que = ret (0x200100, s')"
    by auto
  moreover have "tq_head (task_que sample_que) = 0x200000" by (simp add: sample_que_def)
  ultimately show ?thesis using f by simp
qed

section \<open>Tasks that end\<close>

lemma ring_prev:
  assumes "task_ring s ps" and "i < length ps"
  shows "proc_prev (ram s) (ps ! i) = ps ! (i - 1)"
proof -
  obtain h qs where ps: "ps = h # qs" using assms(2) by (cases ps) auto
  then have "backs (proc_prev (ram s)) h ps" using assms(1) by (simp add: task_ring_def)
  from backs_nth [OF this assms(2)] show ?thesis using ps by simp
qed

lemma ring_distinct: "task_ring s ps \<Longrightarrow> distinct ps" "task_ring s ps \<Longrightarrow> nodes_sep 40 ps" "task_ring s ps \<Longrightarrow> 0 \<notin> set ps"
  by (simp_all add: task_ring_def)

text \<open>The turn at a task that has ended: whatever the next one points back at is killed.\<close>

lemma turn_done:
  assumes named: "term_writestring (proc_name (ram s) p) s = Some s1" and run: "task_run call p s1 = ret s2"
    and ended: "proc_status (ram s2) p = status_code DONE"
  shows "que_turn call L p s = bindc (task_kill call L (proc_prev (ram s2) (proc_next (ram s2) p)) s2)
    (\<lambda>s'. ret (proc_next (ram s2) p, s'))"
  by (simp add: que_turn_def named run ended Let_def)

lemma kill_done: "proc_status (ram s) p = status_code DONE \<Longrightarrow> task_kill call L p s = ret (with_ram (unlink_task p) s)"
  by (simp add: task_kill_def)

text \<open>A task that kills itself in its main function, as the test tasks do, leaves no link to a next one.\<close>

lemma kill_unlinks: "task_kill call L p s = ret s' \<Longrightarrow> proc_next (ram s') p = 0"
  unfolding task_kill_def
  by (auto simp: bindc_def unlink_task_def Let_def proc_simps split: option.splits sum.splits if_splits)

lemma unlink_head:
  assumes ring: "task_ring s ps" and ne: "ps \<noteq> []"
  defines "m \<equiv> unlink_task (ps ! 0) (ram s)"
  shows "proc_next m (ps ! 0) = 0" and "1 < length ps \<Longrightarrow> proc_next m (last ps) = ps ! 0"
proof -
  show "proc_next m (ps ! 0) = 0" by (simp add: m_def unlink_task_def Let_def proc_simps)
  assume two: "1 < length ps"
  let ?h = "ps ! 0" and ?b = "ps ! 1" and ?t = "last ps"
  have t: "?t = ps ! (length ps - 1)" using ne by (simp add: last_conv_nth)
  then have th: "?h \<noteq> ?t" using nth_eq_iff_index_eq [OF ring_distinct(1) [OF ring], of 0 "length ps - 1"] two ne by simp
  have sep: "sep x 40 y 40" if "x \<in> set ps" "y \<in> set ps" "x \<noteq> y" for x y
    by (rule nodes_sepD [OF ring_distinct(2) [OF ring] that])
  have h: "sep ?h 40 ?t 40" using th two ne by (intro sep) auto
  have b: "?b = ?t \<or> sep ?b 40 ?t 40" using two ne by (cases "?b = ?t") (auto intro: sep)
  have links: "proc_next (ram s) ?h = ?b" "proc_prev (ram s) ?h = ?h"
    using ring_next [OF ring, of 0] ring_prev [OF ring, of 0] two by (simp_all add: ne)
  have "Suc (length ps - Suc 0) = length ps" using two by simp
  then have "proc_next (ram s) ?t = ?h" using ring_next [OF ring, of "length ps - 1"] two t by simp
  then show "proc_next m ?t = ?h"
    using h b by (auto simp: m_def unlink_task_def Let_def links proc_simps)
qed

lemma turn_ring:
  assumes ring: "task_ring s2 ps" and i: "i < length ps"
    and named: "term_writestring (proc_name (ram s) (ps ! i)) s = Some s1" and run: "task_run call (ps ! i) s1 = ret s2"
    and ended: "proc_status (ram s2) (ps ! i) = status_code DONE"
  shows "que_turn call L (ps ! i) s = bindc (task_kill call L (if Suc i < length ps then ps ! i else ps ! 0) s2)
      (\<lambda>s'. ret (ps ! (Suc i mod length ps), s'))"
    and "Suc i < length ps \<or> i = 0 \<Longrightarrow>
      que_turn call L (ps ! i) s = ret (ps ! (Suc i mod length ps), with_ram (unlink_task (ps ! i)) s2)"
    and "0 < i \<Longrightarrow> Suc i < length ps \<Longrightarrow> task_ring (with_ram (unlink_task (ps ! i)) s2) (take i ps @ drop (Suc i) ps)"
proof -
  have n: "proc_next (ram s2) (ps ! i) = ps ! (Suc i mod length ps)" by (rule ring_next [OF ring i])
  have "Suc i mod length ps < length ps" using i by (intro mod_less_divisor) auto
  from ring_prev [OF ring this]
  have v: "proc_prev (ram s2) (ps ! (Suc i mod length ps)) = (if Suc i < length ps then ps ! i else ps ! 0)"
    using i by (cases "Suc i < length ps") (auto simp: less_Suc_eq not_less_eq)
  show t: "que_turn call L (ps ! i) s = bindc (task_kill call L (if Suc i < length ps then ps ! i else ps ! 0) s2)
      (\<lambda>s'. ret (ps ! (Suc i mod length ps), s'))"
    using turn_done [OF named run ended] by (simp add: n v)
  show "que_turn call L (ps ! i) s = ret (ps ! (Suc i mod length ps), with_ram (unlink_task (ps ! i)) s2)"
    if "Suc i < length ps \<or> i = 0"
    using t kill_done [OF ended, of call L] that by auto
  show "task_ring (with_ram (unlink_task (ps ! i)) s2) (take i ps @ drop (Suc i) ps)" if "0 < i" "Suc i < length ps"
  proof -
    have "task_ring s2 (take i ps @ ps ! i # drop (Suc i) ps)" using ring i by (simp flip: id_take_nth_drop)
    then show ?thesis by (rule unlink_ring) (use that in auto)
  qed
qed

text \<open>C12. What a turn of \<open>run_que\<close> does when the task it ran has ended: it steps to the next task and
  kills what that one points back at. If the task has ended with the ring intact, the next one of an inner
  task points back at it: it is killed, and the others remain a ring. The next one of the last task is the
  head, whose back link points at itself: the head is killed, ended or not, and the ended task stays. The head
  is killed when it has ended itself, but the queue and the last task go on pointing at it. If the task has
  ended by killing itself, as the tasks of the kernel do, it has no next one: the turn steps to address 0 and
  kills whatever the word at address 32 points at.\<close>

theorem finished_turn:
  assumes i: "i < length ps"
    and named: "term_writestring (proc_name (ram s) (ps ! i)) s = Some s1" and run: "task_run call (ps ! i) s1 = ret s2"
    and ended: "proc_status (ram s2) (ps ! i) = status_code DONE"
  shows "(task_ring s2 ps \<longrightarrow>
      que_turn call L (ps ! i) s = bindc (task_kill call L (if Suc i < length ps then ps ! i else ps ! 0) s2)
        (\<lambda>s'. ret (ps ! (Suc i mod length ps), s')))
    \<and> (task_ring s2 ps \<and> 0 < i \<and> Suc i < length ps \<longrightarrow>
      (\<exists>s'. que_turn call L (ps ! i) s = ret (ps ! Suc i, s') \<and> task_ring s' (take i ps @ drop (Suc i) ps)))
    \<and> (task_ring s2 ps \<and> i = 0 \<longrightarrow>
      (\<exists>s'. que_turn call L (ps ! i) s = ret (ps ! (1 mod length ps), s') \<and> proc_next (ram s') (ps ! 0) = 0
        \<and> tq_head (task_que s') = ps ! 0 \<and> (1 < length ps \<longrightarrow> proc_next (ram s') (last ps) = ps ! 0)))
    \<and> ((\<exists>s3. task_kill call L (ps ! i) s3 = ret s2) \<longrightarrow>
      que_turn call L (ps ! i) s = bindc (task_kill call L (load32 (ram s2) 32) s2) (\<lambda>s'. ret (0, s')))"
proof (intro conjI impI; (elim conjE exE)?)
  assume ring: "task_ring s2 ps"
  note t = turn_ring [OF ring i named run ended]
  show "que_turn call L (ps ! i) s = bindc (task_kill call L (if Suc i < length ps then ps ! i else ps ! 0) s2)
      (\<lambda>s'. ret (ps ! (Suc i mod length ps), s'))"
    by (rule t(1))
  show "\<exists>s'. que_turn call L (ps ! i) s = ret (ps ! Suc i, s') \<and> task_ring s' (take i ps @ drop (Suc i) ps)"
    if "0 < i" "Suc i < length ps"
    using t(2,3) that by simp
  have ne: "ps \<noteq> []" using i by auto
  show "\<exists>s'. que_turn call L (ps ! i) s = ret (ps ! (1 mod length ps), s') \<and> proc_next (ram s') (ps ! 0) = 0
      \<and> tq_head (task_que s') = ps ! 0 \<and> (1 < length ps \<longrightarrow> proc_next (ram s') (last ps) = ps ! 0)" if "i = 0"
    using t(2) that unlink_head [OF ring ne] ring_head [OF ring ne] by simp
next
  fix s3
  assume "task_kill call L (ps ! i) s3 = ret s2"
  then have "proc_next (ram s2) (ps ! i) = 0" by (rule kill_unlinks)
  then show "que_turn call L (ps ! i) s = bindc (task_kill call L (load32 (ram s2) 32) s2) (\<lambda>s'. ret (0, s'))"
    using turn_done [OF named run ended] by (simp add: proc_prev_def)
qed

text \<open>A main function that does nothing but end its task.\<close>

lemma ended_turn:
  assumes "que_ready s ps" and p: "p \<in> set ps" and main: "proc_main (ram s) p \<noteq> 0"
    and call: "\<And>f s. call f p s = ret (with_ram (set_proc_status DONE p) s)"
  shows "\<exists>s1 s2. term_writestring (proc_name (ram s) p) s = Some s1 \<and> task_run call p s1 = ret s2
    \<and> task_ring s2 ps \<and> stage_ok s2 ps \<and> proc_status (ram s2) p = status_code DONE"
proof -
  obtain s1 where s1: "term_writestring (proc_name (ram s) p) s = Some s1" "task_ring s1 ps" "stage_ok s1 ps"
    "proc_main (ram s1) p = proc_main (ram s) p"
    using write_ready [OF assms(1) p] p unfolding ready_stage by blast
  let ?r = "set_running p s1"
  let ?s2 = "with_ram (set_proc_status DONE p) ?r"
  note r = running_stage [OF s1(3) p]
  note d = status_stage [OF r(1) p, of DONE]
  have "task_ring ?s2 ps" using ring_same [OF ring_same [OF s1(2) r(2)] d(2)] .
  moreover have "proc_main (ram ?r) p \<noteq> 0"
    using main s1(4) by (simp add: set_running_def proc_main_def set_proc_status_def mem_simps sep_simps)
  then have "task_run call p s1 = ret ?s2" by (simp add: task_run_hook call_hook_def call)
  ultimately show ?thesis using s1(1) d(1) by (auto simp: proc_simps)
qed

lemma sample_que_mains: "proc_main (ram sample_que) 0x200000 = 0x106100" "proc_main (ram sample_que) 0x200100 = 0x106200"
  by (simp_all add: sample_que_def sample_tasks_def Let_def proc_main_def set_proc_next_def set_proc_prev_def mem_simps sep_simps)

text \<open>When B of the two sample tasks ends, A is killed.\<close>

lemma finished_turn_witness:
  "\<exists>s2. task_ring s2 [0x200000, 0x200100] \<and> proc_status (ram s2) 0x200100 = status_code DONE
    \<and> que_turn (\<lambda>f p s. ret (with_ram (set_proc_status DONE p) s)) sample_syms 0x200100 sample_que
      = bindc (task_kill (\<lambda>f p s. ret (with_ram (set_proc_status DONE p) s)) sample_syms 0x200000 s2) (\<lambda>s'. ret (0x200000, s'))"
proof -
  let ?ps = "[0x200000, 0x200100] :: addr list" and ?call = "\<lambda>f p s. ret (with_ram (set_proc_status DONE p) s) :: kstate comp"
  obtain s1 s2 where s: "term_writestring (proc_name (ram sample_que) (?ps ! 1)) sample_que = Some s1" "task_run ?call (?ps ! 1) s1 = ret s2"
    "task_ring s2 ?ps" "proc_status (ram s2) (?ps ! 1) = status_code DONE"
    using ended_turn [OF sample_que_ready, of "?ps ! 1" ?call] by (auto simp: sample_que_mains)
  have "1 < length ?ps" by simp
  from finished_turn [OF this s(1,2,4), of sample_syms] show ?thesis using s(3,4) by auto
qed

section \<open>When the head has ended\<close>








end
