(* ===== verification/Mem_History.thy ===== *)
theory Mem_History
  imports Mem_Boot
begin

text \<open>
  What the allocator does over a whole history of calls. The abstract heap is the room that is left
  in the header of the free list and the two lists of blocks. No entry keeps a back link other than to
  the header of its list, so taking a block out of a list drops every block in front of it; the
  abstract operations say so, and \<open>malloc\<close> and \<open>free\<close> implement them in any sequence, with stores of
  the program between them, as long as a request is not served from a recycled block that has
  become larger than the room of the header.
\<close>

section \<open>The abstract heap\<close>

type_synonym block = "addr \<times> 32 word"

record heap =
  room :: "32 word"
  fblocks :: "block list"
  ublocks :: "block list"

text \<open>A block and what is behind it; the block \<open>malloc\<close> chooses, which is never the last.\<close>

fun take_out :: "addr \<Rightarrow> block list \<Rightarrow> (block \<times> block list) option" where
  "take_out p [] = None"
| "take_out p (b # bs) = (if fst b = p then Some (b, bs) else take_out p bs)"

fun pick :: "32 word \<Rightarrow> block list \<Rightarrow> (block \<times> block list) option" where
  "pick sz (b # c # bs) = (if good_buddy (snd b) sz then Some (b, c # bs) else pick sz (c # bs))"
| "pick sz _ = None"

definition a_malloc :: "addr \<Rightarrow> 32 word \<Rightarrow> 32 word \<Rightarrow> heap \<Rightarrow> (addr \<times> heap) option" where
  "a_malloc base low sz H =
     (if fblocks H \<noteq> [] \<and> good_buddy (room H) sz then None
      else case pick sz (fblocks H) of
        Some (b, bs) \<Rightarrow> Some (fst b, H\<lparr>fblocks := bs, ublocks := b # ublocks H\<rparr>)
      | None \<Rightarrow>
          if unat low + unat sz + 16 \<le> unat (room H) \<and> list_all (\<lambda>b. snd b \<le> room H) (fblocks H) then
            let left = room H - (sz + 16)
            in Some (base + left, H\<lparr>room := left, ublocks := (base + left, sz) # ublocks H\<rparr>)
          else None)"

definition a_free :: "addr \<Rightarrow> heap \<Rightarrow> heap option" where
  "a_free p H = (case take_out p (ublocks H) of
     Some (b, bs) \<Rightarrow> Some (H\<lparr>fblocks := b # fblocks H, ublocks := bs\<rparr>) | None \<Rightarrow> None)"

text \<open>Histories: calls of the allocator and stores of the program.\<close>

datatype event = Alloc "32 word" | Release addr | Store addr byte

definition a_nodes :: "syms \<Rightarrow> heap \<Rightarrow> addr list" where
  "a_nodes L H = s_mm_free L # s_mm_used L # map fst (fblocks H) @ map fst (ublocks H)"

definition a_store :: "syms \<Rightarrow> addr \<Rightarrow> heap \<Rightarrow> heap option" where
  "a_store L a H = (if list_all (\<lambda>p. \<not> inreg p 16 a) (a_nodes L H) then Some H else None)"

fun a_run :: "syms \<Rightarrow> addr \<Rightarrow> 32 word \<Rightarrow> event list \<Rightarrow> heap \<Rightarrow> (addr list \<times> heap) option" where
  "a_run L base low [] H = Some ([], H)"
| "a_run L base low (Alloc sz # es) H = (case a_malloc base low sz H of None \<Rightarrow> None
     | Some (p, H1) \<Rightarrow> map_option (\<lambda>(ps, H2). (p # ps, H2)) (a_run L base low es H1))"
| "a_run L base low (Release p # es) H = (case a_free p H of None \<Rightarrow> None | Some H1 \<Rightarrow> a_run L base low es H1)"
| "a_run L base low (Store a v # es) H = (case a_store L a H of None \<Rightarrow> None | Some H1 \<Rightarrow> a_run L base low es H1)"

text \<open>The same history on the kernel: the blocks \<open>malloc\<close> returned and the state reached.\<close>

fun heap_run :: "syms \<Rightarrow> event list \<Rightarrow> kstate \<Rightarrow> (addr list \<times> kstate) comp" where
  "heap_run L [] s = ret ([], s)"
| "heap_run L (Alloc sz # es) s =
     bindc (malloc L sz s) (\<lambda>(p, s1). bindc (heap_run L es s1) (\<lambda>(ps, s2). ret (p # ps, s2)))"
| "heap_run L (Release p # es) s = heap_run L es (with_ram (free L p) s)"
| "heap_run L (Store a v # es) s = heap_run L es (with_ram (\<lambda>m. store8 m a v) s)"

section \<open>The heap in memory\<close>

definition listed :: "mem \<Rightarrow> addr \<Rightarrow> block list \<Rightarrow> bool" where
  "listed m h bs \<longleftrightarrow> chain (mp_next m) h (map fst bs)
     \<and> (\<forall>b \<in> set bs. mp_prev m (fst b) = h \<and> mp_size m (fst b) = snd b \<and> mp_address m (fst b) = fst b + 256)"

definition placed :: "syms \<Rightarrow> addr \<Rightarrow> 32 word \<Rightarrow> nat \<Rightarrow> heap \<Rightarrow> bool" where
  "placed L base low span H \<longleftrightarrow> distinct (0 # a_nodes L H) \<and> nodes_sep 16 (0 # a_nodes L H)
     \<and> (\<forall>q \<in> {0, s_mm_free L, s_mm_used L}. sep (base + low) (span - unat low) q 16)
     \<and> low \<le> room H \<and> unat (room H) \<le> span \<and> span \<le> 4294967296
     \<and> (\<forall>b \<in> set (fblocks H @ ublocks H). room H \<le> fst b - base \<and> unat (fst b - base) + 16 \<le> span)"

definition heap_of :: "syms \<Rightarrow> addr \<Rightarrow> 32 word \<Rightarrow> nat \<Rightarrow> heap \<Rightarrow> mem \<Rightarrow> bool" where
  "heap_of L base low span H m \<longleftrightarrow> placed L base low span H
     \<and> listed m (s_mm_free L) (fblocks H) \<and> listed m (s_mm_used L) (ublocks H)
     \<and> mp_size m (s_mm_free L) = room H \<and> mp_address m (s_mm_free L) = base"

lemma take_out_split: "take_out p bs = Some (b, cs) \<Longrightarrow> \<exists>as. bs = as @ b # cs \<and> fst b = p"
proof (induction bs)
  case (Cons d bs)
  show ?case
  proof (cases "fst d = p")
    case False
    then obtain as where "bs = as @ b # cs" "fst b = p" using Cons by auto
    then show ?thesis by (intro exI [of _ "d # as"]) simp
  qed (use Cons.prems in auto)
qed simp

lemma pick_split: "pick sz bs = Some (b, cs) \<Longrightarrow> \<exists>as. bs = as @ b # cs \<and> cs \<noteq> []"
proof (induction sz bs rule: pick.induct)
  case (1 sz d c bs)
  show ?case
  proof (cases "good_buddy (snd d) sz")
    case False
    then obtain as where "c # bs = as @ b # cs" "cs \<noteq> []" using 1 by auto
    then show ?thesis by (intro exI [of _ "d # as"]) simp
  qed (use 1 in auto)
qed simp_all

lemma scan_step:
  "scan_spec sizes sz (butlast (map fst (b # c # bs))) l =
     (if good_buddy (sizes (fst b)) sz then Inl (fst b)
      else scan_spec sizes sz (butlast (map fst (c # bs))) (if sizes l < sizes (fst b) then fst b else l))"
  by simp

lemma scan_picks:
  "pick sz bs = Some (b, cs) \<Longrightarrow> \<forall>b \<in> set bs. sizes (fst b) = snd b \<Longrightarrow>
     scan_spec sizes sz (butlast (map fst bs)) l = Inl (fst b)"
proof (induction sz bs arbitrary: l rule: pick.induct)
  case (1 sz d c bs)
  then show ?case unfolding scan_step by (cases "good_buddy (snd d) sz") simp_all
qed simp_all

lemma scan_none:
  "pick sz bs = None \<Longrightarrow> \<forall>b \<in> set bs. sizes (fst b) = snd b \<and> snd b \<le> sizes l \<Longrightarrow>
     scan_spec sizes sz (butlast (map fst bs)) l = Inr l"
proof (induction sz bs rule: pick.induct)
  case (1 sz d c bs)
  then have "\<not> good_buddy (sizes (fst d)) sz" "\<not> sizes l < sizes (fst d)" by (auto split: if_splits)
  then show ?case unfolding scan_step using 1 by simp
qed simp_all

lemma listed_cong:
  assumes "listed m h bs" and "\<And>p. p \<in> set (map fst bs) \<Longrightarrow> mp_next m' p = mp_next m p \<and> mp_prev m' p = mp_prev m p
      \<and> mp_size m' p = mp_size m p \<and> mp_address m' p = mp_address m p"
    and "mp_next m' h = mp_next m h"
  shows "listed m' h bs"
  using assms chain_cong [of h "map fst bs" "mp_next m'" "mp_next m"] by (auto simp: listed_def)

text \<open>The link of a block goes to the next one of its list, or is null.\<close>

lemma listed_next:
  assumes "listed m h (as @ b # cs)"
  shows "(case cs of [] \<Rightarrow> mp_next m (fst b) = 0 | c # _ \<Rightarrow> mp_next m (fst b) = fst c)"
proof -
  have "chain (mp_next m) (fst b) (map fst cs)" using assms chain_split by (auto simp: listed_def)
  then show ?thesis by (cases cs) simp_all
qed

section \<open>Moving a block\<close>

text \<open>
  A block whose back link is the header \<open>h\<close> goes to the header \<open>k\<close>. Nothing changes in the other
  nodes, since the successor, if there is one, has the header for its back link already.
\<close>

lemma move_fields:
  fixes m h k p
  defines "m' \<equiv> add_mm_list_entry k p (remove_mm_list_entry p m)"
  assumes prev: "mp_prev m p = h" and nxt: "mp_next m p = 0 \<or> mp_next m p \<in> Q \<and> mp_prev m (mp_next m p) = h"
    and ns: "nodes_sep 16 (0 # h # k # p # qs)" and d: "distinct [0, h, k, p]" and Q: "set qs = Q"
    and out: "{0, h, k, p} \<inter> Q = {}"
  shows "mp_next m' h = mp_next m p" "mp_size m' h = mp_size m h" "mp_address m' h = mp_address m h"
    "mp_next m' k = p" "mp_size m' k = mp_size m k" "mp_address m' k = mp_address m k"
    "mp_next m' p = mp_next m k" "mp_prev m' p = k" "mp_size m' p = mp_size m p" "mp_address m' p = mp_address m p"
    and "\<And>q. q \<in> Q \<Longrightarrow> mp_next m' q = mp_next m q \<and> mp_prev m' q = mp_prev m q
      \<and> mp_size m' q = mp_size m q \<and> mp_address m' q = mp_address m q"
proof -
  let ?n = "mp_next m p"
  have s: "sep a 16 b 16" if "a \<noteq> b" "a \<in> {0, h, k, p} \<union> Q" "b \<in> {0, h, k, p} \<union> Q" for a b
    using that Q by (intro nodes_sepD [OF ns]) auto
  have n: "?n \<in> {0, h, k, p} \<union> Q" "?n \<noteq> h" "?n \<noteq> k" "?n \<noteq> p" using nxt d out by auto
  have m': "m' = add_mm_list_entry k p (set_next (set_prev (set_prev (set_next m h ?n) ?n h) p 0) p 0)"
    by (simp add: m'_def remove_mm_list_entry_def Let_def prev)
  have sh: "sep h 16 k 16" "sep h 16 p 16" "sep k 16 p 16" "sep ?n 16 h 16" "sep ?n 16 k 16" "sep ?n 16 p 16"
    using s d n by (auto intro!: s)
  note sh = sh sh [THEN sep_sym [THEN iffD1]]
  show "mp_next m' h = ?n" "mp_size m' h = mp_size m h" "mp_address m' h = mp_address m h"
    "mp_next m' k = p" "mp_size m' k = mp_size m k" "mp_address m' k = mp_address m k"
    "mp_next m' p = mp_next m k" "mp_prev m' p = k" "mp_size m' p = mp_size m p" "mp_address m' p = mp_address m p"
    using sh by (simp_all add: m' add_fields add_other mp_simps)
  fix q
  assume q: "q \<in> Q"
  then have "q \<noteq> h" "q \<noteq> k" "q \<noteq> p" "q \<noteq> 0" using out by auto
  then have sq: "sep h 16 q 16" "sep k 16 q 16" "sep p 16 q 16" using q by (auto intro!: s)
  show "mp_next m' q = mp_next m q \<and> mp_prev m' q = mp_prev m q
      \<and> mp_size m' q = mp_size m q \<and> mp_address m' q = mp_address m q"
  proof (cases "q = ?n")
    case True
    then have "mp_prev m q = h" using nxt \<open>q \<noteq> 0\<close> by auto
    then show ?thesis using sq by (simp add: m' add_other mp_simps True [symmetric])
  next
    case False
    then have "sep ?n 16 q 16" using q n(1) by (auto intro!: s)
    then show ?thesis using sq by (simp add: m' add_other mp_simps)
  qed
qed

lemma move_listed:
  fixes m h k b
  defines "m' \<equiv> add_mm_list_entry k (fst b) (remove_mm_list_entry (fst b) m)"
  assumes h: "listed m h (as @ b # cs)" and k: "listed m k ds"
    and d: "distinct (0 # h # k # map fst (as @ b # cs) @ map fst ds)"
    and ns: "nodes_sep 16 (0 # h # k # map fst (as @ b # cs) @ map fst ds)"
  shows "listed m' h cs" and "listed m' k (b # ds)" and "mp_size m' h = mp_size m h"
    and "mp_address m' h = mp_address m h" and "mp_size m' k = mp_size m k" and "mp_address m' k = mp_address m k"
proof -
  let ?p = "fst b" and ?qs = "map fst (cs @ ds)"
  have p: "mp_prev m ?p = h" using h by (auto simp: listed_def)
  have n: "mp_next m ?p = 0 \<or> mp_next m ?p \<in> set ?qs \<and> mp_prev m (mp_next m ?p) = h"
    using listed_next [OF h] h by (cases cs) (auto simp: listed_def)
  have ns': "nodes_sep 16 (0 # h # k # ?p # ?qs)" by (rule nodes_sep_subset [OF ns]) auto
  have d': "distinct [0, h, k, ?p]" "{0, h, k, ?p} \<inter> set ?qs = {}" using d by auto
  note f = move_fields [OF p n ns' d'(1) refl d'(2), folded m'_def]
  show "mp_size m' h = mp_size m h" "mp_address m' h = mp_address m h" "mp_size m' k = mp_size m k" "mp_address m' k = mp_address m k"
    using f by simp_all
  have "chain (mp_next m) ?p (map fst cs)" using h chain_split by (auto simp: listed_def)
  then have "chain (mp_next m') h (map fst cs)"
    by (rule chain_relink) (simp_all add: f)
  then show "listed m' h cs" using h f(11) by (auto simp: listed_def)
  have "chain (mp_next m) k (map fst ds)" using k by (simp add: listed_def)
  then have "chain (mp_next m') ?p (map fst ds)"
    by (rule chain_relink) (simp_all add: f)
  then show "listed m' k (b # ds)"
    using h k f(4,8-11) d by (auto simp: listed_def)
qed

section \<open>The operations\<close>

lemma free_implements:
  assumes heap: "heap_of L base low span H m" and run: "a_free p H = Some H'"
  shows "heap_of L base low span H' (free L p m)"
proof -
  obtain b cs where b: "take_out p (ublocks H) = Some (b, cs)" "H' = H\<lparr>fblocks := b # fblocks H, ublocks := cs\<rparr>"
    using run by (auto simp: a_free_def split: option.splits)
  from take_out_split [OF b(1)] obtain as where as: "ublocks H = as @ b # cs" "fst b = p" by blast
  have p: "placed L base low span H" using heap by (simp add: heap_of_def)
  have d: "distinct (0 # s_mm_used L # s_mm_free L # map fst (as @ b # cs) @ map fst (fblocks H))"
    and ns: "nodes_sep 16 (0 # s_mm_used L # s_mm_free L # map fst (as @ b # cs) @ map fst (fblocks H))"
    using p by (auto simp: placed_def a_nodes_def as(1) elim: nodes_sep_subset)
  have "placed L base low span H'"
    using p by (auto simp: placed_def a_nodes_def as b(2) elim: nodes_sep_subset)
  then show ?thesis
    using heap move_listed [OF _ _ d ns, of m] as by (simp add: heap_of_def b(2) free_def)
qed

lemma carve_placed:
  assumes p: "placed L base low span H" and room: "unat low + unat sz + 16 \<le> unat (room H)"
  defines "left \<equiv> room H - (sz + 16)"
  shows "placed L base low span (H\<lparr>room := left, ublocks := (base + left, sz) # ublocks H\<rparr>)"
    and "\<And>q. q \<in> set (0 # a_nodes L H) \<Longrightarrow> sep (base + left) 16 q 16"
proof -
  have "unat (sz + 16) = unat sz + 16"
    using room unat_less_4G [of "room H"] by (simp add: unat_word_ariths)
  then have left: "unat left + unat sz + 16 = unat (room H)"
    using room by (simp add: left_def unat_sub word_le_nat_alt)
  have s: "sep (base + left) 16 q 16" if q: "q \<in> set (0 # a_nodes L H)" for q
  proof (cases "q \<in> {0, s_mm_free L, s_mm_used L}")
    case True
    then have "sep (base + low) (span - unat low) q 16" "unat left + 16 \<le> span" using p left by (auto simp: placed_def)
    moreover from this have "unat (left - low) + 16 \<le> span - unat low"
      using left room by (simp add: unat_sub word_le_nat_alt)
    ultimately have "sep (base + low + (left - low)) 16 q 16"
      using sep_sub_left [of "base + low" "span - unat low" q 16 "left - low" 16 16] by simp
    then show ?thesis by simp
  next
    case False
    then obtain b where b: "b \<in> set (fblocks H @ ublocks H)" "q = fst b" using q by (auto simp: a_nodes_def)
    then have q: "unat (room H) \<le> unat (q - base)" "unat (q - base) + 16 \<le> span" "span \<le> 4294967296"
      using p by (auto simp: placed_def word_le_nat_alt)
    have "q - (base + left) = (q - base) - left" by simp
    also have "unat \<dots> = unat (q - base) - unat left" using q left by (intro unat_sub) (simp add: word_le_nat_alt)
    finally have "16 \<le> unat (q - (base + left))" "unat (q - (base + left)) + 16 \<le> 4294967296"
      using q left by linarith+
    then show ?thesis by (simp add: sep_iff)
  qed
  show "\<And>q. q \<in> set (0 # a_nodes L H) \<Longrightarrow> sep (base + left) 16 q 16" by (rule s)
  have new: "base + left \<notin> set (0 # a_nodes L H)"
    using s [of "base + left"] by (auto simp: sep_def)
  show "placed L base low span (H\<lparr>room := left, ublocks := (base + left, sz) # ublocks H\<rparr>)"
  proof -
    let ?H = "H\<lparr>room := left, ublocks := (base + left, sz) # ublocks H\<rparr>"
    have same: "set (0 # a_nodes L ?H) = set ((base + left) # 0 # a_nodes L H)" by (auto simp: a_nodes_def)
    have "nodes_sep 16 (0 # a_nodes L H)" using p by (simp add: placed_def)
    then have "nodes_sep 16 ((base + left) # 0 # a_nodes L H)" using s by (rule nodes_sep_Cons)
    then have ns: "nodes_sep 16 (0 # a_nodes L ?H)" by (rule nodes_sep_subset) (simp only: same)
    have "distinct (0 # a_nodes L H)" using p by (simp add: placed_def)
    then have d: "distinct (0 # a_nodes L ?H)" using new by (auto simp: a_nodes_def)
    have "left \<le> room H" "low \<le> left" "unat left + 16 \<le> span" using p left room by (auto simp: placed_def word_le_nat_alt)
    then show ?thesis using p d ns unfolding placed_def by (auto intro: order_trans word_le_nat_alt [THEN iffD1])
  qed
qed

lemma carve_implements:
  assumes heap: "heap_of L base low span H m" and room: "unat low + unat sz + 16 \<le> unat (room H)"
  defines "left \<equiv> room H - (sz + 16)"
  shows "fst (malloc_carve L sz (s_mm_free L) m) = base + left"
    and "heap_of L base low span (H\<lparr>room := left, ublocks := (base + left, sz) # ublocks H\<rparr>)
      (snd (malloc_carve L sz (s_mm_free L) m))"
proof -
  let ?f = "s_mm_free L" and ?u = "s_mm_used L" and ?t = "base + left"
  let ?m = "snd (malloc_carve L sz ?f m)"
  have h: "placed L base low span H" "listed m ?f (fblocks H)" "listed m ?u (ublocks H)"
    "mp_size m ?f = room H" "mp_address m ?f = base"
    using heap by (simp_all add: heap_of_def)
  have d: "distinct (0 # a_nodes L H)" and ns: "nodes_sep 16 (0 # a_nodes L H)" using h(1) by (simp_all add: placed_def)
  note cp = carve_placed [OF h(1) room, folded left_def]
  have nodes: "?f \<in> set (0 # a_nodes L H)" "?u \<in> set (0 # a_nodes L H)" by (simp_all add: a_nodes_def)
  have s: "sep ?f 16 ?t 16" "sep ?f 16 ?u 16" "sep ?u 16 ?t 16"
    using cp(2) [OF nodes(1)] cp(2) [OF nodes(2)] nodes_sepD [OF ns nodes] d
    by (auto simp: sep_sym [of ?t] a_nodes_def)
  note c = carve_fields [where L = L and l = ?f and m = m and sz = sz, unfolded h(4,5), folded left_def, OF s]
  show "fst (malloc_carve L sz ?f m) = ?t" by (rule c(1))
  have other: "mp_next ?m q = mp_next m q \<and> mp_prev ?m q = mp_prev m q \<and> mp_size ?m q = mp_size m q
      \<and> mp_address ?m q = mp_address m q" if q: "q \<in> set (map fst (fblocks H @ ublocks H))" for q
  proof -
    have "q \<in> set (0 # a_nodes L H)" "q \<noteq> ?f" "q \<noteq> ?u" using q d by (auto simp: a_nodes_def)
    then have "sep ?f 16 q 16" "sep ?u 16 q 16" "sep ?t 16 q 16"
      using cp(2) nodes_sepD [OF ns] nodes by auto
    then have "?m x = m x" if "inreg q 16 x" for x using that c(11) sep_notin by blast
    then show ?thesis using mp_local [of q ?m m] by blast
  qed
  have "listed ?m ?f (fblocks H)" by (rule listed_cong [OF h(2)]) (use other c(4) in auto)
  moreover have "listed ?m ?u ((?t, sz) # ublocks H)"
  proof -
    have "chain (mp_next m) ?u (map fst (ublocks H))" using h(3) by (simp add: listed_def)
    then have "chain (mp_next ?m) ?t (map fst (ublocks H))" by (rule chain_relink) (use other c(9) in auto)
    moreover have "?t \<noteq> 0" using cp(2) [of 0] by (auto simp: sep_def)
    ultimately show ?thesis using h(3) other c(6-8,10) by (auto simp: listed_def)
  qed
  ultimately show "heap_of L base low span (H\<lparr>room := left, ublocks := (?t, sz) # ublocks H\<rparr>) ?m"
    using cp(1) c(2,3) h(4,5) by (simp add: heap_of_def left_def)
qed

lemma reuse_implements:
  assumes heap: "heap_of L base low span H m" and pick: "pick sz (fblocks H) = Some (b, bs)"
  shows "heap_of L base low span (H\<lparr>fblocks := bs, ublocks := b # ublocks H\<rparr>)
    (add_mm_list_entry (s_mm_used L) (fst b) (remove_mm_list_entry (fst b) m))"
proof -
  from pick_split [OF pick] obtain as where as: "fblocks H = as @ b # bs" by blast
  have p: "placed L base low span H" using heap by (simp add: heap_of_def)
  have d: "distinct (0 # s_mm_free L # s_mm_used L # map fst (as @ b # bs) @ map fst (ublocks H))"
    and ns: "nodes_sep 16 (0 # s_mm_free L # s_mm_used L # map fst (as @ b # bs) @ map fst (ublocks H))"
    using p by (auto simp: placed_def a_nodes_def as elim: nodes_sep_subset)
  have "placed L base low span (H\<lparr>fblocks := bs, ublocks := b # ublocks H\<rparr>)"
    using p by (auto simp: placed_def a_nodes_def as elim: nodes_sep_subset)
  then show ?thesis
    using heap move_listed [OF _ _ d ns, of m] as by (simp add: heap_of_def)
qed

lemma malloc_implements:
  assumes heap: "heap_of L base low span H (ram s)" and run: "a_malloc base low sz H = Some (p, H')"
  shows "\<exists>m. malloc L sz s = ret (p, s\<lparr>ram := m\<rparr>) \<and> heap_of L base low span H' m"
proof -
  let ?f = "s_mm_free L" and ?m = "ram s"
  have fl: "listed ?m ?f (fblocks H)" and size: "mp_size ?m ?f = room H" using heap by (simp_all add: heap_of_def)
  then have c: "chain (mp_next ?m) ?f (map fst (fblocks H))" and sizes: "\<forall>b \<in> set (fblocks H). mp_size ?m (fst b) = snd b"
    by (simp_all add: listed_def)
  have guard: "fblocks H = [] \<or> \<not> good_buddy (room H) sz" using run by (auto simp: a_malloc_def split: if_splits)
  have scan: "scan_spec (mp_size ?m) sz (butlast (?f # map fst (fblocks H))) ?f
      = scan_spec (mp_size ?m) sz (butlast (map fst (fblocks H))) ?f"
    using guard size by auto
  show ?thesis
  proof (cases "pick sz (fblocks H)")
    case (Some r)
    obtain b bs where r: "r = (b, bs)" by (cases r)
    then have H': "p = fst b" "H' = H\<lparr>fblocks := bs, ublocks := b # ublocks H\<rparr>"
      using run guard Some by (auto simp: a_malloc_def)
    have "malloc_scan ?m sz ?f ?f = Some (Inl p)"
      using malloc_scan_chain [OF c, of sz ?f] scan scan_picks [OF Some [unfolded r] sizes, of ?f] H' by simp
    then have "malloc L sz s = ret (p, s\<lparr>ram := add_mm_list_entry (s_mm_used L) p (remove_mm_list_entry p ?m)\<rparr>)"
      by (simp add: malloc_def)
    then show ?thesis using reuse_implements [OF heap Some [unfolded r]] H' by blast
  next
    case None
    let ?left = "room H - (sz + 16)"
    have room: "unat low + unat sz + 16 \<le> unat (room H)" and small: "list_all (\<lambda>b. snd b \<le> room H) (fblocks H)"
      and H': "p = base + ?left" "H' = H\<lparr>room := ?left, ublocks := (base + ?left, sz) # ublocks H\<rparr>"
      using run guard None by (auto simp: a_malloc_def Let_def split: if_splits)
    have "scan_spec (mp_size ?m) sz (butlast (?f # map fst (fblocks H))) ?f = Inr ?f"
      using scan scan_none [OF None, of "mp_size ?m" ?f] sizes small size by (simp add: list_all_iff)
    moreover have "sz \<le> mp_size ?m ?f" using room size by (simp add: word_le_nat_alt)
    ultimately show ?thesis
      using malloc_carving [OF c] carve_implements [OF heap room] H' by auto
  qed
qed

lemma store_implements:
  assumes heap: "heap_of L base low span H m" and run: "a_store L a H = Some H'"
  shows "heap_of L base low span H' (store8 m a v)"
proof -
  have H': "H' = H" and a: "\<And>p. p \<in> set (a_nodes L H) \<Longrightarrow> \<not> inreg p 16 a"
    using run by (auto simp: a_store_def list_all_iff split: if_splits)
  have same: "mp_prev (store8 m a v) p = mp_prev m p" "mp_next (store8 m a v) p = mp_next m p"
    "mp_address (store8 m a v) p = mp_address m p" "mp_size (store8 m a v) p = mp_size m p"
    if "p \<in> set (a_nodes L H)" for p
    by (rule mp_local, use a [OF that] in \<open>auto simp: store8_def\<close>)+
  have "listed (store8 m a v) (s_mm_free L) (fblocks H)" "listed (store8 m a v) (s_mm_used L) (ublocks H)"
    by (rule listed_cong [where m = m], use heap same in \<open>auto simp: heap_of_def a_nodes_def\<close>)+
  then show ?thesis using heap same [of "s_mm_free L"] by (simp add: H' heap_of_def a_nodes_def)
qed

lemma run_implements:
  "heap_of L base low span H (ram s) \<Longrightarrow> a_run L base low es H = Some (ps, H') \<Longrightarrow>
     \<exists>m. heap_run L es s = ret (ps, s\<lparr>ram := m\<rparr>) \<and> heap_of L base low span H' m"
proof (induction es arbitrary: H s ps)
  case Nil
  then show ?case by (intro exI [of _ "ram s"]) simp
next
  case (Cons e es)
  show ?case
  proof (cases e)
    case (Alloc sz)
    obtain p H1 ps' where 1: "a_malloc base low sz H = Some (p, H1)" "a_run L base low es H1 = Some (ps', H')" "ps = p # ps'"
      using Cons.prems(2) by (auto simp: Alloc split: option.splits)
    obtain m where "malloc L sz s = ret (p, s\<lparr>ram := m\<rparr>)" "heap_of L base low span H1 m"
      using malloc_implements [OF Cons.prems(1) 1(1)] by blast
    then show ?thesis using Cons.IH [of H1 "s\<lparr>ram := m\<rparr>", OF _ 1(2)] 1(3) by (auto simp: Alloc)
  next
    case (Release p)
    obtain H1 where 1: "a_free p H = Some H1" "a_run L base low es H1 = Some (ps, H')"
      using Cons.prems(2) by (auto simp: Release split: option.splits)
    show ?thesis
      using Cons.IH [of H1 "with_ram (free L p) s", OF _ 1(2)] free_implements [OF Cons.prems(1) 1(1)]
      by (auto simp: Release)
  next
    case (Store a v)
    obtain H1 where 1: "a_store L a H = Some H1" "a_run L base low es H1 = Some (ps, H')"
      using Cons.prems(2) by (auto simp: Store split: option.splits)
    show ?thesis
      using Cons.IH [of H1 "with_ram (\<lambda>m. store8 m a v) s", OF _ 1(2)] store_implements [OF Cons.prems(1) 1(1)]
      by (auto simp: Store)
  qed
qed

text \<open>What booting leaves behind: the test block of \<open>init_mm\<close> in the free list, and the rest in its header.\<close>

definition first_heap :: "addr \<Rightarrow> 32 word \<Rightarrow> heap" where
  "first_heap base left = \<lparr>room = left, fblocks = [(base + left, 1024)], ublocks = []\<rparr>"

text \<open>The part of the heap above \<open>low\<close>, where blocks may be made, misses the two headers and address 0.\<close>

definition arena_ok :: "syms \<Rightarrow> addr \<Rightarrow> 32 word \<Rightarrow> 32 word \<Rightarrow> bool" where
  "arena_ok L base low left \<longleftrightarrow> low \<le> left \<and> unat left + 1040 \<le> 4294967296
     \<and> list_all (\<lambda>q. sep (base + low) (unat left + 1040 - unat low) q 16) [0, s_mm_free L, s_mm_used L]"

lemma first_heap_of:
  assumes "chain (mp_next m) (s_mm_free L) [t]" "chain (mp_next m) (s_mm_used L) []"
    "mp_address m (s_mm_free L) = base" "mp_size m (s_mm_free L) = left"
    "mp_size m t = 1024" "mp_address m t = t + 256" "mp_prev m t = s_mm_free L"
    and t: "t = base + left" and arena: "arena_ok L base low left"
    and sep: "sep 0 16 (s_mm_free L) 16" "sep 0 16 (s_mm_used L) 16" "sep (s_mm_free L) 16 (s_mm_used L) 16"
  shows "heap_of L base low (unat left + 1040) (first_heap base left) m"
proof -
  have "unat (left - low) + 16 \<le> unat left + 1040 - unat low"
    using arena by (simp add: arena_ok_def word_le_nat_alt unat_sub)
  then have "sep (base + low + (left - low)) 16 q 16" if "sep (base + low) (unat left + 1040 - unat low) q 16" for q
    using sep_sub_left [OF that, of "left - low" 16 16] by simp
  then have s: "sep t 16 0 16" "sep t 16 (s_mm_free L) 16" "sep t 16 (s_mm_used L) 16"
    using arena by (auto simp: arena_ok_def t)
  have "nodes_sep 16 [0, s_mm_free L, s_mm_used L, t]"
    using sep s sep [THEN sep_sym [THEN iffD1]] s [THEN sep_sym [THEN iffD1]] by (simp add: nodes_sep_def)
  moreover have "distinct [0, s_mm_free L, s_mm_used L, t]"
    using sep s by (auto simp: sep_def)
  ultimately have "placed L base low (unat left + 1040) (first_heap base left)"
    using arena by (simp add: placed_def a_nodes_def first_heap_def arena_ok_def t)
  then show ?thesis
    using assms(1-7) by (simp add: heap_of_def listed_def first_heap_def t)
qed

section \<open>Releasing blocks in the order of their allocation\<close>

text \<open>C37. Two blocks are released in the order in which they were allocated: the first
  release has dropped the second block, whose link still leads to the first one. The second release
  makes the free blocks used ones as well: both lists run through the first block and every block that
  was free before.\<close>

theorem frees_merge_lists:
  assumes heap: "heap_of L base low span H m" and used: "ublocks H = b # a # us"
  defines "m' \<equiv> free L (fst b) (free L (fst a) m)"
  shows "chain (mp_next m') (s_mm_free L) (fst b # fst a # map fst (fblocks H))
    \<and> chain (mp_next m') (s_mm_used L) (fst a # map fst (fblocks H))"
proof -
  let ?f = "s_mm_free L" and ?u = "s_mm_used L" and ?a = "fst a" and ?b = "fst b" and ?fs = "map fst (fblocks H)"
  let ?qs = "?b # ?fs @ map fst us"
  define m1 where "m1 = free L ?a m"
  have h: "listed m ?f (fblocks H)" "listed m ?u ([b] @ a # us)" using heap used by (simp_all add: heap_of_def)
  have d: "distinct (0 # ?f # ?u # ?fs @ ?b # ?a # map fst us)"
    and ns: "nodes_sep 16 (0 # ?f # ?u # ?fs @ ?b # ?a # map fst us)"
    using heap by (simp_all add: heap_of_def placed_def a_nodes_def used)
  have pa: "mp_prev m ?a = ?u" "mp_prev m ?b = ?u" "mp_next m ?b = ?a" using h(2) by (simp_all add: listed_def)
  have n: "mp_next m ?a = 0 \<or> mp_next m ?a \<in> set ?qs \<and> mp_prev m (mp_next m ?a) = ?u"
    using listed_next [OF h(2)] h(2) by (cases us) (auto simp: listed_def)
  have ns': "nodes_sep 16 (0 # ?u # ?f # ?a # ?qs)" by (rule nodes_sep_subset [OF ns]) auto
  have d': "distinct [0, ?u, ?f, ?a]" "{0, ?u, ?f, ?a} \<inter> set ?qs = {}" using d by auto
  note f = move_fields [OF pa(1) n ns' d'(1) refl d'(2), folded free_def, folded m1_def]
  have b1: "mp_prev m1 ?b = ?u" "mp_next m1 ?b = ?a" using f(11) [of ?b] pa by simp_all
  have m': "m' = add_mm_list_entry ?f ?b (set_next (set_prev (set_prev (set_next m1 ?u ?a) ?a ?u) ?b 0) ?b 0)"
    by (simp add: m'_def m1_def [symmetric] free_def [of L ?b] remove_mm_list_entry_def Let_def b1)
  have s: "sep ?u 16 q 16" "sep ?f 16 q 16" "sep ?b 16 q 16" if "q \<in> set (?a # ?fs)" for q
  proof -
    have ne: "?u \<noteq> q" "?f \<noteq> q" "?b \<noteq> q" using that d by auto
    have q: "q \<in> set (0 # ?f # ?u # ?fs @ ?b # ?a # map fst us)" using that by auto
    show "sep ?u 16 q 16" "sep ?f 16 q 16" "sep ?b 16 q 16"
      by (rule nodes_sepD [OF ns _ q]; simp add: ne)+
  qed
  have s': "sep ?u 16 ?f 16" "sep ?u 16 ?b 16" "sep ?f 16 ?b 16" using d by (auto intro!: nodes_sepD [OF ns])
  note sy = s' s' [THEN sep_sym [THEN iffD1]] s [of ?a] s [of ?a, THEN sep_sym [THEN iffD1]]
  have links: "mp_next m' ?u = ?a" "mp_next m' ?f = ?b" "mp_next m' ?b = ?a"
    using sy f(4) by (simp_all add: m' add_fields add_other mp_simps)
  have rest: "mp_next m' q = mp_next m1 q" if q: "q \<in> set (?a # ?fs)" for q
  proof (cases "q = ?a")
    case False
    then have "sep ?a 16 q 16" using q by (intro nodes_sepD [OF ns]) auto
    then show ?thesis using s [OF q] by (simp add: m' add_other mp_simps)
  qed (use sy in \<open>simp add: m' add_other mp_simps\<close>)
  have "chain (mp_next m) ?f ?fs" using h(1) by (simp add: listed_def)
  then have "chain (mp_next m') ?a ?fs" by (rule chain_relink) (use rest f(7,11) in auto)
  then show ?thesis using links d by simp
qed

text \<open>A heap of 4096 bytes at 0x200000, with nothing allocated yet.\<close>

definition sample_heap :: mem where
  "sample_heap = set_size (set_address (\<lambda>_. 0) 0x101200 0x200000) 0x101200 0x1000"

lemma sample_heap_of:
  "heap_of sample_syms 0x200000 0 0x1000 \<lparr>room = 0x1000, fblocks = [], ublocks = []\<rparr> sample_heap"
  by (simp add: heap_of_def placed_def a_nodes_def listed_def sample_heap_def nodes_sep_def mp_simps sep_simps)

lemma frees_merge_lists_witness:
  "\<exists>m. heap_run sample_syms [Alloc 100, Alloc 200] (sample_state\<lparr>ram := sample_heap\<rparr>)
      = ret ([0x200F8C, 0x200EB4], sample_state\<lparr>ram := m\<rparr>)
    \<and> chain (mp_next (free sample_syms 0x200EB4 (free sample_syms 0x200F8C m))) 0x101200 [0x200EB4, 0x200F8C]
    \<and> chain (mp_next (free sample_syms 0x200EB4 (free sample_syms 0x200F8C m))) 0x101210 [0x200F8C]"
proof -
  have "a_run sample_syms 0x200000 0 [Alloc 100, Alloc 200] \<lparr>room = 0x1000, fblocks = [], ublocks = []\<rparr>
      = Some ([0x200F8C, 0x200EB4], \<lparr>room = 0xEB4, fblocks = [], ublocks = [(0x200EB4, 200), (0x200F8C, 100)]\<rparr>)"
    by (simp add: a_malloc_def Let_def)
  from run_implements [of _ _ _ _ _ "sample_state\<lparr>ram := sample_heap\<rparr>", OF _ this]
  obtain m where m: "heap_run sample_syms [Alloc 100, Alloc 200] (sample_state\<lparr>ram := sample_heap\<rparr>)
      = ret ([0x200F8C, 0x200EB4], sample_state\<lparr>ram := m\<rparr>)"
    "heap_of sample_syms 0x200000 0 0x1000
      \<lparr>room = 0xEB4, fblocks = [], ublocks = [(0x200EB4, 200), (0x200F8C, 100)]\<rparr> m"
    using sample_heap_of by fastforce
  from frees_merge_lists [OF m(2)] show ?thesis using m(1) by (intro exI [of _ m]) simp
qed

end
