(* ===== verification/Gdt.thy ===== *)
theory Gdt
  imports Samples
begin

text \<open>
  Segment descriptors (\<^verbatim>\<open>gdt.c\<close>): the packed table in memory, as the code writes it and as the
  processor reads it.
\<close>

section \<open>The code\<close>

text \<open>
  The offsets of the packed fields of \<^verbatim>\<open>struct gdt_entry\<close>: limit\_low 0, base\_low 2, base\_middle 4,
  access 5, granularity 6, base\_high 7.
\<close>

record gdt_entry =
  ge_limit_low :: "16 word"
  ge_base_low :: "16 word"
  ge_base_middle :: byte
  ge_access :: byte
  ge_granularity :: byte
  ge_base_high :: byte

definition gdt_entry_at :: "mem \<Rightarrow> addr \<Rightarrow> gdt_entry" where
  "gdt_entry_at m p = \<lparr>ge_limit_low = load16 m p, ge_base_low = load16 m (p + 2), ge_base_middle = load8 m (p + 4),
     ge_access = load8 m (p + 5), ge_granularity = load8 m (p + 6), ge_base_high = load8 m (p + 7)\<rparr>"

text \<open>\<^verbatim>\<open>struct gdt_ptr\<close>: the last byte of the table and its address.\<close>

definition gdt_ptr_at :: "mem \<Rightarrow> addr \<Rightarrow> 16 word \<times> 32 word" where
  "gdt_ptr_at m p = (load16 m p, load32 m (p + 2))"

definition gdt_set_gate :: "syms \<Rightarrow> cint \<Rightarrow> 32 word \<Rightarrow> 32 word \<Rightarrow> byte \<Rightarrow> byte \<Rightarrow> mem \<Rightarrow> mem" where
  "gdt_set_gate L num base limit access gran m =
     (let p = s_gdt L + 8 * num;
          m = store16 m (p + 2) (ucast (base AND 0xFFFF));
          m = store8 m (p + 4) (ucast (drop_bit 16 base AND 0xFF));
          m = store8 m (p + 7) (ucast (drop_bit 24 base AND 0xFF));
          m = store16 m p (ucast (limit AND 0xFFFF));
          m = store8 m (p + 6) (ucast (drop_bit 16 limit AND 0x0F));
          m = store8 m (p + 6) (load8 m (p + 6) OR (gran AND 0xF0))
      in store8 m (p + 5) access)"

text \<open>\<open>gdt_flush\<close> (isr.S): load the table register and reload the segment registers.\<close>

definition gdt_flush :: "syms \<Rightarrow> kstate \<Rightarrow> kstate" where
  "gdt_flush L s =
     s\<lparr>gdtr := gdt_ptr_at (ram s) (s_gp L), data_seg := 0x10, code_seg := 0x08\<rparr>"

definition gdt_install :: "syms \<Rightarrow> kstate \<Rightarrow> kstate" where
  "gdt_install L s =
     (let m = store16 (ram s) (s_gp L) (8 * 3 - 1);
          m = store32 m (s_gp L + 2) (s_gdt L);
          m = gdt_set_gate L 0 0 0 0 0 m;
          m = gdt_set_gate L 1 0 0xFFFFFFFF 0x9A 0xCF m;
          m = gdt_set_gate L 2 0 0xFFFFFFFF 0x92 0xCF m
      in gdt_flush L (s\<lparr>ram := m\<rparr>))"

definition init_gdt :: "syms \<Rightarrow> kstate \<Rightarrow> kstate" where
  "init_gdt L s = gdt_install L s"

section \<open>What the processor reads\<close>

text \<open>
  The descriptor format of the processor: a base scattered over bytes 2, 3, 4 and 7, a 20-bit limit
  in bytes 0, 1 and the low half of 6, the flags in the high half of 6, the access byte in 5.
\<close>

definition desc_base :: "mem \<Rightarrow> addr \<Rightarrow> 32 word" where
  "desc_base m p = (let e = gdt_entry_at m p in
     ucast (ge_base_low e) OR push_bit 16 (ucast (ge_base_middle e)) OR push_bit 24 (ucast (ge_base_high e)))"

definition desc_limit :: "mem \<Rightarrow> addr \<Rightarrow> 32 word" where
  "desc_limit m p = (let e = gdt_entry_at m p in ucast (ge_limit_low e) OR push_bit 16 (ucast (ge_granularity e AND 0x0F)))"

definition desc_flags :: "mem \<Rightarrow> addr \<Rightarrow> byte" where
  "desc_flags m p = ge_granularity (gdt_entry_at m p) AND 0xF0"

definition desc_access :: "mem \<Rightarrow> addr \<Rightarrow> byte" where
  "desc_access m p = ge_access (gdt_entry_at m p)"

text \<open>The first and last byte of the segment: page granularity counts the limit in 4 KiB units.\<close>

definition desc_last :: "mem \<Rightarrow> addr \<Rightarrow> 32 word" where
  "desc_last m p =
     (if bit (desc_flags m p) 7 then push_bit 12 (desc_limit m p) OR 0xFFF else desc_limit m p)"

lemma gate_bytes:
  defines "p \<equiv> \<lambda>L num. s_gdt L + 8 * num"
  shows "load16 (gdt_set_gate L num base limit access gran m) (p L num) = ucast (limit AND 0xFFFF)"
    and "load16 (gdt_set_gate L num base limit access gran m) (p L num + 2) = ucast (base AND 0xFFFF)"
    and "load8 (gdt_set_gate L num base limit access gran m) (p L num + 4) =
      ucast (drop_bit 16 base AND 0xFF)"
    and "load8 (gdt_set_gate L num base limit access gran m) (p L num + 5) = access"
    and "load8 (gdt_set_gate L num base limit access gran m) (p L num + 6) =
      ucast (drop_bit 16 limit AND 0x0F) OR (gran AND 0xF0)"
    and "load8 (gdt_set_gate L num base limit access gran m) (p L num + 7) =
      ucast (drop_bit 24 base AND 0xFF)"
  unfolding p_def gdt_set_gate_def Let_def
  by (simp_all add: mem_simps sep_simps)

lemma gate_outside:
  assumes "\<not> inreg (s_gdt L + 8 * num) 8 x"
  shows "gdt_set_gate L num base limit access gran m x = m x"
  using inreg_fields [OF assms]
  by (simp add: gdt_set_gate_def Let_def c16.st_outside c8.st_outside)

lemma desc_base_parts:
  fixes base :: "32 word"
  shows "ucast (ucast (base AND 0xFFFF) :: 16 word) OR
    push_bit 16 (ucast (ucast (drop_bit 16 base AND 0xFF) :: byte)) OR
    push_bit 24 (ucast (ucast (drop_bit 24 base AND 0xFF) :: byte)) = base"
  unfolding mask_numerals
  apply (rule bit_eqI)
  subgoal for n by (cases "24 \<le> n") (auto simp: bit_simps)
  done

lemma desc_limit_parts:
  fixes limit :: "32 word" and gran :: byte
  shows "ucast (ucast (limit AND 0xFFFF) :: 16 word) OR
    push_bit 16 (ucast ((ucast (drop_bit 16 limit AND 0x0F) OR (gran AND 0xF0)) AND 0x0F :: byte)) =
    limit AND 0xFFFFF"
  unfolding mask_numerals by (rule bit_eqI) (auto simp: bit_simps)

lemma desc_flags_parts:
  fixes limit :: "32 word" and gran :: byte
  shows "(ucast (drop_bit 16 limit AND 0x0F) OR (gran AND 0xF0)) AND 0xF0 = gran AND 0xF0"
  unfolding mask_numerals by (rule bit_eqI) (auto simp: bit_simps)

lemma gate_decode:
  "desc_base (gdt_set_gate L num base limit access gran m) (s_gdt L + 8 * num) = base"
  "desc_limit (gdt_set_gate L num base limit access gran m) (s_gdt L + 8 * num) = limit AND 0xFFFFF"
  "desc_access (gdt_set_gate L num base limit access gran m) (s_gdt L + 8 * num) = access"
  "desc_flags (gdt_set_gate L num base limit access gran m) (s_gdt L + 8 * num) = gran AND 0xF0"
  by (simp_all add: desc_base_def desc_limit_def desc_access_def gdt_entry_at_def Let_def desc_flags_def gate_bytes
      desc_base_parts desc_limit_parts desc_flags_parts)

text \<open>C15. What \<open>gdt_set_gate\<close> stores is what the processor decodes: the base in
  full, the low 20 bits of the limit, the access byte and the high half of the flags byte; no byte
  outside the entry changes.\<close>

theorem gdt_gate_roundtrip:
  "desc_base (gdt_set_gate L num base limit access gran m) (s_gdt L + 8 * num) = base
   \<and> desc_limit (gdt_set_gate L num base limit access gran m) (s_gdt L + 8 * num) = limit AND 0xFFFFF
   \<and> desc_access (gdt_set_gate L num base limit access gran m) (s_gdt L + 8 * num) = access
   \<and> desc_flags (gdt_set_gate L num base limit access gran m) (s_gdt L + 8 * num) = gran AND 0xF0
   \<and> (\<forall>x. inreg (s_gdt L + 8 * num) 8 x \<or> gdt_set_gate L num base limit access gran m x = m x)"
  by (simp add: gate_decode gate_outside disj_imp)

section \<open>The installed table\<close>

lemma desc_local:
  assumes "\<And>x. inreg p 8 x \<Longrightarrow> m' x = m x"
  shows "desc_base m' p = desc_base m p" "desc_limit m' p = desc_limit m p"
    "desc_flags m' p = desc_flags m p" "desc_access m' p = desc_access m p"
proof -
  have "load16 m' p = load16 m p"
    by (rule c16.ld_local, rule assms, erule inreg_mono, simp)
  moreover have "load16 m' (p + 2) = load16 m (p + 2)"
    by (rule c16.ld_local, rule assms, erule inreg_sub, simp)
  moreover have "load8 m' (p + i) = load8 m (p + i)" if "unat i < 8" for i
    by (rule c8.ld_local, rule assms, erule inreg_sub, use that in simp)
  ultimately show "desc_base m' p = desc_base m p" "desc_limit m' p = desc_limit m p"
    "desc_flags m' p = desc_flags m p" "desc_access m' p = desc_access m p"
    by (simp_all add: desc_base_def desc_limit_def desc_flags_def desc_access_def gdt_entry_at_def Let_def)
qed

lemma gate_other:
  assumes "sep (8 * num) 8 (8 * k) 8"
  shows "desc_base (gdt_set_gate L num base limit access gran m) (s_gdt L + 8 * k) =
      desc_base m (s_gdt L + 8 * k)"
    and "desc_limit (gdt_set_gate L num base limit access gran m) (s_gdt L + 8 * k) =
      desc_limit m (s_gdt L + 8 * k)"
    and "desc_flags (gdt_set_gate L num base limit access gran m) (s_gdt L + 8 * k) =
      desc_flags m (s_gdt L + 8 * k)"
    and "desc_access (gdt_set_gate L num base limit access gran m) (s_gdt L + 8 * k) =
      desc_access m (s_gdt L + 8 * k)"
proof -
  have "gdt_set_gate L num base limit access gran m x = m x" if "inreg (s_gdt L + 8 * k) 8 x" for x
    using assms that sep_notin [of "s_gdt L + 8 * num" 8 "s_gdt L + 8 * k" 8 x]
    by (intro gate_outside) (simp add: sep_simps)
  then show "desc_base (gdt_set_gate L num base limit access gran m) (s_gdt L + 8 * k) =
      desc_base m (s_gdt L + 8 * k)"
    and "desc_limit (gdt_set_gate L num base limit access gran m) (s_gdt L + 8 * k) =
      desc_limit m (s_gdt L + 8 * k)"
    and "desc_flags (gdt_set_gate L num base limit access gran m) (s_gdt L + 8 * k) =
      desc_flags m (s_gdt L + 8 * k)"
    and "desc_access (gdt_set_gate L num base limit access gran m) (s_gdt L + 8 * k) =
      desc_access m (s_gdt L + 8 * k)"
    using desc_local by blast+
qed

lemma gate_frame_table:
  assumes "sep (s_gp L) 6 (s_gdt L) 24" and "unat (8 * num) \<le> 16"
  shows "load16 (gdt_set_gate L num base limit access gran m) (s_gp L) = load16 m (s_gp L)"
    and "load32 (gdt_set_gate L num base limit access gran m) (s_gp L + 2) = load32 m (s_gp L + 2)"
proof -
  note s = sep_fields [OF assms(1)]
  show "load16 (gdt_set_gate L num base limit access gran m) (s_gp L) = load16 m (s_gp L)"
    by (rule c16.ld_frame [of "s_gdt L + 8 * num" 8]) (use s assms(2) gate_outside in auto)
  show "load32 (gdt_set_gate L num base limit access gran m) (s_gp L + 2) = load32 m (s_gp L + 2)"
    by (rule c32.ld_frame [of "s_gdt L + 8 * num" 8]) (use s assms(2) gate_outside in auto)
qed

lemma gdt_install_ram:
  "ram (init_gdt L s) =
    gdt_set_gate L 2 0 0xFFFFFFFF 0x92 0xCF (gdt_set_gate L 1 0 0xFFFFFFFF 0x9A 0xCF
      (gdt_set_gate L 0 0 0 0 0 (store32 (store16 (ram s) (s_gp L) 23) (s_gp L + 2) (s_gdt L))))"
  by (simp add: init_gdt_def gdt_install_def gdt_flush_def gdt_ptr_at_def Let_def)

lemma init_gdt_outside:
  assumes "\<not> inreg (s_gp L) 6 x" and "\<not> inreg (s_gdt L) 24 x"
  shows "ram (init_gdt L s) x = ram s x"
proof -
  have "\<not> inreg (s_gdt L + 8 * num) 8 x" if "unat (8 * num) \<le> 16" for num :: addr
    by (rule inreg_fields(1) [OF assms(2)]) (use that in simp)
  then have g: "gdt_set_gate L num base limit access gran m x = m x" if "unat (8 * num) \<le> 16" for num base limit access gran m
    using that by (intro gate_outside)
  have "ram (init_gdt L s) x = store32 (store16 (ram s) (s_gp L) 23) (s_gp L + 2) (s_gdt L) x"
    unfolding gdt_install_ram by (simp add: g)
  then show ?thesis using inreg_fields [OF assms(1)] by (simp add: c16.st_outside c32.st_outside)
qed

lemma init_gdt_state:
  "init_gdt L s = s\<lparr>ram := ram (init_gdt L s), gdtr := gdtr (init_gdt L s), code_seg := 8, data_seg := 16\<rparr>"
  by (rule kstate.equality) (simp_all add: init_gdt_def gdt_install_def gdt_flush_def gdt_ptr_at_def Let_def)

lemma flat_segment:
  "desc_limit m p = 0xFFFFF \<Longrightarrow> desc_flags m p = 0xC0 \<Longrightarrow> desc_last m p = 0xFFFFFFFF"
  by (simp add: desc_last_def bit_numeral_rec)

lemma gdt_installed:
  assumes "sep (s_gp L) 6 (s_gdt L) 24"
  shows "gdtr (init_gdt L s) = (23, s_gdt L)
    \<and> desc_access (ram (init_gdt L s)) (s_gdt L) = 0
    \<and> desc_base (ram (init_gdt L s)) (s_gdt L + ucast (code_seg (init_gdt L s))) = 0
    \<and> desc_last (ram (init_gdt L s)) (s_gdt L + ucast (code_seg (init_gdt L s))) = 0xFFFFFFFF
    \<and> desc_access (ram (init_gdt L s)) (s_gdt L + ucast (code_seg (init_gdt L s))) = 0x9A
    \<and> desc_base (ram (init_gdt L s)) (s_gdt L + ucast (data_seg (init_gdt L s))) = 0
    \<and> desc_last (ram (init_gdt L s)) (s_gdt L + ucast (data_seg (init_gdt L s))) = 0xFFFFFFFF
    \<and> desc_access (ram (init_gdt L s)) (s_gdt L + ucast (data_seg (init_gdt L s))) = 0x92"
proof -
  note d0 = gate_decode [of L 0, simplified] and d1 = gate_decode [of L 1, simplified]
    and d2 = gate_decode [of L 2, simplified]
  note o0 = gate_other [of 1 0, simplified] gate_other [of 2 0, simplified]
    and o1 = gate_other [of 2 1, simplified]
  have "gdtr (init_gdt L s) = (load16 (ram (init_gdt L s)) (s_gp L), load32 (ram (init_gdt L s)) (s_gp L + 2))"
    and seg: "code_seg (init_gdt L s) = 8" "data_seg (init_gdt L s) = 16"
    by (simp_all add: init_gdt_def gdt_install_def gdt_flush_def gdt_ptr_at_def Let_def)
  then have "gdtr (init_gdt L s) = (23, s_gdt L)"
    using gate_frame_table [OF assms] by (simp add: gdt_install_ram mem_simps sep_simps)
  then show ?thesis
    by (simp add: seg gdt_install_ram d0 d1 d2 o0 o1 sep_simps flat_segment)
qed

text \<open>After \<open>init_gdt\<close> the processor's table register describes exactly the three
  entries, whose code and data segments both run from address 0 to the last byte of the address
  space, the null entry is empty, and the segment registers select them.\<close>

theorem gdt_install_flat:
  assumes "sep (s_gp L) 6 (s_gdt L) 24"
  shows "gdtr (init_gdt L s) = (23, s_gdt L)
    \<and> desc_access (ram (init_gdt L s)) (s_gdt L) = 0
    \<and> desc_base (ram (init_gdt L s)) (s_gdt L + ucast (code_seg (init_gdt L s))) = 0
    \<and> desc_last (ram (init_gdt L s)) (s_gdt L + ucast (code_seg (init_gdt L s))) = 0xFFFFFFFF
    \<and> desc_access (ram (init_gdt L s)) (s_gdt L + ucast (code_seg (init_gdt L s))) = 0x9A
    \<and> desc_base (ram (init_gdt L s)) (s_gdt L + ucast (data_seg (init_gdt L s))) = 0
    \<and> desc_last (ram (init_gdt L s)) (s_gdt L + ucast (data_seg (init_gdt L s))) = 0xFFFFFFFF
    \<and> desc_access (ram (init_gdt L s)) (s_gdt L + ucast (data_seg (init_gdt L s))) = 0x92"
  using assms by (rule gdt_installed)

lemma gdt_install_flat_witness:
  "gdtr (init_gdt sample_syms sample_state) = (23, 0x101800)
   \<and> desc_last (ram (init_gdt sample_syms sample_state)) (0x101800 + ucast (code_seg (init_gdt sample_syms sample_state)))
     = 0xFFFFFFFF"
  using gdt_install_flat [of sample_syms sample_state] by (simp add: sep_simps)

end
