(* ===== verification/Idt.thy ===== *)
theory Idt
  imports Term Samples
begin

text \<open>
  Interrupts (\<^verbatim>\<open>idt.c\<close>): the gate table in memory as the code writes it and as the processor reads
  it, the programming of the two interrupt controllers, and the dispatch of interrupt requests to
  installed handlers.
\<close>

section \<open>Gates\<close>

text \<open>\<^verbatim>\<open>struct idt_entry\<close> is packed: base\_lo 0, sel 2, always0 4, flags 5, base\_hi 6.\<close>

record idt_entry =
  ie_base_lo :: "16 word"
  ie_sel :: "16 word"
  ie_always0 :: byte
  ie_flags :: byte
  ie_base_hi :: "16 word"

definition idt_entry_at :: "mem \<Rightarrow> addr \<Rightarrow> idt_entry" where
  "idt_entry_at m p = \<lparr>ie_base_lo = load16 m p, ie_sel = load16 m (p + 2), ie_always0 = load8 m (p + 4),
     ie_flags = load8 m (p + 5), ie_base_hi = load16 m (p + 6)\<rparr>"

text \<open>\<^verbatim>\<open>struct idt_ptr\<close>: the last byte of the table and its address.\<close>

definition idt_ptr_at :: "mem \<Rightarrow> addr \<Rightarrow> 16 word \<times> 32 word" where
  "idt_ptr_at m p = (load16 m p, load32 m (p + 2))"

definition idt_set_gate :: "syms \<Rightarrow> byte \<Rightarrow> 32 word \<Rightarrow> 16 word \<Rightarrow> byte \<Rightarrow> mem \<Rightarrow> mem" where
  "idt_set_gate L num base sel flags m =
     (let p = s_idt L + 8 * ucast num;
          m = store16 m p (ucast (base AND 0xFFFF));
          m = store16 m (p + 6) (ucast (drop_bit 16 base AND 0xFFFF));
          m = store16 m (p + 2) sel;
          m = store8 m (p + 4) 0
      in store8 m (p + 5) flags)"

text \<open>\<open>idt_load\<close> (isr.S) loads the processor's table register from \<^verbatim>\<open>idtp\<close>.\<close>

definition idt_load :: "syms \<Rightarrow> kstate \<Rightarrow> kstate" where
  "idt_load L s = s\<lparr>idtr := idt_ptr_at (ram s) (s_idtp L)\<rparr>"

definition idt_install :: "syms \<Rightarrow> kstate \<Rightarrow> kstate" where
  "idt_install L s =
     (let m = store16 (ram s) (s_idtp L) (8 * 256 - 1);
          m = store32 m (s_idtp L + 2) (s_idt L);
          m = mem_set (s_idt L) 0 (8 * 256) m
      in idt_load L (s\<lparr>ram := m\<rparr>))"

definition irq_remap :: "kstate \<Rightarrow> kstate" where
  "irq_remap s = outbs [(0x20, 0x11), (0xA0, 0x11), (0x21, 0x20), (0xA1, 0x28), (0x21, 0x04),
     (0xA1, 0x02), (0x21, 0x01), (0xA1, 0x01), (0x21, 0x0), (0xA1, 0x0)] s"

text \<open>The code sets the gates one by one, number 0 first.\<close>

fun set_gates :: "syms \<Rightarrow> (nat \<Rightarrow> addr) \<Rightarrow> nat \<Rightarrow> nat \<Rightarrow> mem \<Rightarrow> mem" where
  "set_gates L f first 0 m = m"
| "set_gates L f first (Suc n) m =
     idt_set_gate L (of_nat (first + n)) (f n) 0x08 0x8E (set_gates L f first n m)"

definition irq_install :: "syms \<Rightarrow> kstate \<Rightarrow> kstate" where
  "irq_install L s = with_ram (set_gates L (f_irq L) 32 16) (irq_remap s)"

definition init_idt :: "syms \<Rightarrow> kstate \<Rightarrow> kstate" where
  "init_idt L s = irq_install L (with_ram (set_gates L (f_isr L) 0 32) (idt_install L s))"

section \<open>Faults\<close>

definition exception_messages :: "string list" where
  "exception_messages =
     [''Division By Zero'', ''Debug'', ''Non Maskable Interrupt'', ''Breakpoint'',
      ''Into Detected Overflow'', ''Out of Bounds'', ''Invalid Opcode'', ''No Coprocessor'',
      ''Double Fault'', ''Coprocessor Segment Overrun'', ''Bad TSS'', ''Segment Not Present'',
      ''Stack Fault'', ''General Protection Fault'', ''Page Fault'', ''Unknown Interrupt'',
      ''Coprocessor Fault'', ''Alignment Check'', ''Machine Check'', ''Reserved'',
      ''Reserved'', ''Reserved'', ''Reserved'', ''Reserved'',
      ''Reserved'', ''Reserved'', ''Reserved'', ''Reserved'',
      ''Reserved'', ''Reserved'', ''Reserved'', ''Reserved'']"

text \<open>
  \<^verbatim>\<open>struct regs\<close>, the registers the stubs save: segments 0 to 12, the general registers 16 to 44,
  int\_no 48, err\_code 52, and what the processor pushes behind.
\<close>

definition regs_int_no :: "mem \<Rightarrow> addr \<Rightarrow> 32 word" where
  "regs_int_no m r = load32 m (r + 48)"

text \<open>
  \<open>r\<close> points at the saved registers. Beyond the table the code takes whatever word lies there for the
  address of a message.
\<close>

definition fault_handler :: "syms \<Rightarrow> addr \<Rightarrow> kstate \<Rightarrow> kstate comp" where
  "fault_handler L r s =
     (let int_no = regs_int_no (ram s) r in
      if unat int_no < 32 then kernel_panic (exception_messages ! unat int_no) s
      else kernel_panic_at (load32 (ram s) (s_exception_messages L + 4 * int_no)) s)"

section \<open>Interrupt requests\<close>

definition irq_install_handler :: "syms \<Rightarrow> cint \<Rightarrow> addr \<Rightarrow> mem \<Rightarrow> mem" where
  "irq_install_handler L irq handler m = store32 m (s_irq_routines L + 4 * irq) handler"

definition irq_uninstall_handler :: "syms \<Rightarrow> cint \<Rightarrow> mem \<Rightarrow> mem" where
  "irq_uninstall_handler L irq m = store32 m (s_irq_routines L + 4 * irq) 0"

text \<open>
  \<open>call\<close> runs the function at an address on the saved registers; their number is read again afterwards.
\<close>

definition irq_handler ::
  "(addr \<Rightarrow> addr \<Rightarrow> kstate \<Rightarrow> kstate comp) \<Rightarrow> syms \<Rightarrow> addr \<Rightarrow> kstate \<Rightarrow> kstate comp" where
  "irq_handler call L r s =
     (let handler = load32 (ram s) (s_irq_routines L + 4 * (regs_int_no (ram s) r - 32)) in
      bindc (if handler \<noteq> 0 then call handler r s else ret s) (\<lambda>s.
        (let s = (if 40 \<le> regs_int_no (ram s) r then outb 0xA0 0x20 s else s) in ret (outb 0x20 0x20 s))))"

section \<open>What the processor reads\<close>

definition gate_offset :: "mem \<Rightarrow> addr \<Rightarrow> addr" where
  "gate_offset m p = ucast (ie_base_lo (idt_entry_at m p)) OR push_bit 16 (ucast (ie_base_hi (idt_entry_at m p)))"

definition gate_selector :: "mem \<Rightarrow> addr \<Rightarrow> 16 word" where
  "gate_selector m p = ie_sel (idt_entry_at m p)"

definition gate_flags :: "mem \<Rightarrow> addr \<Rightarrow> byte" where
  "gate_flags m p = ie_flags (idt_entry_at m p)"

definition gate_present :: "mem \<Rightarrow> addr \<Rightarrow> bool" where
  "gate_present m p \<longleftrightarrow> bit (gate_flags m p) 7"

text \<open>\<open>gate_is m L k f\<close>: entry \<open>k\<close> is a present 32-bit interrupt gate to \<open>f\<close> in the code segment.\<close>

definition gate_is :: "mem \<Rightarrow> syms \<Rightarrow> nat \<Rightarrow> addr \<Rightarrow> bool" where
  "gate_is m L k f \<longleftrightarrow> (let p = s_idt L + 8 * of_nat k in
     gate_offset m p = f \<and> gate_selector m p = 0x08 \<and> gate_flags m p = 0x8E \<and> load8 m (p + 4) = 0)"

lemma offset_parts:
  fixes base :: "32 word"
  shows "ucast (ucast (base AND 0xFFFF) :: 16 word) OR
    push_bit 16 (ucast (ucast (drop_bit 16 base AND 0xFFFF) :: 16 word)) = base"
  unfolding mask_numerals
  apply (rule bit_eqI)
  subgoal for n by (cases "16 \<le> n") (auto simp: bit_simps)
  done

lemma gate_fields:
  defines "p \<equiv> \<lambda>L num. s_idt L + 8 * ucast (num :: byte)"
  shows "gate_offset (idt_set_gate L num base sel flags m) (p L num) = base"
    and "gate_selector (idt_set_gate L num base sel flags m) (p L num) = sel"
    and "gate_flags (idt_set_gate L num base sel flags m) (p L num) = flags"
    and "load8 (idt_set_gate L num base sel flags m) (p L num + 4) = 0"
  unfolding p_def idt_set_gate_def Let_def gate_offset_def gate_selector_def gate_flags_def idt_entry_at_def
  by (simp_all add: mem_simps sep_simps offset_parts)

lemma idt_gate_outside:
  assumes "\<not> inreg (s_idt L + 8 * ucast num) 8 x"
  shows "idt_set_gate L num base sel flags m x = m x"
  using inreg_fields [OF assms]
  by (simp add: idt_set_gate_def Let_def c16.st_outside c8.st_outside)

lemma gate_local:
  assumes "\<And>x. inreg p 8 x \<Longrightarrow> m' x = m x"
  shows "gate_offset m' p = gate_offset m p" "gate_selector m' p = gate_selector m p"
    "gate_flags m' p = gate_flags m p" "load8 m' (p + 4) = load8 m (p + 4)"
proof -
  have "load16 m' (p + i) = load16 m (p + i)" if "unat i < 7" for i
    by (rule c16.ld_local, rule assms, erule inreg_sub, use that in simp)
  from this [of 0] this [of 2] this [of 6]
  show "gate_offset m' p = gate_offset m p" "gate_selector m' p = gate_selector m p"
    by (simp_all add: gate_offset_def gate_selector_def idt_entry_at_def)
  have "load8 m' (p + i) = load8 m (p + i)" if "unat i < 8" for i
    by (rule c8.ld_local, rule assms, erule inreg_sub, use that in simp)
  from this [of 4] this [of 5]
  show "gate_flags m' p = gate_flags m p" "load8 m' (p + 4) = load8 m (p + 4)"
    by (simp_all add: gate_flags_def idt_entry_at_def)
qed

text \<open>Entries of different numbers below 256 do not overlap.\<close>

lemma entry_addr: "k < 256 \<Longrightarrow> (8 * ucast (of_nat k :: byte) :: addr) = of_nat (8 * k)"
proof -
  assume k: "k < 256"
  have "(ucast (of_nat k :: byte) :: addr) = of_nat k"
    by (rule word_unat_eq_iff [THEN iffD2]) (use k in \<open>simp add: unsigned_ucast_eq unat_of_nat take_bit_eq_mod\<close>)
  then show ?thesis by simp
qed

lemma entry_sep:
  assumes "j < 256" "k < 256" "j \<noteq> k"
  shows "sep (s_idt L + of_nat (8 * j)) 8 (s_idt L + of_nat (8 * k)) 8"
proof -
  have u: "unat (of_nat (8 * i) :: addr) = 8 * i" if "i < 256" for i
    using that by (simp add: unat_of_nat take_bit_eq_mod del: of_nat_mult)
  have "8 * j + 8 \<le> 8 * k \<or> 8 * k + 8 \<le> 8 * j" using assms(3) by arith
  then have "sep (of_nat (8 * j)) 8 (of_nat (8 * k)) 8"
    using assms(1,2) u sep_below [of "of_nat (8 * j)" 8 "of_nat (8 * k)" 8]
      sep_below [of "of_nat (8 * k)" 8 "of_nat (8 * j)" 8]
    by (auto simp: sep_sym simp del: of_nat_mult)
  then show ?thesis by (simp add: sep_simps)
qed

lemma set_gates_step:
  assumes "k < 256" and "first + n < 256" and "k \<noteq> first + n"
    and "inreg (s_idt L + of_nat (8 * k)) 8 x"
  shows "set_gates L f first (Suc n) m x = set_gates L f first n m x"
proof -
  have "sep (s_idt L + of_nat (8 * (first + n))) 8 (s_idt L + of_nat (8 * k)) 8"
    using assms(1-3) by (intro entry_sep) auto
  from sep_notin [OF this assms(4)] show ?thesis
    using idt_gate_outside [of L "of_nat (first + n)" x] entry_addr [OF assms(2)] by simp
qed

lemma set_gates_other:
  assumes "k < 256" and "first + n \<le> 256" and "k < first \<or> first + n \<le> k"
    and "inreg (s_idt L + of_nat (8 * k)) 8 x"
  shows "set_gates L f first n m x = m x"
  using assms
proof (induction n)
  case (Suc n)
  have "set_gates L f first (Suc n) m x = set_gates L f first n m x"
    using Suc.prems by (intro set_gates_step [of k]) auto
  also have "\<dots> = m x"
    using Suc.prems by (intro Suc.IH) auto
  finally show ?case .
qed simp

lemma set_gates_is:
  assumes "first + n \<le> 256" and "j < n"
  shows "gate_is (set_gates L f first n m) L (first + j) (f j)"
  using assms
proof (induction n)
  case (Suc n)
  let ?m = "set_gates L f first n m"
  show ?case
  proof (cases "j = n")
    case True
    have a: "8 * (ucast (of_nat (first + n) :: byte) :: addr) = 8 * of_nat (first + n)"
      using entry_addr [of "first + n"] Suc.prems by simp
    show ?thesis
      using True gate_fields [of L "of_nat (first + n)" "f n" 8 "0x8E" ?m, unfolded a]
      by (simp add: gate_is_def Let_def)
  next
    case False
    then have IH: "gate_is ?m L (first + j) (f j)" using Suc by simp
    have "set_gates L f first (Suc n) m x = ?m x" if "inreg (s_idt L + of_nat (8 * (first + j))) 8 x" for x
      using False Suc.prems that by (intro set_gates_step [of "first + j"]) auto
    from gate_local [OF this] IH show ?thesis
      by (simp add: gate_is_def Let_def)
  qed
qed simp

section \<open>The installed table\<close>

lemma set_gates_outside:
  assumes "first + n \<le> 256" and "\<not> inreg (s_idt L) 2048 x"
  shows "set_gates L f first n m x = m x"
  using assms
proof (induction n)
  case (Suc n)
  have u: "unat (of_nat (8 * (first + n)) :: addr) + 8 \<le> 2048"
    using Suc.prems by (simp add: unat_of_nat take_bit_eq_mod del: of_nat_mult of_nat_add)
  have "\<not> inreg (s_idt L + of_nat (8 * (first + n))) 8 x"
    by (rule inreg_fields(1) [OF Suc.prems(2) u])
  then have "set_gates L f first (Suc n) m x = set_gates L f first n m x"
    using idt_gate_outside [of L "of_nat (first + n)" x] entry_addr [of "first + n"] Suc.prems by simp
  also have "\<dots> = m x"
    using Suc.prems by (intro Suc.IH) auto
  finally show ?case .
qed simp

lemma init_idt_ram:
  "ram (init_idt L s) = set_gates L (f_irq L) 32 16 (set_gates L (f_isr L) 0 32 (ram (idt_install L s)))"
  by (simp add: init_idt_def irq_install_def irq_remap_def outbs_eq)

lemma init_idt_outside:
  assumes "\<not> inreg (s_idtp L) 6 x" and "\<not> inreg (s_idt L) 2048 x"
  shows "ram (init_idt L s) x = ram s x"
proof -
  have "ram (init_idt L s) x = ram (idt_install L s) x"
    unfolding init_idt_ram using assms(2) by (simp add: set_gates_outside)
  then show ?thesis
    using assms(2) inreg_fields [OF assms(1)]
    by (simp add: idt_install_def idt_load_def idt_ptr_at_def Let_def mem_set_filled filled_def c16.st_outside c32.st_outside)
qed

lemma init_idt_state:
  "init_idt L s = s\<lparr>ram := ram (init_idt L s), io := io (init_idt L s), idtr := idtr (init_idt L s)\<rparr>"
  by (rule kstate.equality) (simp_all add: init_idt_def irq_install_def irq_remap_def outbs_eq idt_install_def idt_load_def idt_ptr_at_def Let_def)

lemma entry_in_table:
  assumes "k < 256" and "inreg (s_idt L + of_nat (8 * k)) 8 x"
  shows "inreg (s_idt L) 2048 x"
proof (rule inreg_sub [OF assms(2)])
  show "unat (of_nat (8 * k) :: addr) + 8 \<le> 2048"
    using assms(1) by (simp add: unat_of_nat take_bit_eq_mod del: of_nat_mult)
qed

lemma idt_install_zero: "inreg (s_idt L) 2048 x \<Longrightarrow> ram (idt_install L s) x = 0"
  by (simp add: idt_install_def idt_load_def idt_ptr_at_def Let_def mem_set_filled filled_def)

lemma idt_installed:
  assumes "sep (s_idtp L) 6 (s_idt L) 2048"
  shows "idtr (init_idt L s) = (2047, s_idt L)
    \<and> (\<forall>k < 32. gate_is (ram (init_idt L s)) L k (f_isr L k))
    \<and> (\<forall>k < 16. gate_is (ram (init_idt L s)) L (32 + k) (f_irq L k))
    \<and> (\<forall>k < 208. \<not> gate_present (ram (init_idt L s)) (s_idt L + of_nat (8 * (48 + k))))"
proof (intro conjI allI impI)
  let ?m0 = "ram (idt_install L s)"
  let ?m1 = "set_gates L (f_isr L) 0 32 ?m0" and ?m2 = "ram (init_idt L s)"
  have m2: "?m2 = set_gates L (f_irq L) 32 16 ?m1" by (rule init_idt_ram)
  have "idtr (init_idt L s) = idtr (idt_install L s)"
    by (simp add: init_idt_def irq_install_def irq_remap_def outbs_eq)
  also have "\<dots> = (2047, s_idt L)"
  proof -
    define m where "m = store32 (store16 (ram s) (s_idtp L) 2047) (s_idtp L + 2) (s_idt L)"
    have f: "filled (s_idt L) 0 2048 m x = m x" if "\<not> inreg (s_idt L) 2048 x" for x
      using that by (simp add: filled_def)
    have sp: "sep (s_idt L) 2048 (s_idtp L) 2" "sep (s_idt L) 2048 (s_idtp L + 2) 4"
      using sep_fields [OF assms] by (simp_all add: sep_sym)
    have "load16 (filled (s_idt L) 0 2048 m) (s_idtp L) = load16 m (s_idtp L)"
      "load32 (filled (s_idt L) 0 2048 m) (s_idtp L + 2) = load32 m (s_idtp L + 2)"
      by (rule c16.ld_frame [OF sp(1) f] c32.ld_frame [OF sp(2) f], assumption)+
    moreover have "load16 m (s_idtp L) = 2047" "load32 m (s_idtp L + 2) = s_idt L"
      by (simp_all add: m_def mem_simps sep_simps)
    moreover have "ram (idt_install L s) = filled (s_idt L) 0 2048 m"
      by (simp add: idt_install_def idt_load_def idt_ptr_at_def Let_def mem_set_filled m_def)
    ultimately show ?thesis
      by (simp add: idt_install_def idt_load_def idt_ptr_at_def Let_def)
  qed
  finally show "idtr (init_idt L s) = (2047, s_idt L)" .
  show "gate_is ?m2 L k (f_isr L k)" if "k < 32" for k
  proof -
    have isr: "gate_is ?m1 L k (f_isr L k)"
      using set_gates_is [of 0 32 k L "f_isr L" ?m0] that by simp
    have "?m2 x = ?m1 x" if "inreg (s_idt L + of_nat (8 * k)) 8 x" for x
      unfolding m2 using \<open>k < 32\<close> that by (intro set_gates_other [of k]) auto
    from gate_local [OF this] isr show ?thesis by (simp add: gate_is_def Let_def)
  qed
  show "gate_is ?m2 L (32 + k) (f_irq L k)" if "k < 16" for k
    unfolding m2 using that by (intro set_gates_is) auto
  show "\<not> gate_present ?m2 (s_idt L + of_nat (8 * (48 + k)))" if "k < 208" for k
  proof -
    have z: "?m2 x = 0" if "inreg (s_idt L + of_nat (8 * (48 + k))) 8 x" for x
    proof -
      have "?m2 x = ?m1 x"
        unfolding m2 using \<open>k < 208\<close> that by (intro set_gates_other [of "48 + k"]) auto
      also have "\<dots> = ?m0 x"
        using \<open>k < 208\<close> that by (intro set_gates_other [of "48 + k"]) auto
      also have "\<dots> = 0"
        using entry_in_table [OF _ that] \<open>k < 208\<close> by (intro idt_install_zero) simp
      finally show ?thesis .
    qed
    have "?m2 (s_idt L + of_nat (8 * (48 + k)) + 5) = 0"
      by (rule z) (simp add: inreg_def)
    then show ?thesis by (simp add: gate_present_def gate_flags_def idt_entry_at_def load8_def)
  qed
qed

text \<open>C19. After \<open>init_idt\<close> the processor's register describes the 256 entries, the
  32 exceptions go to the stubs \<open>isr0\<close> to \<open>isr31\<close>, the 16 remapped requests to \<open>irq0\<close> to \<open>irq15\<close>,
  all through the kernel's code segment with interrupts off, and every other entry is not present.\<close>

theorem init_idt_gates:
  assumes "sep (s_idtp L) 6 (s_idt L) 2048"
  shows "idtr (init_idt L s) = (2047, s_idt L)
    \<and> (\<forall>k < 32. gate_is (ram (init_idt L s)) L k (f_isr L k))
    \<and> (\<forall>k < 16. gate_is (ram (init_idt L s)) L (32 + k) (f_irq L k))
    \<and> (\<forall>k < 208. \<not> gate_present (ram (init_idt L s)) (s_idt L + of_nat (8 * (48 + k))))"
  using assms by (rule idt_installed)

lemma init_idt_gates_witness:
  "idtr (init_idt sample_syms sample_state) = (2047, 0x102000)
   \<and> gate_is (ram (init_idt sample_syms sample_state)) sample_syms 33 (f_irq sample_syms 1)
   \<and> \<not> gate_present (ram (init_idt sample_syms sample_state)) (0x102000 + of_nat (8 * 255))"
proof -
  have "sep (s_idtp sample_syms) 6 (s_idt sample_syms) 2048" by (simp add: sep_simps)
  note g = init_idt_gates [OF this, of sample_state]
  show ?thesis
  proof (intro conjI)
    show "idtr (init_idt sample_syms sample_state) = (2047, 0x102000)" using g by simp
    have "gate_is (ram (init_idt sample_syms sample_state)) sample_syms (32 + 1) (f_irq sample_syms 1)"
      by (rule g [THEN conjunct2, THEN conjunct2, THEN conjunct1, rule_format]) simp
    then show "gate_is (ram (init_idt sample_syms sample_state)) sample_syms 33 (f_irq sample_syms 1)"
      by simp
    have "\<not> gate_present (ram (init_idt sample_syms sample_state)) (s_idt sample_syms + of_nat (8 * (48 + 207)))"
      by (rule g [THEN conjunct2, THEN conjunct2, THEN conjunct2, rule_format]) simp
    then show "\<not> gate_present (ram (init_idt sample_syms sample_state)) (0x102000 + of_nat (8 * 255))"
      by simp
  qed
qed

section \<open>The interrupt controllers\<close>

text \<open>
  An 8259 controller as the port writes drive it: a command with bit 4 starts the initialisation
  sequence, whose next three data writes give the vector base, the wiring and the mode; outside it
  a data write sets the mask and the command 0x20 ends the interrupt in service.
\<close>

record pic =
  icw :: nat
  vector_base :: byte
  wiring :: byte
  pic_mode :: byte
  pic_mask :: byte
  eois :: nat

definition pic_command :: "byte \<Rightarrow> pic \<Rightarrow> pic" where
  "pic_command v p =
     (if bit v 4 then p\<lparr>icw := 1, pic_mask := 0\<rparr>
      else if v = 0x20 then p\<lparr>eois := eois p + 1\<rparr> else p)"

definition pic_data :: "byte \<Rightarrow> pic \<Rightarrow> pic" where
  "pic_data v p =
     (if icw p = 1 then p\<lparr>vector_base := v AND 0xF8, icw := 2\<rparr>
      else if icw p = 2 then p\<lparr>wiring := v, icw := 3\<rparr>
      else if icw p = 3 then p\<lparr>pic_mode := v, icw := 0\<rparr>
      else p\<lparr>pic_mask := v\<rparr>)"

fun pics_step :: "port_event \<Rightarrow> pic \<times> pic \<Rightarrow> pic \<times> pic" where
  "pics_step (Out p v) (master, slave) =
     (if p = 0x20 then pic_command v master else if p = 0x21 then pic_data v master else master,
      if p = 0xA0 then pic_command v slave else if p = 0xA1 then pic_data v slave else slave)"
| "pics_step (In p v) ps = ps"

definition pics :: "port_event list \<Rightarrow> pic \<times> pic" where
  "pics es = fold pics_step es (\<lparr>icw = 0, vector_base = 8, wiring = 0, pic_mode = 0, pic_mask = 0xFF, eois = 0\<rparr>,
     \<lparr>icw = 0, vector_base = 0x70, wiring = 0, pic_mode = 0, pic_mask = 0xFF, eois = 0\<rparr>)"

lemma pics_append: "pics (es @ fs) = fold pics_step fs (pics es)"
  by (simp add: pics_def)

text \<open>C28. Whatever state the two controllers were left in, \<open>irq_remap\<close> leaves both out
  of their initialisation sequence, with vectors 0x20 and 0x28 (clear of the 32 exceptions), wired
  to each other over line 2, and every line unmasked.\<close>

theorem irq_remap_pics:
  "case pics (io (irq_remap s)) of (master, slave) \<Rightarrow>
     icw master = 0 \<and> vector_base master = 0x20 \<and> wiring master = 0x04 \<and> pic_mask master = 0
     \<and> icw slave = 0 \<and> vector_base slave = 0x28 \<and> wiring slave = 0x02 \<and> pic_mask slave = 0"
  by (cases "pics (io s)")
    (simp add: irq_remap_def outbs_eq pics_append pic_command_def pic_data_def bit_numeral_rec)

text \<open>C24. An interrupt request whose handler returns with the saved number intact, or
  that has none, is acknowledged at the master controller exactly once more than the handler itself
  did, and at the slave exactly when the vector is one of the slave's.\<close>

theorem irq_acknowledged:
  assumes "regs_int_no (ram s) r = int_no" and "load32 (ram s) (s_irq_routines L + 4 * (int_no - 32)) = h"
    and "if h = 0 then s1 = s else call h r s = ret s1" and "regs_int_no (ram s1) r = int_no"
  shows "\<exists>s2. irq_handler call L r s = ret s2 \<and> ram s2 = ram s1
    \<and> eois (fst (pics (io s2))) = eois (fst (pics (io s1))) + 1
    \<and> eois (snd (pics (io s2))) = eois (snd (pics (io s1))) + (if 40 \<le> unat int_no then 1 else 0)"
proof -
  have le: "40 \<le> int_no \<longleftrightarrow> 40 \<le> unat int_no" by (simp add: word_le_nat_alt)
  have "irq_handler call L r s =
      ret (outb 0x20 0x20 (if 40 \<le> int_no then outb 0xA0 0x20 s1 else s1))"
    using assms by (auto simp: irq_handler_def Let_def split: if_splits)
  then show ?thesis
    by (cases "pics (io s1)") (simp add: le pics_append pic_command_def bit_numeral_rec)
qed

text \<open>A handler for vector 33, with the registers saved at 0x7000.\<close>

lemma irq_acknowledged_witness:
  "\<exists>s2. irq_handler (\<lambda>_ _ s. ret (outb 0x60 0xED s)) sample_syms 0x7000
      (sample_state\<lparr>ram := store32 (store32 (\<lambda>_. 0) 0x102A04 0x105100) 0x7030 33\<rparr>) = ret s2
    \<and> eois (fst (pics (io s2))) = Suc 0 \<and> eois (snd (pics (io s2))) = 0"
proof -
  let ?s = "sample_state\<lparr>ram := store32 (store32 (\<lambda>_. 0) 0x102A04 0x105100) 0x7030 33\<rparr>"
  have n: "regs_int_no (ram ?s) 0x7000 = 33" "load32 (ram ?s) (s_irq_routines sample_syms + 4 * (33 - 32)) = 0x105100"
    "regs_int_no (ram (outb 0x60 0xED ?s)) 0x7000 = 33"
    by (simp_all add: regs_int_no_def mem_simps sep_simps)
  from irq_acknowledged [OF n(1,2) _ n(3), of "\<lambda>_ _ s. ret (outb 0x60 0xED s)"]
  show ?thesis by (auto simp: pics_def)
qed

end
