(* ===== verification/Keybd.thy ===== *)
theory Keybd
  imports Idt Term_Spec
begin

text \<open>
  The keyboard (\<^verbatim>\<open>keybd.c\<close>): the interrupt handler that turns scan codes into characters of a line
  buffer, and the reader that waits for a line. The abstract keyboard keeps the line as a list; the
  locale \<open>typist\<close> is the contract between the reader and whatever interrupts it.
\<close>

section \<open>Key maps\<close>

definition kbdus :: "byte list" where
  "kbdus = [0, 27, 49, 50, 51, 52, 53, 54, 55, 56, 57, 48, 45, 61, 8, 9] @ bytes_of ''qwertyuiop[]'' @ [10, 0]
     @ bytes_of ''asdfghjkl;'' @ [39, 96, 0, 92] @ bytes_of ''zxcvbnm,./'' @ [0, 42, 0, 32]
     @ replicate 16 0 @ [45, 0, 0, 0, 43] @ replicate 49 0"

definition kbdus_shifted :: "byte list" where
  "kbdus_shifted = [0, 27] @ bytes_of ''!@#$%^&*()_+'' @ [8, 9] @ bytes_of ''QWERTYUIOP{}'' @ [10, 0]
     @ bytes_of ''ASDFGHJKL:'' @ [34, 126, 0, 124] @ bytes_of ''ZXCVBNM<>?'' @ [0, 42, 0, 32]
     @ replicate 16 0 @ [45, 0, 0, 0, 43] @ replicate 49 0"

text \<open>The table has 128 entries; a scan code from 128 on reads what lies behind it.\<close>

definition kbdus_at :: "syms \<Rightarrow> mem \<Rightarrow> byte \<Rightarrow> byte" where
  "kbdus_at L m sc = (if unat sc < 128 then kbdus ! unat sc else load8 m (s_kbdus L + ucast sc))"

section \<open>The handler\<close>

definition init_keybd :: "syms \<Rightarrow> kstate \<Rightarrow> kstate" where
  "init_keybd L s = with_ram (irq_install_handler L 1 (f_keyboard_handler L)) s"

definition kb_add :: "syms \<Rightarrow> byte \<Rightarrow> kstate \<Rightarrow> kstate" where
  "kb_add L c s = s\<lparr>ram := store8 (ram s) (s_kb_buffer L + kb_i s) c, kb_i := kb_i s + 1\<rparr>"

definition keyboard_handler :: "device \<Rightarrow> syms \<Rightarrow> kstate \<Rightarrow> kstate" where
  "keyboard_handler dev L s =
     (let (scancode, s) = inb dev 0x60 s in
      if kbdus_at L (ram s) scancode \<noteq> 0 \<and> scancode < 0x58 then
        (let c = (if kb_shifted s \<noteq> 0 then kbdus_shifted ! unat scancode else kbdus_at L (ram s) scancode);
             s = term_putchar c s;
             s = (if scancode = 0x1C then s\<lparr>kb_buffer_pending := 1\<rparr> else s)
         in kb_add L c s)
      else if scancode = 0x2A \<or> scancode = 0x36 then s\<lparr>kb_shifted := 1\<rparr>
      else if scancode = 0xAA \<or> scancode = 0xB6 then s\<lparr>kb_shifted := 0\<rparr>
      else if scancode = 0x3A then s\<lparr>kb_shifted := (if kb_shifted s = 0 then 1 else 0)\<rparr>
      else s)"

section \<open>The reader\<close>

definition clear_kb_buffer :: "syms \<Rightarrow> kstate \<Rightarrow> kstate" where
  "clear_kb_buffer L s =
     s\<lparr>ram := mem_set (s_kb_buffer L) 0 255 (ram s), kb_i := 0, kb_buffer_pending := 0\<rparr>"

text \<open>It is declared to return a \<^verbatim>\<open>char\<close>: the low byte of the address.\<close>

definition get_kbd_buffer :: "syms \<Rightarrow> byte" where
  "get_kbd_buffer L = ucast (s_kb_buffer L)"

text \<open>
  The wait: the flag is read again and again, and interrupts (\<open>irq\<close>, which takes the state to the
  state after the next one) happen in between. Without an interrupt that ends a line it never
  returns.
\<close>

partial_function (option) kb_wait :: "(kstate \<Rightarrow> kstate comp) \<Rightarrow> kstate \<Rightarrow> kstate comp" where
  "kb_wait irq s = (if kb_buffer_pending s \<noteq> 0 then ret s else bindc (irq s) (\<lambda>s'. kb_wait irq s'))"

definition kb_take :: "syms \<Rightarrow> addr \<Rightarrow> kstate \<Rightarrow> kstate" where
  "kb_take L dest s =
     clear_kb_buffer L
       (s\<lparr>ram := store8 (mem_cpy dest (s_kb_buffer L) (kb_i s - 1) (ram s)) (dest + kb_i s) 0\<rparr>)"

definition get_kbd :: "(kstate \<Rightarrow> kstate comp) \<Rightarrow> syms \<Rightarrow> addr \<Rightarrow> kstate \<Rightarrow> kstate comp" where
  "get_kbd irq L dest s = bindc (kb_wait irq s) (\<lambda>s'. ret (kb_take L dest s'))"

section \<open>The abstract keyboard\<close>

record kb_view =
  kv_line :: "byte list"
  kv_shift :: bool
  kv_enter :: bool

definition kb_char :: "bool \<Rightarrow> byte \<Rightarrow> byte" where
  "kb_char shifted sc = (if shifted then kbdus_shifted ! unat sc else kbdus ! unat sc)"

definition kb_printable :: "byte \<Rightarrow> bool" where
  "kb_printable sc \<longleftrightarrow> unat sc < 88 \<and> kbdus ! unat sc \<noteq> 0"

definition kb_step :: "byte \<Rightarrow> kb_view \<Rightarrow> kb_view" where
  "kb_step sc v =
     (if kb_printable sc
      then v\<lparr>kv_line := kv_line v @ [kb_char (kv_shift v) sc], kv_enter := kv_enter v \<or> sc = 0x1C\<rparr>
      else if sc = 0x2A \<or> sc = 0x36 then v\<lparr>kv_shift := True\<rparr>
      else if sc = 0xAA \<or> sc = 0xB6 then v\<lparr>kv_shift := False\<rparr>
      else if sc = 0x3A then v\<lparr>kv_shift := \<not> kv_shift v\<rparr>
      else v)"

definition kb_view_of :: "syms \<Rightarrow> kstate \<Rightarrow> kb_view" where
  "kb_view_of L s =
     \<lparr>kv_line = map (\<lambda>i. ram s (s_kb_buffer L + of_nat i)) [0..<unat (kb_i s)],
      kv_shift = kb_shifted s \<noteq> 0, kv_enter = kb_buffer_pending s \<noteq> 0\<rparr>"

text \<open>The terminal is fine, the line has room, and the buffer is not on the screen.\<close>

definition kb_ok :: "syms \<Rightarrow> kstate \<Rightarrow> bool" where
  "kb_ok L s \<longleftrightarrow> geometry_ok (tty0 s) \<and> cursor_ok (tty0 s) \<and> unat (kb_i s) < 256
     \<and> sep (t_buffer (tty0 s)) (frame_bytes (tty0 s)) (s_kb_buffer L) 256"

lemma in_buffer: "i < 256 \<Longrightarrow> inreg b 256 (b + of_nat i)"
  by (simp add: inreg_def unat_of_nat take_bit_eq_mod)

lemma kb_view_putchar:
  assumes "kb_ok L s"
  shows "kb_view_of L (term_putchar c s) = kb_view_of L s"
    and "kb_i (term_putchar c s) = kb_i s" "kb_shifted (term_putchar c s) = kb_shifted s"
    and "kb_buffer_pending (term_putchar c s) = kb_buffer_pending s"
proof -
  have f: "term_frame s (term_putchar c s)"
    using assms by (intro tp.put_frame) (simp_all add: kb_ok_def)
  then show r: "kb_i (term_putchar c s) = kb_i s" "kb_shifted (term_putchar c s) = kb_shifted s"
    "kb_buffer_pending (term_putchar c s) = kb_buffer_pending s"
    by (auto simp: term_frame_def rest_def)
  have "ram (term_putchar c s) (s_kb_buffer L + of_nat i) = ram s (s_kb_buffer L + of_nat i)"
    if "i < unat (kb_i s)" for i
  proof -
    have "inreg (s_kb_buffer L) 256 (s_kb_buffer L + of_nat i)"
      using that assms by (intro in_buffer) (simp add: kb_ok_def)
    then have "\<not> in_frame (tty0 s) (s_kb_buffer L + of_nat i)"
      using assms sep_notin by (auto simp: kb_ok_def in_frame_def)
    then show ?thesis using f by (simp add: term_frame_def)
  qed
  then show "kb_view_of L (term_putchar c s) = kb_view_of L s"
    using r by (simp add: kb_view_of_def)
qed

lemma kb_view_add:
  assumes "unat (kb_i s) < 256"
  shows "kb_view_of L (kb_add L c s) = (kb_view_of L s)\<lparr>kv_line := kv_line (kb_view_of L s) @ [c]\<rparr>"
proof -
  let ?n = "unat (kb_i s)" and ?b = "s_kb_buffer L"
  have n: "unat (kb_i s + 1) = Suc ?n" using assms by (simp add: unat_word_ariths)
  have other: "store8 (ram s) (?b + kb_i s) c (?b + of_nat i) = ram s (?b + of_nat i)" if "i < ?n" for i
  proof -
    have "unat (of_nat i :: addr) = i"
      using that assms by (simp add: unat_of_nat take_bit_eq_mod)
    then have "(of_nat i :: addr) \<noteq> kb_i s" using that by auto
    then show ?thesis by (simp add: store8_def)
  qed
  have "map (\<lambda>i. store8 (ram s) (?b + kb_i s) c (?b + of_nat i)) [0..<?n] =
      map (\<lambda>i. ram s (?b + of_nat i)) [0..<?n]"
    using other by simp
  then show ?thesis
    by (simp add: kb_view_of_def kb_add_def n store8_def del: map_eq_conv)
qed

lemma kbdus_length: "length kbdus = 128" "length kbdus_shifted = 128"
  by (simp_all add: kbdus_def kbdus_shifted_def)

lemma handler_printable:
  "kbdus_at L m sc \<noteq> 0 \<and> sc < 0x58 \<longleftrightarrow> kb_printable sc"
  "kb_printable sc \<Longrightarrow> kbdus_at L m sc = kbdus ! unat sc"
  by (auto simp: kbdus_at_def kb_printable_def word_less_nat_alt)

lemma kb_ok_inb: "kb_ok L (s\<lparr>io := l\<rparr>) = kb_ok L s" "kb_view_of L (s\<lparr>io := l\<rparr>) = kb_view_of L s"
  by (simp_all add: kb_ok_def kb_view_of_def)

text \<open>The handler on a printable key, and on any other.\<close>

lemma handler_cases:
  fixes dev L s
  defines "sc \<equiv> dev (io s) 0x60" and "s1 \<equiv> s\<lparr>io := io s @ [In 0x60 (dev (io s) 0x60)]\<rparr>"
  shows "keyboard_handler dev L s =
    (if kb_printable sc then
       kb_add L (kb_char (kb_shifted s \<noteq> 0) sc)
         (let s2 = term_putchar (kb_char (kb_shifted s \<noteq> 0) sc) s1
          in if sc = 0x1C then s2\<lparr>kb_buffer_pending := 1\<rparr> else s2)
     else if sc = 0x2A \<or> sc = 0x36 then s1\<lparr>kb_shifted := 1\<rparr>
     else if sc = 0xAA \<or> sc = 0xB6 then s1\<lparr>kb_shifted := 0\<rparr>
     else if sc = 0x3A then s1\<lparr>kb_shifted := (if kb_shifted s = 0 then 1 else 0)\<rparr>
     else s1)"
  by (simp add: keyboard_handler_def inb_def handler_printable Let_def kb_char_def sc_def s1_def)

lemma handler_view:
  assumes "kb_ok L s"
  shows "kb_view_of L (keyboard_handler dev L s) = kb_step (dev (io s) 0x60) (kb_view_of L s)"
proof -
  let ?sc = "dev (io s) 0x60" and ?s1 = "s\<lparr>io := io s @ [In 0x60 (dev (io s) 0x60)]\<rparr>"
  let ?c = "kb_char (kb_shifted s \<noteq> 0) ?sc"
  have ok: "kb_ok L ?s1" using assms by (simp add: kb_ok_inb)
  show ?thesis
  proof (cases "kb_printable ?sc")
    case True
    define s3 where "s3 = (let s2 = term_putchar ?c ?s1
      in if ?sc = 0x1C then s2\<lparr>kb_buffer_pending := 1\<rparr> else s2)"
    have "kb_view_of L s3 =
        (kb_view_of L s)\<lparr>kv_enter := kv_enter (kb_view_of L s) \<or> ?sc = 0x1C\<rparr>"
      using kb_view_putchar [OF ok, of ?c] kb_ok_inb(2) [where L = L and s = s]
      by (auto simp: s3_def Let_def kb_view_of_def)
    moreover have "unat (kb_i s3) < 256"
      using kb_view_putchar(2) [OF ok, of ?c] ok by (auto simp: s3_def Let_def kb_ok_def)
    moreover have "keyboard_handler dev L s = kb_add L ?c s3"
      using True by (simp add: handler_cases s3_def)
    ultimately show ?thesis
      using True by (simp add: kb_view_add kb_step_def) (simp add: kb_view_of_def)
  next
    case False
    then show ?thesis by (auto simp: handler_cases kb_step_def kb_view_of_def)
  qed
qed

section \<open>Typing a line\<close>

text \<open>The handler leaves the terminal well formed, and adds at most one character to the line.\<close>

lemma handler_ok:
  fixes dev
  assumes "kb_ok L s"
  defines "s' \<equiv> keyboard_handler dev L s"
  shows "geometry_ok (tty0 s') \<and> cursor_ok (tty0 s')
    \<and> sep (t_buffer (tty0 s')) (frame_bytes (tty0 s')) (s_kb_buffer L) 256
    \<and> unat (kb_i s') \<le> Suc (unat (kb_i s))"
proof -
  let ?sc = "dev (io s) 0x60" and ?s1 = "s\<lparr>io := io s @ [In 0x60 (dev (io s) 0x60)]\<rparr>"
  let ?c = "kb_char (kb_shifted s \<noteq> 0) ?sc"
  have a: "geometry_ok (tty0 ?s1)" "cursor_ok (tty0 ?s1)" using assms(1) by (simp_all add: kb_ok_def)
  note f = tp.put_frame [OF a, of ?c] and c = tp.put_cursor [OF a, of ?c]
  have i: "kb_i (term_putchar ?c ?s1) = kb_i s" using f by (simp add: term_frame_def rest_def)
  have g: "same_geometry (tty0 s) (tty0 (term_putchar ?c ?s1))" using f by (simp add: term_frame_def)
  then have fb: "frame_bytes (tty0 (term_putchar ?c ?s1)) = frame_bytes (tty0 s)"
    "t_buffer (tty0 (term_putchar ?c ?s1)) = t_buffer (tty0 s)"
    by (simp_all add: same_geometry_def frame_bytes_def)
  have i1: "unat (kb_i s + 1) \<le> Suc (unat (kb_i s))"
    using unat_add_le [of "kb_i s" 1] by simp
  show ?thesis
  proof (cases "kb_printable ?sc")
    case True
    then have "tty0 s' = tty0 (term_putchar ?c ?s1)" "kb_i s' = kb_i s + 1"
      using i by (auto simp: s'_def handler_cases kb_add_def Let_def)
    then show ?thesis
      using assms(1) i1 c g fb same_geometry_ok [OF g] by (simp add: kb_ok_def)
  next
    case False
    then have "tty0 s' = tty0 s" "kb_i s' = kb_i s" by (auto simp: s'_def handler_cases)
    then show ?thesis using assms(1) by (simp add: kb_ok_def)
  qed
qed

text \<open>C14. While the line has room, a keyboard interrupt does to the line, the shift
  state and the end-of-line flag what the abstract keyboard does with the scan code the device
  answers, and leaves the terminal well formed.\<close>

theorem keyboard_refines:
  assumes "kb_ok L s"
  shows "kb_view_of L (keyboard_handler dev L s) = kb_step (dev (io s) 0x60) (kb_view_of L s)
    \<and> geometry_ok (tty0 (keyboard_handler dev L s)) \<and> cursor_ok (tty0 (keyboard_handler dev L s))"
  using handler_view [OF assms] handler_ok [OF assms] by blast

lemma sample_keyboard: "kb_ok sample_syms sample_state"
  using sample_screen by (simp add: kb_ok_def frame_bytes_def sep_simps)

lemma keyboard_refines_witness:
  "kb_view_of sample_syms (keyboard_handler (\<lambda>_ _. 0x1E) sample_syms sample_state) =
    \<lparr>kv_line = [97], kv_shift = False, kv_enter = False\<rparr>"
  using keyboard_refines [OF sample_keyboard, of "\<lambda>_ _. 0x1E"]
  by (simp add: kb_view_of_def kb_step_def kb_printable_def kb_char_def kbdus_def)

text \<open>Typing changes nothing but the screen and the keyboard's buffer.\<close>

lemma handler_frame:
  assumes "kb_ok L s"
  shows "same_geometry (tty0 s) (tty0 (keyboard_handler dev L s))"
    and "\<not> in_frame (tty0 s) x \<Longrightarrow> \<not> inreg (s_kb_buffer L) 256 x \<Longrightarrow> ram (keyboard_handler dev L s) x = ram s x"
proof -
  let ?sc = "dev (io s) 0x60" and ?s1 = "s\<lparr>io := io s @ [In 0x60 (dev (io s) 0x60)]\<rparr>"
  let ?c = "kb_char (kb_shifted s \<noteq> 0) ?sc"
  have a: "geometry_ok (tty0 ?s1)" "cursor_ok (tty0 ?s1)" using assms by (simp_all add: kb_ok_def)
  note f = tp.put_frame [OF a, of ?c]
  have i: "unat (kb_i (term_putchar ?c ?s1)) < 256"
    using f assms by (simp add: term_frame_def rest_def kb_ok_def)
  have r: "same_geometry t t" for t by (simp add: same_geometry_def)
  show "same_geometry (tty0 s) (tty0 (keyboard_handler dev L s))"
    using f r by (auto simp: handler_cases kb_add_def Let_def term_frame_def)
  have "inreg (s_kb_buffer L) 256 (s_kb_buffer L + kb_i (term_putchar ?c ?s1))"
    using i by (simp add: inreg_def)
  then show "ram (keyboard_handler dev L s) x = ram s x"
    if "\<not> in_frame (tty0 s) x" "\<not> inreg (s_kb_buffer L) 256 x"
    using that f by (auto simp: handler_cases kb_add_def Let_def term_frame_def store8_def)
qed

text \<open>What the reader copies out: all characters but the last, a stale byte, and the terminator.\<close>

lemma unat_nth: "i < 257 \<Longrightarrow> unat (of_nat i :: addr) = i"
  by (simp add: unat_of_nat take_bit_eq_mod)

lemma kb_take_copies:
  assumes n: "unat (kb_i s) = Suc n" "n < 256"
    and ranges: "unat dest + 257 \<le> 4294967296" "unat (s_kb_buffer L) + 256 \<le> 4294967296"
    and apart: "sep (s_kb_buffer L) 256 dest 257"
  defines "s' \<equiv> kb_take L dest s"
  shows "i < n \<Longrightarrow> ram s' (dest + of_nat i) = kv_line (kb_view_of L s) ! i"
    and "ram s' (dest + of_nat n) = ram s (dest + of_nat n)"
    and "ram s' (dest + of_nat (Suc n)) = 0"
    and "kb_view_of L s' = \<lparr>kv_line = [], kv_shift = kb_shifted s \<noteq> 0, kv_enter = False\<rparr>"
    and "i < 255 \<Longrightarrow> ram s' (s_kb_buffer L + of_nat i) = 0"
    and "ram s' (s_kb_buffer L + 255) = ram s (s_kb_buffer L + 255)"
proof -
  let ?b = "s_kb_buffer L"
  have "kb_i s \<noteq> 0" using n(1) by auto
  then have k1: "unat (kb_i s - 1) = n" using n(1) by (simp add: unat_pred)
  have "of_nat (unat (kb_i s)) = kb_i s" by simp
  then have ki: "kb_i s = of_nat (Suc n)" unfolding n(1) by (rule sym)
  have cpy: "mem_cpy dest ?b (kb_i s - 1) (ram s) = moved dest ?b n (ram s)"
    using ranges n k1 by (simp add: mem_cpy_moved)
  have ram: "ram s' x = (if x = dest + of_nat (Suc n) then 0 else moved dest ?b n (ram s) x)"
    if "inreg dest 257 x" for x
  proof -
    have "\<not> inreg ?b 255 x"
      using sep_notin [OF apart that] inreg_mono [of ?b 255 x 256] by auto
    then have "ram s' x = (if x = dest + kb_i s then 0 else moved dest ?b n (ram s) x)"
      by (simp add: s'_def kb_take_def clear_kb_buffer_def mem_set_filled filled_def store8_def cpy)
    then show ?thesis unfolding ki .
  qed
  have at: "inreg dest 257 (dest + of_nat j)" "unat (of_nat j :: addr) = j" if "j \<le> Suc n" for j
    using that n(2) by (auto simp: inreg_def unat_nth)
  have ne: "(of_nat j :: addr) \<noteq> of_nat (Suc n)" if "j \<le> n" for j
  proof
    assume "(of_nat j :: addr) = of_nat (Suc n)"
    then have "unat (of_nat j :: addr) = unat (of_nat (Suc n) :: addr)" by (rule arg_cong)
    then show False using at(2) [of j] at(2) [of "Suc n"] that by simp
  qed
  show "ram s' (dest + of_nat i) = kv_line (kb_view_of L s) ! i" if "i < n"
    using ram [OF at(1)] ne [of i] at(2) [of i] that n
    by (simp add: moved_def inreg_def kb_view_of_def nth_append del: of_nat_Suc)
  show "ram s' (dest + of_nat n) = ram s (dest + of_nat n)"
    using ram [OF at(1)] ne [of n] at(2) [of n] by (simp add: moved_def inreg_def del: of_nat_Suc)
  show "ram s' (dest + of_nat (Suc n)) = 0"
    using ram [OF at(1) [of "Suc n"]] by simp
  show "kb_view_of L s' = \<lparr>kv_line = [], kv_shift = kb_shifted s \<noteq> 0, kv_enter = False\<rparr>"
    by (simp add: s'_def kb_take_def clear_kb_buffer_def kb_view_of_def)
  show "ram s' (?b + of_nat i) = 0" if "i < 255"
    using that by (simp add: s'_def kb_take_def clear_kb_buffer_def mem_set_filled filled_def inreg_def unat_nth)
  have z: "\<not> inreg dest 257 (?b + 255)" using sep_notin [of dest 257 ?b 256 "?b + 255"] apart by (simp add: sep_sym inreg_def)
  then have "?b + 255 \<noteq> dest + kb_i s" using n by (auto simp: inreg_def)
  moreover have "mem_cpy dest ?b (kb_i s - 1) (ram s) (?b + 255) = ram s (?b + 255)"
    using z inreg_mono [of dest n "?b + 255" 257] n(2) k1 by (intro mem_cpy_outside) auto
  ultimately show "ram s' (?b + 255) = ram s (?b + 255)"
    by (simp add: s'_def kb_take_def clear_kb_buffer_def mem_set_filled filled_def store8_def inreg_def)
qed

lemma kb_take_outside:
  assumes "unat (kb_i s) = Suc n" and "n < 256" and "\<not> inreg (s_kb_buffer L) 256 x" and "\<not> inreg dest 257 x"
  shows "ram (kb_take L dest s) x = ram s x"
proof -
  have "kb_i s \<noteq> 0" using assms(1) by auto
  then have k: "unat (kb_i s - 1) = n" using assms(1) by (simp add: unat_pred)
  have "x \<noteq> dest + kb_i s" using assms by (auto simp: inreg_def)
  moreover have "mem_cpy dest (s_kb_buffer L) (kb_i s - 1) (ram s) x = ram s x"
    using inreg_mono [of dest n x 257] assms(2,4) k by (intro mem_cpy_outside) auto
  moreover have "\<not> inreg (s_kb_buffer L) 255 x" using inreg_mono [of _ 255 x 256] assms(3) by auto
  ultimately show ?thesis
    by (simp add: kb_take_def clear_kb_buffer_def mem_set_filled filled_def store8_def)
qed

section \<open>Lines that end\<close>

lemma kb_step_grows: "length (kv_line v) \<le> length (kv_line (kb_step sc v))"
  by (simp add: kb_step_def)

lemma fold_step_grows: "length (kv_line v) \<le> length (kv_line (fold kb_step ks v))"
proof (induction ks arbitrary: v)
  case (Cons sc ks)
  show ?case using Cons [of "kb_step sc v"] kb_step_grows [of v sc] by simp
qed simp

text \<open>Before the key that ends it, a line is no longer than what stands before its line feed.\<close>

lemma line_before_end:
  assumes "fold kb_step ks v = \<lparr>kv_line = cs @ [c], kv_shift = sh, kv_enter = True\<rparr>"
    and "\<forall>k < length ks. \<not> kv_enter (fold kb_step (take k ks) v)" and "k < length ks"
  shows "length (kv_line (fold kb_step (take k ks) v)) \<le> length cs"
proof -
  obtain js x where ks: "ks = js @ [x]" using assms(3) by (cases ks rule: rev_cases) auto
  have u: "\<not> kv_enter (fold kb_step js v)" using assms(2) ks by (auto dest: spec [of _ "length js"])
  have e: "kb_step x (fold kb_step js v) = \<lparr>kv_line = cs @ [c], kv_shift = sh, kv_enter = True\<rparr>"
    using assms(1) ks by simp
  then have "kb_printable x" using u by (cases "fold kb_step js v") (auto simp: kb_step_def split: if_splits)
  then have "length (kv_line (fold kb_step js v)) = length cs"
    using arg_cong [OF e, of kv_line] by (simp add: kb_step_def)
  moreover have "fold kb_step js v = fold kb_step (drop k js) (fold kb_step (take k js) v)"
    by (metis append_take_drop_id comp_apply fold_append)
  ultimately show ?thesis
    using fold_step_grows [of "fold kb_step (take k js) v" "drop k js"] assms(3) ks by simp
qed

text \<open>What ends a line is Enter, a line feed with shift or without.\<close>

lemma line_end:
  assumes "fold kb_step ks v = \<lparr>kv_line = cs @ [c], kv_shift = sh, kv_enter = True\<rparr>"
    and "\<forall>k < length ks. \<not> kv_enter (fold kb_step (take k ks) v)" and "\<not> kv_enter v"
  shows "c = 10"
proof -
  obtain js x where ks: "ks = js @ [x]" using assms(1,3) by (cases ks rule: rev_cases) auto
  have u: "\<not> kv_enter (fold kb_step js v)" using assms(2) ks by (auto dest: spec [of _ "length js"])
  have e: "kb_step x (fold kb_step js v) = \<lparr>kv_line = cs @ [c], kv_shift = sh, kv_enter = True\<rparr>"
    using assms(1) ks by simp
  then have "kb_printable x" "x = 0x1C"
    using u by (cases "fold kb_step js v"; auto simp: kb_step_def split: if_splits)+
  then show ?thesis
    using arg_cong [OF e, of kv_line] by (simp add: kb_step_def kb_char_def kbdus_def kbdus_shifted_def split: if_splits)
qed

section \<open>A source of interrupts\<close>

text \<open>
  What the reader needs of the interrupts that come while it waits: each is a step that does to the line
  what the abstract keyboard does with a scan code (0 for an interrupt that is no key), and changes no memory
  but the screen, the buffer and a scratch region. The keyboard handler alone is such a source, and so is
  the dispatch of the kernel with the clock ticking in between.
\<close>

locale typist =
  fixes L :: syms and irq :: "kstate \<Rightarrow> kstate comp" and step :: "kstate \<Rightarrow> kstate"
    and code :: "kstate \<Rightarrow> byte" and inv :: "kstate \<Rightarrow> bool" and scratch :: "addr \<Rightarrow> bool"
  assumes irq_step: "kb_ok L s \<Longrightarrow> inv s \<Longrightarrow> irq s = ret (step s)"
    and step_view: "kb_ok L s \<Longrightarrow> inv s \<Longrightarrow> kb_view_of L (step s) = kb_step (code s) (kb_view_of L s)"
    and step_ok: "kb_ok L s \<Longrightarrow> inv s \<Longrightarrow> cursor_ok (tty0 (step s)) \<and> unat (kb_i (step s)) \<le> Suc (unat (kb_i s))"
    and step_geometry: "kb_ok L s \<Longrightarrow> inv s \<Longrightarrow> same_geometry (tty0 s) (tty0 (step s))"
    and step_frame: "kb_ok L s \<Longrightarrow> inv s \<Longrightarrow> \<not> in_frame (tty0 s) x \<Longrightarrow> \<not> inreg (s_kb_buffer L) 256 x \<Longrightarrow>
      \<not> scratch x \<Longrightarrow> ram (step s) x = ram s x"
    and step_inv: "kb_ok L s \<Longrightarrow> inv s \<Longrightarrow> inv (step s)"
begin

text \<open>The state after \<open>n\<close> interrupts; up to the one that ends the line the buffer has room.\<close>

abbreviation after :: "nat \<Rightarrow> kstate \<Rightarrow> kstate" where
  "after n s \<equiv> (step ^^ n) s"

definition types :: "byte list \<Rightarrow> kstate \<Rightarrow> bool" where
  "types ks s \<longleftrightarrow> kb_ok L s \<and> inv s \<and> (\<forall>k < length ks. code (after k s) = ks ! k)
     \<and> (\<forall>k < length ks. length (kv_line (fold kb_step (take k ks) (kb_view_of L s))) < 256)"

lemma after_view:
  assumes "types ks s" and "n \<le> length ks"
  shows "kb_view_of L (after n s) = fold kb_step (take n ks) (kb_view_of L s)
    \<and> same_geometry (tty0 s) (tty0 (after n s)) \<and> cursor_ok (tty0 (after n s)) \<and> inv (after n s)
    \<and> unat (kb_i (after n s)) \<le> 256 \<and> (n < length ks \<longrightarrow> kb_ok L (after n s))
    \<and> (\<forall>x. in_frame (tty0 s) x \<or> inreg (s_kb_buffer L) 256 x \<or> scratch x \<or> ram (after n s) x = ram s x)"
  using assms(2)
proof (induction n)
  case 0
  then show ?case using assms(1) by (simp add: types_def same_geometry_def kb_ok_def)
next
  case (Suc n)
  let ?s = "after n s"
  have IH: "kb_view_of L ?s = fold kb_step (take n ks) (kb_view_of L s)" "same_geometry (tty0 s) (tty0 ?s)"
    "inv ?s" "kb_ok L ?s" "\<forall>x. in_frame (tty0 s) x \<or> inreg (s_kb_buffer L) 256 x \<or> scratch x \<or> ram ?s x = ram s x"
    using Suc by auto
  note st = step_view [OF IH(4,3)] step_ok [OF IH(4,3)] step_geometry [OF IH(4,3)] step_inv [OF IH(4,3)]
  have "fold kb_step (take (Suc n) ks) v = kb_step (ks ! n) (fold kb_step (take n ks) v)" for v
    using Suc.prems by (simp add: take_Suc_conv_app_nth)
  then have view: "kb_view_of L (step ?s) = fold kb_step (take (Suc n) ks) (kb_view_of L s)"
    using st(1) IH(1) assms(1) Suc.prems by (simp add: types_def)
  have geo: "same_geometry (tty0 s) (tty0 (step ?s))" using st(3) IH(2) by (simp add: same_geometry_def)
  have i: "unat (kb_i (step ?s)) \<le> 256" using st(2) IH(4) by (simp add: kb_ok_def)
  have room: "Suc n < length ks \<longrightarrow> kb_ok L (step ?s)"
  proof
    assume "Suc n < length ks"
    then have "length (kv_line (kb_view_of L (step ?s))) < 256" using assms(1) view by (simp add: types_def)
    then have "unat (kb_i (step ?s)) < 256" by (simp add: kb_view_of_def)
    then show "kb_ok L (step ?s)"
      using st(2,3) IH(4) same_geometry_ok [OF st(3)] by (simp add: kb_ok_def same_geometry_def frame_bytes_def)
  qed
  have "in_frame (tty0 ?s) x = in_frame (tty0 s) x" for x by (rule same_geometry_frame [OF IH(2)])
  then have fr: "in_frame (tty0 s) x \<or> inreg (s_kb_buffer L) 256 x \<or> scratch x \<or> ram (step ?s) x = ram s x" for x
    using step_frame [OF IH(4,3), of x] IH(5) by metis
  have "after (Suc n) s = step ?s" by simp
  then show ?case using view geo i room fr st(2,4) by simp
qed

lemma wait_ends:
  assumes "\<And>k. k < n \<Longrightarrow> kb_ok L (after k s) \<and> inv (after k s) \<and> kb_buffer_pending (after k s) = 0"
    and "kb_buffer_pending (after n s) \<noteq> 0"
  shows "kb_wait irq s = ret (after n s)"
  using assms
proof (induction n arbitrary: s)
  case 0
  then show ?case by (simp add: kb_wait.simps [of _ s])
next
  case (Suc n)
  have "kb_buffer_pending s = 0" "irq s = ret (step s)" using Suc.prems(1) [of 0] irq_step by simp_all
  moreover have "kb_wait irq (step s) = ret (after n (step s))"
  proof (rule Suc.IH)
    show "kb_ok L (after k (step s)) \<and> inv (after k (step s)) \<and> kb_buffer_pending (after k (step s)) = 0" if "k < n" for k
      using Suc.prems(1) [of "Suc k"] that by (simp add: funpow_swap1)
    show "kb_buffer_pending (after n (step s)) \<noteq> 0"
      using Suc.prems(2) by (simp add: funpow_swap1)
  qed
  ultimately show ?case
    by (simp add: kb_wait.simps [of _ s] funpow_swap1)
qed

text \<open>The line the reader gets, and what its run changes.\<close>

definition line_typed :: "byte list \<Rightarrow> byte list \<Rightarrow> bool \<Rightarrow> kstate \<Rightarrow> bool" where
  "line_typed ks cs sh s \<longleftrightarrow> kb_ok L s \<and> inv s \<and> length cs < 256 \<and> (\<forall>k < length ks. code (after k s) = ks ! k)
     \<and> (\<exists>c. fold kb_step ks (kb_view_of L s) = \<lparr>kv_line = cs @ [c], kv_shift = sh, kv_enter = True\<rparr>)
     \<and> (\<forall>k < length ks. \<not> kv_enter (fold kb_step (take k ks) (kb_view_of L s)))"

lemma line_types:
  assumes "line_typed ks cs sh s"
  shows "types ks s"
proof -
  obtain c where ends: "fold kb_step ks (kb_view_of L s) = \<lparr>kv_line = cs @ [c], kv_shift = sh, kv_enter = True\<rparr>"
    using assms by (auto simp: line_typed_def)
  have first: "\<forall>k < length ks. \<not> kv_enter (fold kb_step (take k ks) (kb_view_of L s))" and n: "length cs < 256"
    using assms by (simp_all add: line_typed_def)
  show ?thesis using assms line_before_end [OF ends first] n by (fastforce simp: line_typed_def types_def)
qed

lemma line_length:
  assumes "line_typed ks cs sh s"
  shows "unat (kb_i (after (length ks) s)) = Suc (length cs)" "length cs < 256"
proof -
  obtain c where "fold kb_step ks (kb_view_of L s) = \<lparr>kv_line = cs @ [c], kv_shift = sh, kv_enter = True\<rparr>"
    using assms by (auto simp: line_typed_def)
  then have "kb_view_of L (after (length ks) s) = \<lparr>kv_line = cs @ [c], kv_shift = sh, kv_enter = True\<rparr>"
    using after_view [OF line_types [OF assms], of "length ks"] by simp
  then show "unat (kb_i (after (length ks) s)) = Suc (length cs)"
    by (auto simp: kb_view_of_def dest: arg_cong [of _ _ length])
  show "length cs < 256" using assms by (simp add: line_typed_def)
qed

text \<open>Taking the line out changes the two buffers and the globals of the keyboard.\<close>

lemma line_taken:
  assumes "line_typed ks cs sh s" and "\<not> inreg (s_kb_buffer L) 256 x" and "\<not> inreg dest 257 x"
  shows "ram (kb_take L dest (after (length ks) s)) x = ram (after (length ks) s) x"
  by (rule kb_take_outside [OF line_length [OF assms(1)] assms(2,3)])

lemma line_read:
  assumes line: "line_typed ks cs sh s"
    and ranges: "unat dest + 257 \<le> 4294967296" "unat (s_kb_buffer L) + 256 \<le> 4294967296"
    and apart: "sep (s_kb_buffer L) 256 dest 257"
  shows "\<exists>s'. get_kbd irq L dest s = ret s' \<and> s' = kb_take L dest (after (length ks) s)
    \<and> (\<forall>i < length cs. ram s' (dest + of_nat i) = cs ! i)
    \<and> ram s' (dest + of_nat (length cs)) = ram (after (length ks) s) (dest + of_nat (length cs))
    \<and> ram s' (dest + of_nat (Suc (length cs))) = 0
    \<and> kb_view_of L s' = \<lparr>kv_line = [], kv_shift = sh, kv_enter = False\<rparr>
    \<and> (\<forall>i < 255. ram s' (s_kb_buffer L + of_nat i) = 0)
    \<and> ram s' (s_kb_buffer L + 255) = ram (after (length ks) s) (s_kb_buffer L + 255)
    \<and> same_geometry (tty0 s) (tty0 s') \<and> cursor_ok (tty0 s')
    \<and> (\<forall>x. in_frame (tty0 s) x \<or> inreg (s_kb_buffer L) 256 x \<or> inreg dest 257 x \<or> scratch x \<or> ram s' x = ram s x)"
proof -
  let ?n = "length ks" and ?t = "after (length ks) s"
  obtain c where ends: "fold kb_step ks (kb_view_of L s) = \<lparr>kv_line = cs @ [c], kv_shift = sh, kv_enter = True\<rparr>"
    using line by (auto simp: line_typed_def)
  have first: "\<forall>k < ?n. \<not> kv_enter (fold kb_step (take k ks) (kb_view_of L s))" and n: "length cs < 256"
    using line by (simp_all add: line_typed_def)
  note av = after_view [OF line_types [OF line]]
  have view: "kb_view_of L ?t = \<lparr>kv_line = cs @ [c], kv_shift = sh, kv_enter = True\<rparr>"
    using av [of ?n] ends by simp
  have pend: "kb_buffer_pending ?t \<noteq> 0" and shift: "(kb_shifted ?t \<noteq> 0) = sh"
    using view by (auto simp: kb_view_of_def)
  note len = line_length(1) [OF line]
  have "kb_ok L (after k s) \<and> inv (after k s) \<and> kb_buffer_pending (after k s) = 0" if "k < ?n" for k
  proof -
    have "\<not> kv_enter (kb_view_of L (after k s))" using av [of k] first that by simp
    then show ?thesis using av [of k] that by (simp add: kb_view_of_def)
  qed
  from wait_ends [OF this pend]
  have run: "get_kbd irq L dest s = ret (kb_take L dest ?t)" by (simp add: get_kbd_def)
  note cp = kb_take_copies [OF len n ranges apart]
  have fr: "same_geometry (tty0 s) (tty0 ?t)" "cursor_ok (tty0 ?t)"
    "\<forall>x. in_frame (tty0 s) x \<or> inreg (s_kb_buffer L) 256 x \<or> scratch x \<or> ram ?t x = ram s x"
    using av [of ?n] by auto
  have tk: "tty0 (kb_take L dest ?t) = tty0 ?t" by (simp add: kb_take_def clear_kb_buffer_def)
  note line_taken [OF line, of _ dest]
  then have "in_frame (tty0 s) x \<or> inreg (s_kb_buffer L) 256 x \<or> inreg dest 257 x \<or> scratch x
      \<or> ram (kb_take L dest ?t) x = ram s x" for x
    using fr(3) by metis
  then show ?thesis
    using run cp view shift fr tk by (intro exI [of _ "kb_take L dest ?t"]) (simp add: nth_append)
qed

lemma line_after:
  assumes "line_typed ks cs sh s"
  shows "in_frame (tty0 s) x \<or> inreg (s_kb_buffer L) 256 x \<or> scratch x \<or> ram (after (length ks) s) x = ram s x"
  using after_view [OF line_types [OF assms], of "length ks"] by blast

end

text \<open>The keyboard handler by itself.\<close>

interpretation kb: typist L "\<lambda>s. ret (keyboard_handler dev L s)" "keyboard_handler dev L" "\<lambda>s. dev (io s) 0x60"
    "\<lambda>_. True" "\<lambda>_. False" for L dev
  by unfold_locales (simp_all add: handler_view handler_ok handler_frame)

abbreviation typed :: "device \<Rightarrow> syms \<Rightarrow> nat \<Rightarrow> kstate \<Rightarrow> kstate" where
  "typed dev L n s \<equiv> (keyboard_handler dev L ^^ n) s"

text \<open>C20. When the keyboard delivers the scan codes \<open>ks\<close>, of which the last is the first to
  end the line, \<open>get_kbd\<close> returns: the caller has every character of the abstract line but the line
  feed, then one byte left as it was, and the terminator behind that byte. The keyboard has no line, the first
  255 bytes of its buffer are zero, and the last is left as it was.\<close>

theorem get_kbd_line:
  assumes ok: "kb_ok L s" and room: "length cs < 256"
    and keys: "\<forall>k < length ks. dev (io (typed dev L k s)) 0x60 = ks ! k"
    and ends: "fold kb_step ks (kb_view_of L s) = \<lparr>kv_line = cs @ [c], kv_shift = sh, kv_enter = True\<rparr>"
    and first: "\<forall>k < length ks. \<not> kv_enter (fold kb_step (take k ks) (kb_view_of L s))"
    and ranges: "unat dest + 257 \<le> 4294967296" "unat (s_kb_buffer L) + 256 \<le> 4294967296"
    and apart: "sep (s_kb_buffer L) 256 dest 257"
  shows "\<exists>s'. get_kbd (\<lambda>s. ret (keyboard_handler dev L s)) L dest s = ret s'
    \<and> (\<forall>i < length cs. ram s' (dest + of_nat i) = cs ! i)
    \<and> ram s' (dest + of_nat (length cs)) = ram (typed dev L (length ks) s) (dest + of_nat (length cs))
    \<and> ram s' (dest + of_nat (Suc (length cs))) = 0
    \<and> kb_view_of L s' = \<lparr>kv_line = [], kv_shift = sh, kv_enter = False\<rparr>
    \<and> (\<forall>i < 255. ram s' (s_kb_buffer L + of_nat i) = 0)
    \<and> ram s' (s_kb_buffer L + 255) = ram (typed dev L (length ks) s) (s_kb_buffer L + 255)"
proof -
  have "kb.line_typed L dev ks cs sh s" using ok room keys ends first by (auto simp: kb.line_typed_def)
  from kb.line_read [OF this ranges apart] show ?thesis by blast
qed

text \<open>A device that answers the scan codes of ''Hi'' and Enter, one per read.\<close>

definition hi_keys :: "byte list" where
  "hi_keys = [0x2A, 0x23, 0xAA, 0x17, 0x1C]"

definition reads :: "port_event list \<Rightarrow> nat" where
  "reads es = length (filter (\<lambda>e. case e of In p v \<Rightarrow> p = 0x60 | _ \<Rightarrow> False) es)"

definition hi_device :: device where
  "hi_device es p = hi_keys ! reads es"

lemma reads_simps [simp]: "reads [] = 0" "reads (es @ fs) = reads es + reads fs"
  "reads (Out p v # es) = reads es" "reads (In 0x60 v # es) = Suc (reads es)"
  by (simp_all add: reads_def)

lemma reads_putchar [simp]: "reads (io (term_putchar c s)) = reads (io s)"
  by (simp add: term_putchar_def update_cursor_def outbs_eq Let_def putchar_draw_def putchar_scroll_def
      putchar_wrap_def putchar_control_def term_putentryat_def term_putcell_def term_scroll_def)

lemma reads_handler: "reads (io (keyboard_handler dev L s)) = Suc (reads (io s))"
  by (simp add: handler_cases kb_add_def Let_def)

lemma reads_typed: "reads (io (typed dev L n s)) = reads (io s) + n"
  by (induction n) (simp_all add: reads_handler)

lemma get_kbd_line_witness:
  "\<exists>s'. get_kbd (\<lambda>s. ret (keyboard_handler hi_device sample_syms s)) sample_syms 0x200000 sample_state = ret s'
    \<and> ram s' 0x200000 = 72 \<and> ram s' 0x200001 = 105 \<and> ram s' 0x200003 = 0"
proof -
  have v: "kb_view_of sample_syms sample_state = \<lparr>kv_line = [], kv_shift = False, kv_enter = False\<rparr>"
    by (simp add: kb_view_of_def)
  note st = kb_step_def kb_printable_def kb_char_def
  have ks: "kb_step 0x2A v = v\<lparr>kv_shift := True\<rparr>" "kb_step 0xAA v = v\<lparr>kv_shift := False\<rparr>"
    "kb_step 0x23 v = v\<lparr>kv_line := kv_line v @ [if kv_shift v then 72 else 104]\<rparr>"
    "kb_step 0x17 v = v\<lparr>kv_line := kv_line v @ [if kv_shift v then 73 else 105]\<rparr>"
    "kb_step 0x1C v = v\<lparr>kv_line := kv_line v @ [10], kv_enter := True\<rparr>" for v
    by (simp_all add: st kbdus_def kbdus_shifted_def)
  have "\<forall>k < length hi_keys. hi_device (io (typed hi_device sample_syms k sample_state)) 0x60 = hi_keys ! k"
    by (simp add: hi_device_def reads_typed)
  moreover have "fold kb_step hi_keys (kb_view_of sample_syms sample_state) =
      \<lparr>kv_line = [72, 105] @ [10], kv_shift = False, kv_enter = True\<rparr>"
    by (simp add: v hi_keys_def ks)
  moreover have "\<forall>k < length hi_keys. \<not> kv_enter (fold kb_step (take k hi_keys) (kb_view_of sample_syms sample_state))"
    by (simp add: v hi_keys_def ks All_less_Suc numeral_eq_Suc)
  ultimately obtain s' where "get_kbd (\<lambda>s. ret (keyboard_handler hi_device sample_syms s)) sample_syms
      0x200000 sample_state = ret s'" and c: "\<forall>i < length [72, 105 :: byte]. ram s' (0x200000 + of_nat i) = [72, 105] ! i"
    "ram s' (0x200000 + of_nat (Suc (length [72, 105 :: byte]))) = 0"
    using get_kbd_line [OF sample_keyboard, of "[72, 105]" hi_keys hi_device 10 False "0x200000"]
    by (auto simp: hi_keys_def sep_simps)
  moreover have "ram s' 0x200000 = 72" "ram s' 0x200001 = 105"
    using c(1) [rule_format, of 0] c(1) [rule_format, of 1] by simp_all
  ultimately show ?thesis by auto
qed

text \<open>Nothing bounds the line: the key after the 256th is stored in the byte behind
  the buffer.\<close>

theorem keyboard_overruns:
  assumes "kb_i s = 256" and "kb_printable (dev (io s) 0x60)"
    and "geometry_ok (tty0 s)" and "cursor_ok (tty0 s)"
  shows "ram (keyboard_handler dev L s) (s_kb_buffer L + 256) = kb_char (kb_shifted s \<noteq> 0) (dev (io s) 0x60)
    \<and> kb_i (keyboard_handler dev L s) = 257"
proof -
  let ?s1 = "s\<lparr>io := io s @ [In 0x60 (dev (io s) 0x60)]\<rparr>"
  let ?c = "kb_char (kb_shifted s \<noteq> 0) (dev (io s) 0x60)"
  have "term_frame ?s1 (term_putchar ?c ?s1)" using assms(3,4) by (intro tp.put_frame) simp_all
  then have "kb_i (term_putchar ?c ?s1) = 256" using assms(1) by (simp add: term_frame_def rest_def)
  then show ?thesis
    using assms(2) by (auto simp: handler_cases kb_add_def store8_def Let_def)
qed

lemma keyboard_overruns_witness:
  "ram (keyboard_handler (\<lambda>_ _. 0x1E) sample_syms (sample_state\<lparr>kb_i := 256\<rparr>)) 0x101700 = 97"
  using keyboard_overruns [of "sample_state\<lparr>kb_i := 256\<rparr>" "\<lambda>_ _. 0x1E" sample_syms] sample_screen
  by (simp add: kb_printable_def kb_char_def kbdus_def)

end
