(* ===== verification/Time.thy ===== *)
theory Time
  imports Idt
begin

text \<open>
  The clock (\<^verbatim>\<open>time.c\<close>): the interval timer, and the time of day from the battery-backed clock, whose
  registers are read through an index and a data port.
\<close>

section \<open>The interval timer\<close>

text \<open>A division by zero is a fault, whose handler does not return.\<close>

definition timer_phase :: "cint \<Rightarrow> kstate \<Rightarrow> kstate option" where
  "timer_phase hz s =
     (let s = s\<lparr>t_hz := hz\<rparr> in
      if hz = 0 then None
      else let divisor = c_div 1193180 hz in
        Some (outbs [(0x43, 0x36), (0x40, ucast (divisor AND 0xFF)),
          (0x40, ucast (signed_drop_bit 8 divisor))] s))"

definition timer_handler :: "kstate \<Rightarrow> kstate option" where
  "timer_handler s =
     (let s = s\<lparr>uptime := uptime s + 1\<rparr> in
      if t_hz s = 0 then None else if c_mod (uptime s) (t_hz s) = 0 then Some s else Some s)"

definition init_timer :: "syms \<Rightarrow> kstate \<Rightarrow> kstate option" where
  "init_timer L s =
     (case timer_phase 100 (s\<lparr>uptime := 0\<rparr>) of None \<Rightarrow> None
      | Some s \<Rightarrow> Some (with_ram (irq_install_handler L 0 (f_timer_handler L)) s))"

section \<open>The time of day\<close>

definition from_bcd :: "16 word \<Rightarrow> cint" where
  "from_bcd val = c_div (ucast val) 16 * 10 + (ucast val AND 0xf)"

text \<open>\<open>cmos_dump_from dev i n s\<close> reads \<open>n\<close> registers from \<open>i\<close> on.\<close>

fun cmos_dump_from :: "device \<Rightarrow> 16 word \<Rightarrow> nat \<Rightarrow> kstate \<Rightarrow> 16 word list \<times> kstate" where
  "cmos_dump_from dev index 0 s = ([], s)"
| "cmos_dump_from dev index (Suc n) s =
     (let s = outb 0x70 (ucast index) s;
          (v, s) = inb dev 0x71 s;
          (vs, s) = cmos_dump_from dev (index + 1) n s
      in (ucast v # vs, s))"

definition cmos_dump :: "device \<Rightarrow> kstate \<Rightarrow> 16 word list \<times> kstate" where
  "cmos_dump dev s = cmos_dump_from dev 0 128 s"

definition get_hours :: "device \<Rightarrow> kstate \<Rightarrow> cint \<times> kstate" where
  "get_hours dev s = (let (values, s) = cmos_dump dev s;
     hours = ucast (from_bcd (values ! 4)) :: 16 word in (ucast hours, s))"

definition get_mins :: "device \<Rightarrow> kstate \<Rightarrow> cint \<times> kstate" where
  "get_mins dev s = (let (values, s) = cmos_dump dev s;
     mins = ucast (from_bcd (values ! 2)) :: 16 word in (ucast mins, s))"

definition get_secs :: "device \<Rightarrow> kstate \<Rightarrow> cint \<times> kstate" where
  "get_secs dev s = (let (values, s) = cmos_dump dev s;
     secs = ucast (from_bcd (values ! 0)) :: 16 word in (ucast secs, s))"

definition get_year :: "device \<Rightarrow> kstate \<Rightarrow> cint \<times> kstate" where
  "get_year dev s = (let (values, s) = cmos_dump dev s;
     year = ucast (from_bcd (values ! 9) + from_bcd (values ! 50) * 100) :: 16 word in (ucast year, s))"

definition get_month :: "device \<Rightarrow> kstate \<Rightarrow> cint \<times> kstate" where
  "get_month dev s = (let (values, s) = cmos_dump dev s;
     month = ucast (from_bcd (values ! 8)) :: 16 word in (ucast month, s))"

definition get_day_of_month :: "device \<Rightarrow> kstate \<Rightarrow> cint \<times> kstate" where
  "get_day_of_month dev s = (let (values, s) = cmos_dump dev s;
     date = ucast (from_bcd (values ! 7)) :: 16 word in (ucast date, s))"

definition days_in_month :: "16 word list" where
  "days_in_month = [31, 28, 31, 30, 31, 30, 31, 31, 30, 31, 30, 31]"

definition days_in_month_at :: "syms \<Rightarrow> mem \<Rightarrow> 16 word \<Rightarrow> 16 word" where
  "days_in_month_at L m month =
     (if unat month < 12 then days_in_month ! unat month
      else load16 m (s_days_in_month L + 2 * ucast month))"

text \<open>
  The year term is a double, so the sum is: every operand and result is an integer far below
  2^53 and hence exact. A sum that does not fit becomes the indefinite integer of the processor.
\<close>

definition to_int32 :: "int \<Rightarrow> cint" where
  "to_int32 k = (if - 2147483648 \<le> k \<and> k < 2147483648 then word_of_int k else 0x80000000)"

definition time_sum :: "syms \<Rightarrow> mem \<Rightarrow> 16 word \<Rightarrow> 16 word \<Rightarrow> 16 word \<Rightarrow> 16 word \<Rightarrow> 16 word \<Rightarrow> 16 word \<Rightarrow> cint" where
  "time_sum L m hours minutes seconds month day year =
     (let i = ucast seconds + ucast minutes * 60 + ucast hours * 60 * 60 + ucast day * 24 * 60 * 60
            + ucast (days_in_month_at L m month) * 24 * 60 * 60 :: cint
      in to_int32 (sint i + (uint year - 2000) * (1461 * 24 * 60 * 60) div 4))"

definition get_time :: "device \<Rightarrow> syms \<Rightarrow> kstate \<Rightarrow> cint \<times> kstate" where
  "get_time dev L s =
     (let (hours, s) = get_hours dev s;
          (minutes, s) = get_mins dev s;
          (seconds, s) = get_secs dev s;
          (month, s) = get_month dev s;
          (day, s) = get_day_of_month dev s;
          (year, s) = get_year dev s
      in (time_sum L (ram s) (ucast hours) (ucast minutes) (ucast seconds) (ucast month) (ucast day)
            (ucast year), s))"

partial_function (option) sleep_from ::
  "device \<Rightarrow> syms \<Rightarrow> cint \<Rightarrow> cint \<Rightarrow> kstate \<Rightarrow> kstate option" where
  "sleep_from dev L t time s =
     (let (now, s') = get_time dev L s in
      if now - time <s t then sleep_from dev L t time s' else Some s')"

definition sleep :: "device \<Rightarrow> syms \<Rightarrow> cint \<Rightarrow> kstate \<Rightarrow> kstate option" where
  "sleep dev L t s = (let (time, s) = get_time dev L s in sleep_from dev L t time s)"

section \<open>A clock that answers\<close>

text \<open>
  The clock as a device: what is read at the data port is the register last selected at the index
  port. It shows one and the same instant for as long as it is read.
\<close>

definition selected :: "port_event list \<Rightarrow> byte" where
  "selected es = fold (\<lambda>e v. case e of Out p w \<Rightarrow> if p = 0x70 then w else v | In _ _ \<Rightarrow> v) es 0"

definition cmos_clock :: "(byte \<Rightarrow> byte) \<Rightarrow> device" where
  "cmos_clock regs es p = (if p = 0x71 then regs (selected es) else 0)"

lemma clock_read: "cmos_clock regs (es @ [Out 0x70 v]) 0x71 = regs v"
  by (simp add: cmos_clock_def selected_def)

lemma cmos_dump_from_clock:
  "fst (cmos_dump_from (cmos_clock regs) index n s) =
     map (\<lambda>k. ucast (regs (ucast (index + of_nat k)))) [0..<n]"
  by (induction n arbitrary: index s)
    (simp_all add: Let_def inb_def clock_read case_prod_beta map_upt_Suc add.assoc del: upt_Suc)

lemma cmos_dump_from_ram: "ram (snd (cmos_dump_from dev index n s)) = ram s"
  by (induction n arbitrary: index s) (simp_all add: Let_def inb_def case_prod_beta)

lemma cmos_dump_io: "\<exists>l. snd (cmos_dump dev s) = s\<lparr>io := l\<rparr>"
proof -
  have "\<exists>l. snd (cmos_dump_from dev index n s) = s\<lparr>io := l\<rparr>" for index n
  proof (induction n arbitrary: index s)
    case 0
    show ?case by (intro exI [of _ "io s"]) simp
  next
    case (Suc n)
    from Suc [of "index + 1" "snd (inb dev 0x71 (outb 0x70 (ucast index) s))"]
    show ?case by (auto simp: inb_def outb_def Let_def case_prod_beta)
  qed
  then show ?thesis by (simp add: cmos_dump_def)
qed

lemma cmos_dump_nth:
  "k < 128 \<Longrightarrow> fst (cmos_dump (cmos_clock regs) s) ! k = ucast (regs (of_nat k))"
  by (simp add: cmos_dump_def cmos_dump_from_clock unsigned_of_nat take_bit_nat_eq_self del: upt_Suc)

lemma cmos_dump_ram: "ram (snd (cmos_dump dev s)) = ram s"
  by (simp add: cmos_dump_def cmos_dump_from_ram)

text \<open>Binary coded decimals.\<close>

definition bcd :: "nat \<Rightarrow> byte" where
  "bcd n = of_nat (n div 10 * 16 + n mod 10)"

lemma from_bcd_byte: "from_bcd (ucast b) = of_nat (unat b div 16 * 10 + unat b mod 16)" for b :: byte
proof -
  define v where "v = (ucast (ucast b :: 16 word) :: cint)"
  have b: "unat b < 256" using unsigned_less [of b] by simp
  then have v: "unat v = unat b"
    unfolding v_def by (simp add: unsigned_ucast_eq unsigned_take_bit_eq take_bit_nat_eq_self)
  have "unat (c_div v 16) = unat b div 16"
    using b v c_div_nonneg [of v 16] by simp
  then have "of_nat (unat (c_div v 16)) = (of_nat (unat b div 16) :: cint)" by (rule arg_cong)
  then have d: "c_div v 16 = of_nat (unat b div 16)" by simp
  have "v AND 0xf = take_bit 4 v"
    unfolding mask_numerals by (rule take_bit_eq_mask [symmetric])
  then have "unat (v AND 0xf) = unat b mod 16"
    using v by (simp add: take_bit_eq_mod unat_mod_distrib)
  then have "of_nat (unat (v AND 0xf)) = (of_nat (unat b mod 16) :: cint)" by (rule arg_cong)
  then have "v AND 0xf = of_nat (unat b mod 16)" by simp
  then show ?thesis using d by (simp add: from_bcd_def v_def)
qed

lemma from_bcd_bcd:
  assumes "n < 100"
  shows "from_bcd (ucast (bcd n)) = of_nat n"
proof -
  have "n div 10 < 10" using assms by (simp add: less_mult_imp_div_less)
  then have lt: "n div 10 * 16 + n mod 10 < 256" using mod_less_divisor [of 10 n] by linarith
  have "(n div 10 * 16 + n mod 10) div 16 = n div 10" "(n div 10 * 16 + n mod 10) mod 16 = n mod 10"
    using mod_less_divisor [of 10 n] by simp_all
  then have "from_bcd (ucast (bcd n)) = of_nat (n div 10 * 10 + n mod 10)"
    using lt by (simp add: from_bcd_byte bcd_def unat_of_nat take_bit_nat_eq_self del: of_nat_add of_nat_mult)
  then show ?thesis by simp
qed

text \<open>The clock shows a date and a time, in binary coded decimals.\<close>

record instant =
  year_of :: nat
  month_of :: nat
  day_of :: nat
  hour_of :: nat
  minute_of :: nat
  second_of :: nat

definition clock_regs :: "instant \<Rightarrow> byte \<Rightarrow> byte" where
  "clock_regs t r =
     (if r = 0 then bcd (second_of t) else if r = 2 then bcd (minute_of t) else if r = 4 then bcd (hour_of t)
      else if r = 7 then bcd (day_of t) else if r = 8 then bcd (month_of t)
      else if r = 9 then bcd (year_of t mod 100) else if r = 50 then bcd (year_of t div 100) else 0)"

definition clock_ok :: "instant \<Rightarrow> bool" where
  "clock_ok t \<longleftrightarrow> second_of t < 60 \<and> minute_of t < 60 \<and> hour_of t < 24 \<and> day_of t \<le> 31
     \<and> 1 \<le> month_of t \<and> month_of t \<le> 12 \<and> year_of t \<le> 9999"

text \<open>The instants at which nothing overflows and the month is found in its table.\<close>

definition instant_ok :: "instant \<Rightarrow> bool" where
  "instant_ok t \<longleftrightarrow> clock_ok t \<and> month_of t < 12 \<and> 2000 \<le> year_of t \<and> year_of t \<le> 2067"

lemma ucast_of_nat_back: "n < 65536 \<Longrightarrow> (ucast (ucast (of_nat n :: cint) :: 16 word) :: cint) = of_nat n"
  by (rule word_unat_eq_iff [THEN iffD2])
    (simp add: unsigned_ucast_eq unsigned_of_nat take_bit_nat_eq_self)

lemma getters:
  assumes "clock_ok t"
  shows "get_hours (cmos_clock (clock_regs t)) s = (of_nat (hour_of t), snd (cmos_dump (cmos_clock (clock_regs t)) s))"
    and "get_mins (cmos_clock (clock_regs t)) s = (of_nat (minute_of t), snd (cmos_dump (cmos_clock (clock_regs t)) s))"
    and "get_secs (cmos_clock (clock_regs t)) s = (of_nat (second_of t), snd (cmos_dump (cmos_clock (clock_regs t)) s))"
    and "get_month (cmos_clock (clock_regs t)) s = (of_nat (month_of t), snd (cmos_dump (cmos_clock (clock_regs t)) s))"
    and "get_day_of_month (cmos_clock (clock_regs t)) s = (of_nat (day_of t), snd (cmos_dump (cmos_clock (clock_regs t)) s))"
    and "get_year (cmos_clock (clock_regs t)) s = (of_nat (year_of t), snd (cmos_dump (cmos_clock (clock_regs t)) s))"
proof -
  have y: "year_of t mod 100 < 100" "year_of t div 100 < 100" "year_of t < 65536"
    using assms by (auto simp: clock_ok_def)
  have "of_nat (year_of t mod 100) + of_nat (year_of t div 100) * 100
      = (of_nat (year_of t mod 100 + year_of t div 100 * 100) :: cint)"
    by (simp only: of_nat_add of_nat_mult of_nat_numeral)
  then have yy: "of_nat (year_of t mod 100) + of_nat (year_of t div 100) * 100 = (of_nat (year_of t) :: cint)"
    by simp
  note d = case_prod_beta cmos_dump_nth clock_regs_def from_bcd_bcd ucast_of_nat_back
  show "get_hours (cmos_clock (clock_regs t)) s = (of_nat (hour_of t), snd (cmos_dump (cmos_clock (clock_regs t)) s))"
    "get_mins (cmos_clock (clock_regs t)) s = (of_nat (minute_of t), snd (cmos_dump (cmos_clock (clock_regs t)) s))"
    "get_secs (cmos_clock (clock_regs t)) s = (of_nat (second_of t), snd (cmos_dump (cmos_clock (clock_regs t)) s))"
    "get_month (cmos_clock (clock_regs t)) s = (of_nat (month_of t), snd (cmos_dump (cmos_clock (clock_regs t)) s))"
    "get_day_of_month (cmos_clock (clock_regs t)) s = (of_nat (day_of t), snd (cmos_dump (cmos_clock (clock_regs t)) s))"
    using assms by (simp_all add: get_hours_def get_mins_def get_secs_def get_month_def
        get_day_of_month_def d Let_def clock_ok_def)
  show "get_year (cmos_clock (clock_regs t)) s = (of_nat (year_of t), snd (cmos_dump (cmos_clock (clock_regs t)) s))"
    using y by (simp add: get_year_def d Let_def yy)
qed

text \<open>The seconds the code computes: a year has 365.25 days, and a month the days it has itself.\<close>

definition month_days :: "nat \<Rightarrow> nat" where
  "month_days k = unat (days_in_month ! k)"

definition seconds_of :: "instant \<Rightarrow> int" where
  "seconds_of t = int (second_of t + 60 * minute_of t + 3600 * hour_of t + 86400 * day_of t
     + 86400 * month_days (month_of t)) + (int (year_of t) - 2000) * 31557600"

text \<open>The length of the month as the code reads it: for month 12 the word behind the table.\<close>

definition month_read :: "syms \<Rightarrow> mem \<Rightarrow> nat \<Rightarrow> nat" where
  "month_read L m k = (if k < 12 then month_days k else unat (load16 m (s_days_in_month L + 2 * of_nat k)))"

definition day_seconds :: "instant \<Rightarrow> nat" where
  "day_seconds t = second_of t + 60 * minute_of t + 3600 * hour_of t + 86400 * day_of t"

lemma get_time_run:
  assumes "clock_ok t"
  shows "fst (get_time (cmos_clock (clock_regs t)) L s)
    = to_int32 (sint (of_nat (day_seconds t + 86400 * month_read L (ram s) (month_of t)) :: cint)
        + (int (year_of t) - 2000) * 31557600)"
proof -
  note ok = assms [unfolded clock_ok_def]
  have u: "(ucast (of_nat k :: cint) :: 16 word) = of_nat k" for k
    by (rule word_unat_eq_iff [THEN iffD2]) (simp add: unsigned_ucast_eq unsigned_of_nat)
  have small: "unat (of_nat k :: 16 word) = k" "uint (of_nat k :: 16 word) = int k" if "k < 65536" for k
    using that by (simp_all add: unat_of_nat uint_nat take_bit_nat_eq_self)
  have uc: "(ucast (of_nat k :: 16 word) :: cint) = of_nat k" if "k < 65536" for k
    by (rule word_unat_eq_iff [THEN iffD2])
      (use that in \<open>simp add: unsigned_ucast_eq unsigned_of_nat take_bit_nat_eq_self\<close>)
  have k: "second_of t < 65536" "minute_of t < 65536" "hour_of t < 65536" "day_of t < 65536"
    "month_of t < 65536" "year_of t < 65536"
    using ok by auto
  have um: "(ucast (days_in_month_at L m (of_nat (month_of t))) :: cint) = of_nat (month_read L m (month_of t))" for m
    by (simp add: days_in_month_at_def month_read_def month_days_def small(1) [OF k(5)] uc [OF k(5)])
  show ?thesis
    using k by (simp add: get_time_def getters [OF assms] case_prod_beta time_sum_def u Let_def
        cmos_dump_ram um small(2) uc day_seconds_def algebra_simps)
qed

lemma days_bounds: "i < 12 \<Longrightarrow> 28 \<le> month_days i \<and> month_days i \<le> 31"
proof -
  assume "i < 12"
  then have "days_in_month ! i \<in> set days_in_month" by (intro nth_mem) (simp add: days_in_month_def)
  then show ?thesis by (auto simp: days_in_month_def month_days_def)
qed

lemma get_time_sint:
  assumes "instant_ok t"
  shows "sint (fst (get_time (cmos_clock (clock_regs t)) L s)) = seconds_of t"
proof -
  have ok: "clock_ok t" "month_of t < 12" "2000 \<le> year_of t" "year_of t \<le> 2067" using assms by (simp_all add: instant_ok_def)
  let ?i = "day_seconds t + 86400 * month_read L (ram s) (month_of t)"
  have "month_days (month_of t) \<le> 31" using ok(2) days_bounds by simp
  then have i: "?i < 2147483648" and b: "0 \<le> seconds_of t" "seconds_of t < 2147483648"
    using ok by (auto simp: seconds_of_def day_seconds_def month_read_def clock_ok_def)
  have "sint (of_nat ?i :: cint) = int ?i"
    using i sint_nonneg_unat [of "of_nat ?i"] by (simp add: unat_of_nat take_bit_nat_eq_self del: of_nat_add of_nat_mult)
  then have "fst (get_time (cmos_clock (clock_regs t)) L s) = to_int32 (seconds_of t)"
    using ok(2) by (simp add: get_time_run [OF ok(1)] seconds_of_def day_seconds_def month_read_def del: of_nat_add of_nat_mult)
  then show ?thesis
    using b sint_nonneg_unat [of "word_of_int (seconds_of t)"]
    by (simp add: to_int32_def unsigned_of_int take_bit_int_eq_self)
qed

text \<open>C31. When the clock shows a date with a year up to 9999, \<open>get_time\<close> returns the sum of the
  seconds, minutes, hours and days shown, the length of the month shown, in a 32-bit word, and 365.25 days for
  each year after 2000 (less for years before), or the processor's indefinite integer if that does not fit. The
  length is that of the month after, for the months are counted from 1 and the table from 0; for December it is
  the word behind the table. From 2000 to 2067, December excepted, nothing overflows.\<close>

theorem get_time_reads:
  assumes "clock_ok t"
  shows "fst (get_time (cmos_clock (clock_regs t)) L s)
      = to_int32 (sint (of_nat (day_seconds t + 86400 * month_read L (ram s) (month_of t)) :: cint)
          + (int (year_of t) - 2000) * 31557600)
    \<and> (month_of t < 12 \<and> 2000 \<le> year_of t \<and> year_of t \<le> 2067 \<longrightarrow>
        sint (fst (get_time (cmos_clock (clock_regs t)) L s)) = seconds_of t)"
  using get_time_run [OF assms] get_time_sint [of t] assms by (simp add: instant_ok_def)

definition sample_instant :: instant where
  "sample_instant = \<lparr>year_of = 2017, month_of = 3, day_of = 31, hour_of = 23, minute_of = 59, second_of = 59\<rparr>"

lemma get_time_reads_witness:
  "sint (fst (get_time (cmos_clock (clock_regs sample_instant)) sample_syms sample_state)) = 541835999"
proof -
  have ok: "clock_ok sample_instant" by (simp add: clock_ok_def sample_instant_def)
  have "month_of sample_instant < 12 \<and> 2000 \<le> year_of sample_instant \<and> year_of sample_instant \<le> 2067"
    "seconds_of sample_instant = 541835999"
    by (simp_all add: sample_instant_def seconds_of_def month_days_def days_in_month_def)
  then show ?thesis using conjunct2 [OF get_time_reads [OF ok, of sample_syms sample_state]] by simp
qed

text \<open>It is no clock to measure with: one second after the last second of a month
  it returns an earlier time than before, since it adds the length of the current month and not the
  lengths of the months that have passed.\<close>

theorem get_time_backwards:
  assumes "1 \<le> k" and "k \<le> 10" and "2000 \<le> y" and "y \<le> 2067"
    and "t = \<lparr>year_of = y, month_of = k, day_of = month_days (k - 1), hour_of = 23,
      minute_of = 59, second_of = 59\<rparr>"
    and "t' = \<lparr>year_of = y, month_of = k + 1, day_of = 1, hour_of = 0, minute_of = 0, second_of = 0\<rparr>"
  shows "sint (fst (get_time (cmos_clock (clock_regs t')) L s'))
    < sint (fst (get_time (cmos_clock (clock_regs t)) L s))"
proof -
  have b: "28 \<le> month_days (k - 1)" "month_days (k - 1) \<le> 31"
    "28 \<le> month_days k" "month_days (k + 1) \<le> 31"
    using days_bounds [of "k - 1"] days_bounds [of k] days_bounds [of "k + 1"] assms(1,2) by auto
  then have "instant_ok t" "instant_ok t'" using assms by (simp_all add: instant_ok_def clock_ok_def)
  then show ?thesis
    using b by (simp add: get_time_sint assms(5,6) seconds_of_def)
qed

lemma get_time_backwards_witness:
  "sint (fst (get_time (cmos_clock (clock_regs
      \<lparr>year_of = 2017, month_of = 2, day_of = 1, hour_of = 0, minute_of = 0, second_of = 0\<rparr>)) sample_syms sample_state))
   < sint (fst (get_time (cmos_clock (clock_regs
      \<lparr>year_of = 2017, month_of = 1, day_of = 31, hour_of = 23, minute_of = 59, second_of = 59\<rparr>)) sample_syms sample_state))"
  by (rule get_time_backwards [of 1 2017]) (simp_all add: month_days_def days_in_month_def)

section \<open>The timer's rate\<close>

text \<open>For a rate of 19 Hz or more \<open>timer_phase\<close> programs the timer's reload value, low
  byte then high byte, to 1193180 divided by the rate; a rate of 0 is a fault.\<close>

theorem timer_divisor:
  assumes "19 \<le> unat hz" and "unat hz < 2147483648"
  shows "\<exists>s' lo hi. timer_phase hz s = Some s' \<and> io s' = io s @ [Out 0x43 0x36, Out 0x40 lo, Out 0x40 hi]
    \<and> unat lo + 256 * unat hi = 1193180 div unat hz \<and> t_hz s' = hz \<and> ram s' = ram s"
proof -
  define d where "d = c_div 1193180 hz"
  have "unat d = 1193180 div unat hz"
    using assms c_div_nonneg [of 1193180 hz] by (simp add: d_def)
  moreover have "1193180 div unat hz \<le> 1193180 div 19"
    using assms(1) by (intro div_le_mono2) simp_all
  ultimately have d: "unat d = 1193180 div unat hz" "unat d < 65536" by simp_all
  have "d AND 0xFF = take_bit 8 d" unfolding mask_numerals by (rule take_bit_eq_mask [symmetric])
  then have "unat (ucast (d AND 0xFF) :: byte) = unat d mod 256"
    by (simp add: unsigned_ucast_eq take_bit_eq_mod unat_mod_distrib)
  moreover have "signed_drop_bit 8 d = drop_bit 8 d"
  proof -
    have "\<not> bit d 31"
      using d(2) bit_unsigned_iff [where ?'a = nat, of d 31] by (simp add: bit_iff_odd)
    then show ?thesis by (intro bit_eqI) (auto simp: bit_simps dest: bit_imp_le_length)
  qed
  then have "unat (ucast (signed_drop_bit 8 d) :: byte) = unat d div 256"
    using d(2) by (simp add: unsigned_ucast_eq take_bit_eq_mod drop_bit_eq_div unat_div_distrib)
  moreover have "hz \<noteq> 0" using assms(1) by auto
  ultimately show ?thesis
    by (simp add: timer_phase_def outbs_eq Let_def flip: d_def) (simp flip: d(1))
qed

lemma timer_divisor_witness:
  "\<exists>s'. timer_phase 100 sample_state = Some s' \<and> t_hz s' = 100"
  using timer_divisor [of 100 sample_state] by auto

end
