(* ===== verification/Fat12.thy ===== *)
theory Fat12
  imports Time Mem
begin

text \<open>
  The floppy driver (\<^verbatim>\<open>fat12.c\<close>): programming of the DMA and floppy controllers through ports. A
  poll that times out gives up silently; a wait for the controller's interrupt is a loop on a flag.
\<close>

section \<open>Ports and commands\<close>

datatype flpydsk_cmd = READ_TRACK | SPECIFY | CHECK_STAT | WRITE_SECT | READ_SECT | CALIBRATE
  | CHECK_INT | WRITE_DEL_S | READ_ID_S | READ_DEL_S | FORMAT_TRACK | SEEK

primrec fdc_cmd :: "flpydsk_cmd \<Rightarrow> byte" where
  "fdc_cmd READ_TRACK = 2"
| "fdc_cmd SPECIFY = 3"
| "fdc_cmd CHECK_STAT = 4"
| "fdc_cmd WRITE_SECT = 5"
| "fdc_cmd READ_SECT = 6"
| "fdc_cmd CALIBRATE = 7"
| "fdc_cmd CHECK_INT = 8"
| "fdc_cmd WRITE_DEL_S = 9"
| "fdc_cmd READ_ID_S = 0xa"
| "fdc_cmd READ_DEL_S = 0xc"
| "fdc_cmd FORMAT_TRACK = 0xd"
| "fdc_cmd SEEK = 0xf"

definition FLPYDSK_DOR :: "16 word" where "FLPYDSK_DOR = 0x3f2"
definition FLPYDSK_MSR :: "16 word" where "FLPYDSK_MSR = 0x3f4"
definition FLPYDSK_FIFO :: "16 word" where "FLPYDSK_FIFO = 0x3f5"
definition FLPYDSK_CTRL :: "16 word" where "FLPYDSK_CTRL = 0x3f7"

text \<open>The digital output register: drive select, reset, DMA and the motors.\<close>

datatype flpydsk_dor_mask = DOR_DRIVE0 | DOR_DRIVE1 | DOR_DRIVE2 | DOR_DRIVE3 | DOR_RESET | DOR_DMA
  | DOR_DRIVE0_MOTOR | DOR_DRIVE1_MOTOR | DOR_DRIVE2_MOTOR | DOR_DRIVE3_MOTOR

primrec dor_mask :: "flpydsk_dor_mask \<Rightarrow> byte" where
  "dor_mask DOR_DRIVE0 = 0"
| "dor_mask DOR_DRIVE1 = 1"
| "dor_mask DOR_DRIVE2 = 2"
| "dor_mask DOR_DRIVE3 = 3"
| "dor_mask DOR_RESET = 4"
| "dor_mask DOR_DMA = 8"
| "dor_mask DOR_DRIVE0_MOTOR = 16"
| "dor_mask DOR_DRIVE1_MOTOR = 32"
| "dor_mask DOR_DRIVE2_MOTOR = 64"
| "dor_mask DOR_DRIVE3_MOTOR = 128"

definition dor_motor :: "byte \<Rightarrow> byte" where
  "dor_motor drive =
     (if drive = 0 then dor_mask DOR_DRIVE0_MOTOR else if drive = 1 then dor_mask DOR_DRIVE1_MOTOR
      else if drive = 2 then dor_mask DOR_DRIVE2_MOTOR else if drive = 3 then dor_mask DOR_DRIVE3_MOTOR else 0)"

text \<open>The main status register.\<close>

datatype flpydsk_msr_mask = MSR_DRIVE1_POS_MODE | MSR_DRIVE2_POS_MODE | MSR_DRIVE3_POS_MODE | MSR_DRIVE4_POS_MODE
  | MSR_BUSY | MSR_DMA | MSR_DATAIO | MSR_DATAREG

primrec msr_mask :: "flpydsk_msr_mask \<Rightarrow> byte" where
  "msr_mask MSR_DRIVE1_POS_MODE = 1"
| "msr_mask MSR_DRIVE2_POS_MODE = 2"
| "msr_mask MSR_DRIVE3_POS_MODE = 4"
| "msr_mask MSR_DRIVE4_POS_MODE = 8"
| "msr_mask MSR_BUSY = 16"
| "msr_mask MSR_DMA = 32"
| "msr_mask MSR_DATAIO = 64"
| "msr_mask MSR_DATAREG = 128"

datatype flpydsk_cmd_ext = EXT_SKIP | EXT_DENSITY | EXT_MULTITRACK

primrec fdc_cmd_ext :: "flpydsk_cmd_ext \<Rightarrow> byte" where
  "fdc_cmd_ext EXT_SKIP = 0x20"
| "fdc_cmd_ext EXT_DENSITY = 0x40"
| "fdc_cmd_ext EXT_MULTITRACK = 0x80"

datatype flpydsk_gap3 = GAP3_STD | GAP3_5_14 | GAP3_3_5

primrec gap3_length :: "flpydsk_gap3 \<Rightarrow> byte" where
  "gap3_length GAP3_STD = 42"
| "gap3_length GAP3_5_14 = 32"
| "gap3_length GAP3_3_5 = 27"

datatype flpydsk_dtl = DTL_128 | DTL_256 | DTL_512 | DTL_1024

primrec sector_dtl :: "flpydsk_dtl \<Rightarrow> byte" where
  "sector_dtl DTL_128 = 0"
| "sector_dtl DTL_256 = 1"
| "sector_dtl DTL_512 = 2"
| "sector_dtl DTL_1024 = 4"

definition FDC_EXT_READ :: byte where
  "FDC_EXT_READ = fdc_cmd_ext EXT_MULTITRACK OR fdc_cmd_ext EXT_SKIP OR fdc_cmd_ext EXT_DENSITY"

definition FLPY_SECTORS_PER_TRACK :: cint where "FLPY_SECTORS_PER_TRACK = 18"

definition DMA_BUFFER :: addr where "DMA_BUFFER = 0x1000"

section \<open>The controller's data register\<close>

definition flpydsk_read_status :: "device \<Rightarrow> kstate \<Rightarrow> byte \<times> kstate" where
  "flpydsk_read_status dev s = inb dev FLPYDSK_MSR s"

text \<open>Up to \<open>n\<close> polls of the status register; \<open>True\<close> when one finds the data register ready.\<close>

fun flpydsk_poll :: "device \<Rightarrow> nat \<Rightarrow> kstate \<Rightarrow> bool \<times> kstate" where
  "flpydsk_poll dev 0 s = (False, s)"
| "flpydsk_poll dev (Suc n) s =
     (let (st, s) = flpydsk_read_status dev s in
      if st AND msr_mask MSR_DATAREG \<noteq> 0 then (True, s) else flpydsk_poll dev n s)"

definition flpydsk_send_command :: "device \<Rightarrow> byte \<Rightarrow> kstate \<Rightarrow> kstate" where
  "flpydsk_send_command dev cmd s =
     (let (ready, s) = flpydsk_poll dev 500 s in if ready then outb FLPYDSK_FIFO cmd s else s)"

text \<open>After a timeout the function ends without a value: the caller reads what the register held.\<close>

definition flpydsk_read_data :: "device \<Rightarrow> byte \<Rightarrow> kstate \<Rightarrow> byte \<times> kstate" where
  "flpydsk_read_data dev junk s =
     (let (ready, s) = flpydsk_poll dev 500 s in if ready then inb dev FLPYDSK_FIFO s else (junk, s))"

definition flpydsk_write_dor :: "byte \<Rightarrow> kstate \<Rightarrow> kstate" where
  "flpydsk_write_dor val s = outb FLPYDSK_DOR val s"

definition flpydsk_write_ccr :: "byte \<Rightarrow> kstate \<Rightarrow> kstate" where
  "flpydsk_write_ccr val s = outb FLPYDSK_CTRL val s"

definition flpydsk_disable_controller :: "kstate \<Rightarrow> kstate" where
  "flpydsk_disable_controller s = flpydsk_write_dor 0 s"

definition flpydsk_enable_controller :: "kstate \<Rightarrow> kstate" where
  "flpydsk_enable_controller s = flpydsk_write_dor (dor_mask DOR_RESET OR dor_mask DOR_DMA) s"

section \<open>DMA\<close>

definition flpydsk_initialize_dma :: "kstate \<Rightarrow> kstate" where
  "flpydsk_initialize_dma s = outbs [(0x0a, 0x06), (0xd8, 0xff), (0x04, 0), (0x04, 0x10), (0xd8, 0xff),
     (0x05, 0xff), (0x05, 0x23), (0x80, 0), (0x0a, 0x02)] s"

definition flpydsk_dma_read :: "kstate \<Rightarrow> kstate" where
  "flpydsk_dma_read s = outbs [(0x0a, 0x06), (0x0b, 0x56), (0x0a, 0x02)] s"

definition flpydsk_dma_write :: "kstate \<Rightarrow> kstate" where
  "flpydsk_dma_write s = outbs [(0x0a, 0x06), (0x0b, 0x5a), (0x0a, 0x02)] s"

section \<open>Commands\<close>

text \<open>The wait for the interrupt; \<open>irq\<close> is the next interrupt, as in the keyboard's wait.\<close>

partial_function (option) flpydsk_wait_irq :: "(kstate \<Rightarrow> kstate comp) \<Rightarrow> kstate \<Rightarrow> kstate comp" where
  "flpydsk_wait_irq irq s =
     (if floppy_irq s = 0 then bindc (irq s) (\<lambda>s'. flpydsk_wait_irq irq s')
      else ret (s\<lparr>floppy_irq := 0\<rparr>))"

text \<open>The status and the cylinder.\<close>

definition flpydsk_check_int :: "device \<Rightarrow> byte \<Rightarrow> kstate \<Rightarrow> (32 word \<times> 32 word) \<times> kstate" where
  "flpydsk_check_int dev junk s =
     (let s = flpydsk_send_command dev (fdc_cmd CHECK_INT) s;
          (st0, s) = flpydsk_read_data dev junk s;
          (cyl, s) = flpydsk_read_data dev junk s
      in ((ucast st0, ucast cyl), s))"

definition flpydsk_control_motor :: "device \<Rightarrow> syms \<Rightarrow> bool \<Rightarrow> kstate \<Rightarrow> kstate comp" where
  "flpydsk_control_motor dev L b s =
     (if 3 < current_drive s then ret s
      else
        let motor = dor_motor (current_drive s);
            s = (if b then flpydsk_write_dor (current_drive s OR motor OR dor_mask DOR_RESET OR dor_mask DOR_DMA) s
                 else flpydsk_write_dor (dor_mask DOR_RESET) s)
        in case sleep dev L 20 s of None \<Rightarrow> None | Some s \<Rightarrow> ret s)"

text \<open>\<^verbatim>\<open>(loadt) << 1 | (dma==true) ? 1 : 0\<close> is a conditional on the whole disjunction.\<close>

definition flpydsk_drive_data ::
  "device \<Rightarrow> 32 word \<Rightarrow> 32 word \<Rightarrow> 32 word \<Rightarrow> bool \<Rightarrow> kstate \<Rightarrow> kstate" where
  "flpydsk_drive_data dev stepr loadt unloadt dma s =
     (let s = flpydsk_send_command dev (fdc_cmd SPECIFY) s;
          data = push_bit 4 (stepr AND 0xf) OR (unloadt AND 0xf);
          s = flpydsk_send_command dev (ucast data) s;
          data = (if push_bit 1 loadt OR (if dma then 1 else 0) \<noteq> 0 then 1 else 0 :: 32 word)
      in flpydsk_send_command dev (ucast data) s)"

fun flpydsk_calibrate_loop ::
  "device \<Rightarrow> byte \<Rightarrow> (kstate \<Rightarrow> kstate comp) \<Rightarrow> syms \<Rightarrow> 32 word \<Rightarrow> nat \<Rightarrow> kstate \<Rightarrow> (cint \<times> kstate) comp" where
  "flpydsk_calibrate_loop dev junk irq L drive 0 s =
     bindc (flpydsk_control_motor dev L False s) (\<lambda>s. ret (- 1, s))"
| "flpydsk_calibrate_loop dev junk irq L drive (Suc n) s =
     (let s = flpydsk_send_command dev (fdc_cmd CALIBRATE) s;
          s = flpydsk_send_command dev (ucast drive) s
      in bindc (flpydsk_wait_irq irq s) (\<lambda>s.
         let ((st0, cyl), s) = flpydsk_check_int dev junk s in
         if cyl = 0 then bindc (flpydsk_control_motor dev L False s) (\<lambda>s. ret (0, s))
         else flpydsk_calibrate_loop dev junk irq L drive n s))"

definition flpydsk_calibrate ::
  "device \<Rightarrow> byte \<Rightarrow> (kstate \<Rightarrow> kstate comp) \<Rightarrow> syms \<Rightarrow> 32 word \<Rightarrow> kstate \<Rightarrow> (cint \<times> kstate) comp" where
  "flpydsk_calibrate dev junk irq L drive s =
     (if 4 \<le> drive then ret (- 2, s)
      else bindc (flpydsk_control_motor dev L True s) (flpydsk_calibrate_loop dev junk irq L drive 10))"

fun flpydsk_seek_loop ::
  "device \<Rightarrow> byte \<Rightarrow> (kstate \<Rightarrow> kstate comp) \<Rightarrow> 32 word \<Rightarrow> 32 word \<Rightarrow> nat \<Rightarrow> kstate \<Rightarrow> (cint \<times> kstate) comp" where
  "flpydsk_seek_loop dev junk irq cyl head 0 s = ret (- 1, s)"
| "flpydsk_seek_loop dev junk irq cyl head (Suc n) s =
     (let s = flpydsk_send_command dev (fdc_cmd SEEK) s;
          s = flpydsk_send_command dev (ucast (push_bit 2 head OR ucast (current_drive s))) s;
          s = flpydsk_send_command dev (ucast cyl) s
      in bindc (flpydsk_wait_irq irq s) (\<lambda>s.
         let ((st0, cyl0), s) = flpydsk_check_int dev junk s in
         if cyl0 = cyl then ret (0, s) else flpydsk_seek_loop dev junk irq cyl head n s))"

definition flpydsk_seek ::
  "device \<Rightarrow> byte \<Rightarrow> (kstate \<Rightarrow> kstate comp) \<Rightarrow> 32 word \<Rightarrow> 32 word \<Rightarrow> kstate \<Rightarrow> (cint \<times> kstate) comp" where
  "flpydsk_seek dev junk irq cyl head s =
     (if 4 \<le> current_drive s then ret (- 1, s) else flpydsk_seek_loop dev junk irq cyl head 10 s)"

fun flpydsk_check_ints :: "device \<Rightarrow> byte \<Rightarrow> nat \<Rightarrow> kstate \<Rightarrow> kstate" where
  "flpydsk_check_ints dev junk 0 s = s"
| "flpydsk_check_ints dev junk (Suc n) s = flpydsk_check_ints dev junk n (snd (flpydsk_check_int dev junk s))"

definition flpydsk_reset :: "device \<Rightarrow> byte \<Rightarrow> (kstate \<Rightarrow> kstate comp) \<Rightarrow> syms \<Rightarrow> kstate \<Rightarrow> kstate comp" where
  "flpydsk_reset dev junk irq L s =
     (let s = flpydsk_enable_controller (flpydsk_disable_controller s) in
      bindc (flpydsk_wait_irq irq s) (\<lambda>s.
        let s = flpydsk_check_ints dev junk 4 s;
            s = flpydsk_write_ccr 0 s;
            s = flpydsk_drive_data dev 3 16 240 True s
        in bindc (flpydsk_calibrate dev junk irq L (ucast (current_drive s)) s) (\<lambda>(r, s). ret s)))"

section \<open>Reading a sector\<close>

text \<open>Head, track and sector of a logical block.\<close>

definition flpydsk_lba_to_chs :: "cint \<Rightarrow> cint \<times> cint \<times> cint" where
  "flpydsk_lba_to_chs lba =
     (c_div (c_mod lba (FLPY_SECTORS_PER_TRACK * 2)) FLPY_SECTORS_PER_TRACK,
      c_div lba (FLPY_SECTORS_PER_TRACK * 2),
      c_mod lba FLPY_SECTORS_PER_TRACK + 1)"

fun flpydsk_read_datas :: "device \<Rightarrow> byte \<Rightarrow> nat \<Rightarrow> kstate \<Rightarrow> kstate" where
  "flpydsk_read_datas dev junk 0 s = s"
| "flpydsk_read_datas dev junk (Suc n) s = flpydsk_read_datas dev junk n (snd (flpydsk_read_data dev junk s))"

text \<open>The command, up to the wait for its end; then the whole routine.\<close>

definition flpydsk_read_command :: "device \<Rightarrow> byte \<Rightarrow> byte \<Rightarrow> byte \<Rightarrow> kstate \<Rightarrow> kstate" where
  "flpydsk_read_command dev head track sector s =
     (let s = flpydsk_dma_read s;
          eot = (if FLPY_SECTORS_PER_TRACK \<le> ucast sector + 1 then FLPY_SECTORS_PER_TRACK else ucast sector + 1)
      in fold (flpydsk_send_command dev)
            [fdc_cmd READ_SECT OR FDC_EXT_READ, push_bit 2 head OR current_drive s, track, head, sector,
             sector_dtl DTL_512, ucast eot, gap3_length GAP3_3_5, 0xff] s)"

definition flpydsk_read_sector_imp ::
  "device \<Rightarrow> byte \<Rightarrow> (kstate \<Rightarrow> kstate comp) \<Rightarrow> byte \<Rightarrow> byte \<Rightarrow> byte \<Rightarrow> kstate \<Rightarrow> kstate comp" where
  "flpydsk_read_sector_imp dev junk irq head track sector s =
     bindc (flpydsk_wait_irq irq (flpydsk_read_command dev head track sector s)) (\<lambda>s.
       ret (snd (flpydsk_check_int dev junk (flpydsk_read_datas dev junk 7 s))))"

definition flpydsk_read_sector ::
  "device \<Rightarrow> byte \<Rightarrow> (kstate \<Rightarrow> kstate comp) \<Rightarrow> syms \<Rightarrow> cint \<Rightarrow> kstate \<Rightarrow> (addr \<times> kstate) comp" where
  "flpydsk_read_sector dev junk irq L sectorLBA s =
     (if 4 \<le> current_drive s then ret (0, s)
      else
        let s = term_writelit ''\<newline>Calculating location...\<newline>'' s;
            (head, track, sector) = flpydsk_lba_to_chs sectorLBA
        in bindc (flpydsk_control_motor dev L True s) (\<lambda>s.
           let s = term_writelit ''Spinning up...\<newline>'' s in
           bindc (flpydsk_seek dev junk irq track head s) (\<lambda>(r, s).
             if r \<noteq> 0 then kernel_panic ''Seek failure\<newline>'' s
             else
               let s = term_writelit ''Reading Sector...\<newline>'' s in
               bindc (flpydsk_read_sector_imp dev junk irq (ucast head) (ucast track) (ucast sector) s) (\<lambda>s.
               bindc (flpydsk_control_motor dev L False s) (\<lambda>s. ret (DMA_BUFFER, s))))))"

definition init_fat12 :: "device \<Rightarrow> byte \<Rightarrow> (kstate \<Rightarrow> kstate comp) \<Rightarrow> syms \<Rightarrow> kstate \<Rightarrow> kstate comp" where
  "init_fat12 dev junk irq L s =
     bindc (flpydsk_reset dev junk irq L (flpydsk_initialize_dma s)) (\<lambda>s.
       let s = flpydsk_drive_data dev 13 1 0xf True s in
       bindc (flpydsk_read_sector dev junk irq L 10 s) (\<lambda>(sector, s).
         case mem_dump L sector 32 s of None \<Rightarrow> None | Some s \<Rightarrow> ret s))"

section \<open>Properties\<close>

text \<open>C30. The 2880 blocks of a 1.44 MB disk go to the right place: head, track and
  sector are in range, and the block number is recovered from them.\<close>

theorem lba_chs_roundtrip:
  assumes "unat lba < 2880"
  shows "case flpydsk_lba_to_chs lba of (head, track, sector) \<Rightarrow>
    unat head < 2 \<and> unat track < 80 \<and> 1 \<le> unat sector \<and> unat sector \<le> 18
    \<and> (unat track * 2 + unat head) * 18 + (unat sector - 1) = unat lba"
proof -
  let ?n = "unat lba"
  have m: "unat (c_mod lba 36) = ?n mod 36" "unat (c_mod lba 18) = ?n mod 18" "unat (c_div lba 36) = ?n div 36"
    using assms c_mod_nonneg [of lba 36] c_mod_nonneg [of lba 18] c_div_nonneg [of lba 36] by simp_all
  moreover have "?n mod 36 < 36" "?n mod 18 < 18" by simp_all
  ultimately have "unat (c_div (c_mod lba 36) 18) = ?n mod 36 div 18" "unat (c_mod lba 18 + 1) = ?n mod 18 + 1"
    using c_div_nonneg [of "c_mod lba 36" 18] by (simp_all add: unat_word_ariths)
  moreover have "(?n div 36 * 2 + ?n mod 36 div 18) * 18 + ?n mod 18 = ?n"
  proof -
    have "?n mod 18 = (?n mod 36) mod 18" by (simp add: mod_mod_cancel)
    then have "?n mod 36 div 18 * 18 + ?n mod 18 = ?n mod 36" by simp
    then show ?thesis using mult_div_mod_eq [of 36 ?n] unfolding distrib_right by linarith
  qed
  moreover have "?n mod 36 div 18 < 2" "?n div 36 < 80" using assms \<open>?n mod 36 < 36\<close> by simp_all
  ultimately show ?thesis
    using m \<open>?n mod 18 < 18\<close>
    by (simp add: flpydsk_lba_to_chs_def FLPY_SECTORS_PER_TRACK_def less_Suc_eq_le [symmetric] del: less_Suc_eq_le)
qed

lemma lba_chs_roundtrip_witness:
  "case flpydsk_lba_to_chs 10 of (head, track, sector) \<Rightarrow> unat head < 2 \<and> unat track < 80"
  using lba_chs_roundtrip [of 10] by (auto simp: case_prod_beta)

text \<open>The polls.\<close>

fun poll_log :: "device \<Rightarrow> nat \<Rightarrow> port_event list \<Rightarrow> port_event list" where
  "poll_log dev 0 es = es"
| "poll_log dev (Suc n) es = poll_log dev n (es @ [In FLPYDSK_MSR (dev es FLPYDSK_MSR)])"

definition ready_at :: "device \<Rightarrow> nat \<Rightarrow> port_event list \<Rightarrow> bool" where
  "ready_at dev n es \<longleftrightarrow> dev (poll_log dev n es) FLPYDSK_MSR AND 128 \<noteq> 0"

lemma poll_ready:
  "k < n \<Longrightarrow> ready_at dev k (io s) \<Longrightarrow> (\<And>j. j < k \<Longrightarrow> \<not> ready_at dev j (io s)) \<Longrightarrow>
     flpydsk_poll dev n s = (True, s\<lparr>io := poll_log dev (Suc k) (io s)\<rparr>)"
proof (induction n arbitrary: k s)
  case (Suc n)
  let ?s = "s\<lparr>io := io s @ [In FLPYDSK_MSR (dev (io s) FLPYDSK_MSR)]\<rparr>"
  show ?case
  proof (cases k)
    case 0
    then show ?thesis
      using Suc.prems(2) by (simp add: flpydsk_read_status_def inb_def ready_at_def Let_def)
  next
    case (Suc k')
    have r: "ready_at dev (Suc j) (io s) = ready_at dev j (io ?s)" for j
      by (simp add: ready_at_def)
    have "\<not> ready_at dev 0 (io s)" using Suc.prems(3) [of 0] Suc by simp
    moreover have "flpydsk_poll dev n ?s = (True, ?s\<lparr>io := poll_log dev (Suc k') (io ?s)\<rparr>)"
    proof (rule Suc.IH)
      show "k' < n" "ready_at dev k' (io ?s)" using Suc Suc.prems(1,2) r by auto
      show "\<not> ready_at dev j (io ?s)" if "j < k'" for j
        using Suc.prems(3) [of "Suc j"] r that Suc by simp
    qed
    ultimately show ?thesis
      using Suc by (simp add: flpydsk_read_status_def inb_def ready_at_def Let_def)
  qed
qed simp

lemma poll_timeout:
  "(\<And>j. j < n \<Longrightarrow> \<not> ready_at dev j (io s)) \<Longrightarrow>
     flpydsk_poll dev n s = (False, s\<lparr>io := poll_log dev n (io s)\<rparr>)"
proof (induction n arbitrary: s)
  case 0
  then show ?case by simp
next
  case (Suc n)
  let ?s = "s\<lparr>io := io s @ [In FLPYDSK_MSR (dev (io s) FLPYDSK_MSR)]\<rparr>"
  have r: "ready_at dev (Suc j) (io s) = ready_at dev j (io ?s)" for j
    by (simp add: ready_at_def)
  have "flpydsk_poll dev n ?s = (False, ?s\<lparr>io := poll_log dev n (io ?s)\<rparr>)"
    by (rule Suc.IH) (use Suc.prems r in force)
  moreover have "\<not> ready_at dev 0 (io s)" using Suc.prems [of 0] by simp
  ultimately show ?case
    by (simp add: flpydsk_read_status_def inb_def ready_at_def Let_def)
qed

text \<open>C32. A command byte is written exactly when one of the first 500 polls finds the
  data register ready, right after that poll; after 500 polls it is dropped, and nothing tells the
  caller.\<close>

theorem send_command_polls:
  "((\<exists>k < 500. ready_at dev k (io s) \<and> (\<forall>j < k. \<not> ready_at dev j (io s))
      \<and> flpydsk_send_command dev cmd s =
        s\<lparr>io := poll_log dev (Suc k) (io s) @ [Out FLPYDSK_FIFO cmd]\<rparr>)
    \<or> ((\<forall>j < 500. \<not> ready_at dev j (io s))
      \<and> flpydsk_send_command dev cmd s = s\<lparr>io := poll_log dev 500 (io s)\<rparr>))"
proof (cases "\<exists>k < 500. ready_at dev k (io s)")
  case True
  then obtain k where k: "k < 500" "ready_at dev k (io s)" by blast
  define m where "m = (LEAST k. ready_at dev k (io s))"
  have m: "ready_at dev m (io s)" "m \<le> k" "\<forall>j < m. \<not> ready_at dev j (io s)"
    using k(2) by (auto simp: m_def intro: LeastI Least_le dest: not_less_Least)
  then have "flpydsk_poll dev 500 s = (True, s\<lparr>io := poll_log dev (Suc m) (io s)\<rparr>)"
    using k by (intro poll_ready) auto
  then have "flpydsk_send_command dev cmd s =
      s\<lparr>io := poll_log dev (Suc m) (io s) @ [Out FLPYDSK_FIFO cmd]\<rparr>"
    by (simp add: flpydsk_send_command_def outb_def)
  then show ?thesis using m k by (intro disjI1 exI [of _ m]) auto
next
  case False
  then have "flpydsk_poll dev 500 s = (False, s\<lparr>io := poll_log dev 500 (io s)\<rparr>)"
    by (intro poll_timeout) auto
  then have "flpydsk_send_command dev cmd s = s\<lparr>io := poll_log dev 500 (io s)\<rparr>"
    by (simp add: flpydsk_send_command_def)
  then show ?thesis using False by blast
qed

lemma send_command_polls_witness:
  "flpydsk_send_command (\<lambda>_ _. 128) 3 sample_state = sample_state\<lparr>io := [In 0x3f4 128, Out 0x3f5 3]\<rparr>"
proof -
  have r: "ready_at (\<lambda>_ _. 128) k es" for k es by (simp add: ready_at_def)
  then have z: "(\<forall>j < k. \<not> ready_at (\<lambda>_ _. 128) j es) \<longleftrightarrow> k = 0" for k es by auto
  show ?thesis
    using send_command_polls [of "\<lambda>_ _. 128" sample_state 3]
    by (auto simp: z FLPYDSK_MSR_def FLPYDSK_FIFO_def simp del: not_all)
qed

text \<open>With a controller that is always ready a command costs one poll.\<close>

definition always_ready :: "device \<Rightarrow> bool" where
  "always_ready dev \<longleftrightarrow> (\<forall>es. dev es FLPYDSK_MSR AND 128 \<noteq> 0)"

lemma send_command_ready:
  "always_ready dev \<Longrightarrow> flpydsk_send_command dev cmd s =
     s\<lparr>io := io s @ [In FLPYDSK_MSR (dev (io s) FLPYDSK_MSR), Out FLPYDSK_FIFO cmd]\<rparr>"
  using poll_ready [of 0 500 dev s]
  by (simp add: always_ready_def ready_at_def flpydsk_send_command_def outb_def)

text \<open>The bytes sent to the controller.\<close>

definition fifo_bytes :: "port_event list \<Rightarrow> byte list" where
  "fifo_bytes es = concat (map (\<lambda>e. case e of Out p v \<Rightarrow> if p = FLPYDSK_FIFO then [v] else [] | In _ _ \<Rightarrow> []) es)"

lemma fifo_send:
  "always_ready dev \<Longrightarrow> fifo_bytes (io (flpydsk_send_command dev cmd s)) = fifo_bytes (io s) @ [cmd]"
  by (simp add: send_command_ready fifo_bytes_def)

text \<open>The parameters the driver programs do not depend on the head load time:
  after SPECIFY and the step and unload times it sends 1 whenever DMA is on, where the controller
  expects the load time shifted left.\<close>

theorem drive_data_drops_load:
  assumes "always_ready dev"
  shows "fifo_bytes (io (flpydsk_drive_data dev stepr loadt unloadt True s)) =
    fifo_bytes (io s) @ [3, ucast (push_bit 4 (stepr AND 0xf) OR (unloadt AND 0xf)), 1]"
proof -
  have "bit (push_bit 1 loadt OR 1 :: 32 word) 0" by (simp add: bit_simps)
  then have "push_bit 1 loadt OR 1 \<noteq> (0 :: 32 word)" by auto
  then show ?thesis
    by (simp add: flpydsk_drive_data_def Let_def fifo_send [OF assms])
qed

lemma drive_data_drops_load_witness:
  "fifo_bytes (io (flpydsk_drive_data (\<lambda>_ _. 128) 3 16 240 True sample_state)) = [3, 0x30, 1]"
  using drive_data_drops_load [of "\<lambda>_ _. 128" 3 16 240 sample_state]
  by (simp add: always_ready_def fifo_bytes_def)

lemma wait_hangs:
  assumes "\<And>s. floppy_irq s = 0 \<Longrightarrow> \<exists>s'. irq s = ret s' \<and> floppy_irq s' = 0" and "floppy_irq s = 0"
  shows "flpydsk_wait_irq irq s = None"
proof -
  have "irq' = irq \<longrightarrow> floppy_irq s \<noteq> 0" if "flpydsk_wait_irq irq' s = Some r" for irq' s r
  proof (rule flpydsk_wait_irq.raw_induct [OF _ that])
    fix wait irq' s r
    assume IH: "\<And>irq' s r. wait irq' s = Some r \<Longrightarrow> irq' = irq \<longrightarrow> floppy_irq s \<noteq> 0"
      and step: "(if floppy_irq s = 0 then bindc (irq' s) (wait irq') else ret (s\<lparr>floppy_irq := 0\<rparr>)) = Some r"
    show "irq' = irq \<longrightarrow> floppy_irq s \<noteq> 0"
    proof (intro impI notI)
      assume eq: "irq' = irq" and z: "floppy_irq s = 0"
      then obtain s' where s': "irq s = ret s'" "floppy_irq s' = 0" using assms(1) by blast
      then have "wait irq s' = Some r" using step eq z by simp
      then show False using IH s'(2) by blast
    qed
  qed
  then show ?thesis using assms(2) by (cases "flpydsk_wait_irq irq s") auto
qed

lemma flag_kept [simp]:
  "floppy_irq (outb p v s) = floppy_irq s" "floppy_irq (outbs ws s) = floppy_irq s"
  "floppy_irq (term_putchar c s) = floppy_irq s"
  by (simp_all add: outb_def outbs_eq term_putchar_def update_cursor_def Let_def putchar_draw_def
      putchar_scroll_def putchar_wrap_def putchar_control_def term_putentryat_def term_putcell_def
      term_scroll_def)

text \<open>C40. The driver never comes up: when no interrupt sets the driver's flag (and no handler
  in the kernel does), \<open>flpydsk_reset\<close>, and with it \<open>init_fat12\<close>, waits for ever.\<close>

theorem reset_hangs:
  assumes "\<forall>s. floppy_irq s = 0 \<longrightarrow> (\<exists>s'. irq s = ret s' \<and> floppy_irq s' = 0)" and "floppy_irq s = 0"
  shows "flpydsk_reset dev junk irq L s = None \<and> init_fat12 dev junk irq L s = None"
proof -
  have "flpydsk_reset dev junk irq L t = None" if "floppy_irq t = 0" for t
  proof -
    let ?t = "flpydsk_enable_controller (flpydsk_disable_controller t)"
    have "floppy_irq ?t = 0"
      using that by (simp add: flpydsk_enable_controller_def flpydsk_disable_controller_def flpydsk_write_dor_def)
    then have "flpydsk_wait_irq irq ?t = None" using assms(1) by (intro wait_hangs) auto
    then show ?thesis by (simp add: flpydsk_reset_def Let_def)
  qed
  then show ?thesis
    using assms(2) by (simp add: init_fat12_def flpydsk_initialize_dma_def)
qed

lemma reset_hangs_witness:
  "init_fat12 (\<lambda>_ _. 128) 0 (\<lambda>s. ret (term_putchar 46 s)) sample_syms sample_state = None"
  using reset_hangs [of "\<lambda>s. ret (term_putchar 46 s)" sample_state "\<lambda>_ _. 128" 0 sample_syms] by simp

text \<open>After the interrupt has come.\<close>

lemma send_flag: "always_ready dev \<Longrightarrow> floppy_irq (flpydsk_send_command dev cmd s) = floppy_irq s"
  by (simp add: send_command_ready)

lemma fold_send:
  "always_ready dev \<Longrightarrow> fifo_bytes (io (fold (flpydsk_send_command dev) cs s)) = fifo_bytes (io s) @ cs
     \<and> floppy_irq (fold (flpydsk_send_command dev) cs s) = floppy_irq s"
  by (induction cs arbitrary: s) (simp_all add: fifo_send send_flag)

lemma read_data_ready:
  "always_ready dev \<Longrightarrow> fifo_bytes (io (snd (flpydsk_read_data dev junk s))) = fifo_bytes (io s)"
  using poll_ready [of 0 500 dev s]
  by (simp add: always_ready_def ready_at_def flpydsk_read_data_def inb_def fifo_bytes_def Let_def)

lemma read_datas_ready:
  "always_ready dev \<Longrightarrow> fifo_bytes (io (flpydsk_read_datas dev junk n s)) = fifo_bytes (io s)"
  by (induction n arbitrary: s) (simp_all add: read_data_ready)

lemma check_int_ready:
  "always_ready dev \<Longrightarrow> fifo_bytes (io (snd (flpydsk_check_int dev junk s))) = fifo_bytes (io s) @ [8]"
proof -
  assume r: "always_ready dev"
  show ?thesis
    using read_data_ready [OF r] fifo_send [OF r, of 8 s]
    by (simp add: flpydsk_check_int_def Let_def case_prod_beta)
qed

text \<open>C29. With a controller that is ready for every byte, reading a sector sends it the nine
  bytes of a read command: the opcode with multitrack, skip and density, head and drive, track, head, sector,
  512 bytes per sector, the next sector but at most the last of the track, the gap length and 0xff. Then the
  routine waits with the flag of the driver as it was. In the kernel, where the flag is clear and no interrupt
  sets it, it never returns; where the wait ends, all that is still sent is a request for the interrupt status.\<close>

theorem read_command_bytes:
  assumes "always_ready dev"
  shows "fifo_bytes (io (flpydsk_read_command dev head track sector s)) = fifo_bytes (io s) @
        [0xE6, push_bit 2 head OR current_drive s, track, head, sector, 2, of_nat (min (unat sector + 1) 18), 27, 0xff]
    \<and> floppy_irq (flpydsk_read_command dev head track sector s) = floppy_irq s
    \<and> (floppy_irq s = 0 \<and> (\<forall>t. floppy_irq t = 0 \<longrightarrow> (\<exists>t'. irq t = ret t' \<and> floppy_irq t' = 0)) \<longrightarrow>
        flpydsk_read_sector_imp dev junk irq head track sector s = None)
    \<and> (\<forall>t. flpydsk_wait_irq irq (flpydsk_read_command dev head track sector s) = ret t \<longrightarrow>
        (\<exists>s'. flpydsk_read_sector_imp dev junk irq head track sector s = ret s' \<and> fifo_bytes (io s') = fifo_bytes (io t) @ [8]))"
proof -
  let ?eot = "ucast (if FLPY_SECTORS_PER_TRACK \<le> ucast sector + 1 then FLPY_SECTORS_PER_TRACK
    else ucast sector + 1) :: byte"
  let ?s = "flpydsk_dma_read s" and ?t = "flpydsk_read_command dev head track sector s"
  have eot: "?eot = of_nat (min (unat sector + 1) 18)"
  proof -
    have "unat sector < 256" using unsigned_less [of sector] by simp
    then have u: "unat (ucast sector + 1 :: cint) = unat sector + 1"
      by (simp add: unat_word_ariths unat_ucast_byte)
    then have "(ucast (ucast sector + 1 :: cint) :: byte) = of_nat (unat sector + 1)"
      by (intro word_unat_eq_iff [THEN iffD2])
        (simp add: unsigned_ucast_eq unsigned_take_bit_eq unsigned_of_nat del: of_nat_add of_nat_Suc)
    then show ?thesis using u by (simp add: FLPY_SECTORS_PER_TRACK_def min_def word_le_nat_alt word_unat_eq_iff [of sector 17])
  qed
  have s: "fifo_bytes (io ?s) = fifo_bytes (io s)" "floppy_irq ?s = floppy_irq s" "current_drive ?s = current_drive s"
    by (simp_all add: flpydsk_dma_read_def outbs_eq fifo_bytes_def FLPYDSK_FIFO_def)
  have op: "6 OR FDC_EXT_READ = 0xE6" by (simp add: FDC_EXT_READ_def)
  define cs where "cs = [0xE6, push_bit 2 head OR current_drive s, track, head, sector, 2, of_nat (min (unat sector + 1) 18), 27, 0xff]"
  have t: "?t = fold (flpydsk_send_command dev) cs ?s"
    by (simp add: flpydsk_read_command_def Let_def eot op s(3) cs_def del: fold_simps of_nat_min)
  have sent: "fifo_bytes (io ?t) = fifo_bytes (io s) @ cs" and flag: "floppy_irq ?t = floppy_irq s"
    using fold_send [OF assms, of cs ?s] s unfolding t by simp_all
  have "flpydsk_read_sector_imp dev junk irq head track sector s = None"
    if "floppy_irq s = 0" "\<forall>t. floppy_irq t = 0 \<longrightarrow> (\<exists>t'. irq t = ret t' \<and> floppy_irq t' = 0)"
  proof -
    have "flpydsk_wait_irq irq ?t = None" by (rule wait_hangs) (use that flag in auto)
    then show ?thesis by (simp add: flpydsk_read_sector_imp_def)
  qed
  moreover have "\<exists>s'. flpydsk_read_sector_imp dev junk irq head track sector s = ret s' \<and> fifo_bytes (io s') = fifo_bytes (io t) @ [8]"
    if "flpydsk_wait_irq irq ?t = ret t" for t
    using that by (simp add: flpydsk_read_sector_imp_def check_int_ready [OF assms] read_datas_ready [OF assms] del: flpydsk_read_datas.simps)
  ultimately show ?thesis using sent flag unfolding cs_def by blast
qed

text \<open>The eleventh sector, as the kernel is, and with an interrupt that would set the flag.\<close>

lemma read_command_bytes_witness:
  "fifo_bytes (io (flpydsk_read_command (\<lambda>_ _. 128) 0 0 11 sample_state)) = [0xE6, 0, 0, 0, 11, 2, 12, 27, 0xff]
    \<and> flpydsk_read_sector_imp (\<lambda>_ _. 128) 0 ret 0 0 11 sample_state = None
    \<and> (\<exists>s'. flpydsk_read_sector_imp (\<lambda>_ _. 128) 0 (\<lambda>s. ret (s\<lparr>floppy_irq := 1\<rparr>)) 0 0 11 sample_state = ret s'
        \<and> fifo_bytes (io s') = [0xE6, 0, 0, 0, 11, 2, 12, 27, 0xff, 8])"
proof -
  have r: "always_ready (\<lambda>_ _. 128)" by (simp add: always_ready_def)
  let ?t = "flpydsk_read_command (\<lambda>_ _. 128) 0 0 11 sample_state"
  note b = read_command_bytes [OF r, of 0 0 11 sample_state]
  have sent: "fifo_bytes (io ?t) = [0xE6, 0, 0, 0, 11, 2, 12, 27, 0xff]" "floppy_irq ?t = 0"
    using b [of ret 0] by (simp_all add: fifo_bytes_def min_def)
  have "flpydsk_wait_irq (\<lambda>s. ret (s\<lparr>floppy_irq := 1\<rparr>)) ?t = ret (?t\<lparr>floppy_irq := 0\<rparr>)"
    using sent(2) by (simp add: flpydsk_wait_irq.simps [of _ ?t] flpydsk_wait_irq.simps [of _ "?t\<lparr>floppy_irq := 1\<rparr>"])
  then show ?thesis using sent b [of ret 0] b [of "\<lambda>s. ret (s\<lparr>floppy_irq := 1\<rparr>)" 0] by auto
qed

end
