(* ===== verification/Kernel.thy ===== *)
theory Kernel
  imports Gdt Keybd Time Fat12 Dasm Task
begin

text \<open>
  The kernel's entry (\<^verbatim>\<open>kernel.c\<close>): the boot sequence, the dispatch of its interrupts to the handlers
  it installs, and the shell.
\<close>

section \<open>Interrupts\<close>

text \<open>The functions the table of handlers can point at.\<close>

definition kernel_call :: "device \<Rightarrow> syms \<Rightarrow> addr \<Rightarrow> addr \<Rightarrow> kstate \<Rightarrow> kstate comp" where
  "kernel_call dev L f r s =
     (if f = f_timer_handler L then lift_comp (timer_handler s)
      else if f = f_keyboard_handler L then ret (keyboard_handler dev L s)
      else Some (Inl (WildCall f s)))"

text \<open>An interrupt whose registers are saved at \<open>r\<close>.\<close>

definition kernel_interrupt :: "device \<Rightarrow> syms \<Rightarrow> addr \<Rightarrow> kstate \<Rightarrow> kstate comp" where
  "kernel_interrupt dev L r s = irq_handler (kernel_call dev L) L r s"

section \<open>The shell\<close>

text \<open>One turn: prompt, read a line into the buffer, answer it, clear the buffer.\<close>

definition shell_turn :: "(kstate \<Rightarrow> kstate comp) \<Rightarrow> syms \<Rightarrow> addr \<Rightarrow> kstate \<Rightarrow> kstate comp" where
  "shell_turn irq L buffer s =
     bindc (get_kbd irq L buffer (term_writelit ''\<newline>>>>'' s)) (\<lambda>s.
     bindc (lift_comp (strcmp (ram s) buffer (s_literal L ''test''))) (\<lambda>r.
     bindc (if r \<noteq> 0 then ret (term_writelit ''AYYYYYY\<newline>'' s) else lift_comp (term_writestring buffer s)) (\<lambda>s.
       ret (with_ram (mem_set buffer 0 256) s))))"

partial_function (option) shell :: "(kstate \<Rightarrow> kstate comp) \<Rightarrow> syms \<Rightarrow> addr \<Rightarrow> kstate \<Rightarrow> kstate comp" where
  "shell irq L buffer s = bindc (shell_turn irq L buffer s) (\<lambda>s. shell irq L buffer s)"

section \<open>Booting\<close>

definition boot_tables :: "syms \<Rightarrow> kstate \<Rightarrow> kstate" where
  "boot_tables L s =
     (let s = term_init 80 25 COLOR_LIGHT_GREY COLOR_BLACK 0xB8000 s;
          s = term_writelit ''d3 Kernel Booting...\<newline>\<newline>'' s;
          s = term_writelit ''Initializing GDT...'' s;
          s = init_gdt L s;
          s = term_writelit ''[OK]\<newline>'' s;
          s = term_writelit ''Initializing IDT/ISRs...'' s;
          s = init_idt L s
      in term_writelit ''[OK]\<newline>'' s)"

definition boot_memory :: "syms \<Rightarrow> addr \<Rightarrow> kstate \<Rightarrow> kstate comp" where
  "boot_memory L mbd s =
     bindc (init_mm L mbd (term_writelit ''Initializing memory manager...'' s)) (\<lambda>s.
       ret (term_writelit ''[OK]\<newline>'' s))"

definition boot_devices :: "syms \<Rightarrow> kstate \<Rightarrow> kstate option" where
  "boot_devices L s = init_timer L (init_keybd L s)"

definition print_time :: "device \<Rightarrow> syms \<Rightarrow> kstate \<Rightarrow> kstate option" where
  "print_time dev L s = (case get_time dev L s of (t, s) \<Rightarrow> term_writenum L t 10 s)"

text \<open>\<open>cmain\<close> up to its loop; interrupts are enabled before the time is printed.\<close>

definition boot :: "device \<Rightarrow> syms \<Rightarrow> addr \<Rightarrow> kstate \<Rightarrow> kstate comp" where
  "boot dev L mbd s =
     bindc (boot_memory L mbd (boot_tables L s)) (\<lambda>s.
     bindc (lift_comp (boot_devices L s)) (\<lambda>s. lift_comp (print_time dev L s)))"

text \<open>\<open>buffer\<close> is the address of its local array.\<close>

definition cmain :: "device \<Rightarrow> (kstate \<Rightarrow> kstate comp) \<Rightarrow> syms \<Rightarrow> addr \<Rightarrow> addr \<Rightarrow> kstate \<Rightarrow> kstate comp" where
  "cmain dev irq L buffer mbd s = bindc (boot dev L mbd s) (\<lambda>s. shell irq L buffer s)"

end
