(* ===== verification/Kernel_Spec.thy ===== *)
theory Kernel_Spec
  imports Kernel Dasm_Spec
begin

text \<open>
  Properties across components: the interrupts reach the handlers the boot sequence installs, the
  shell answers the line that was typed, control never comes back from the shell, and the dispatch of
  the kernel, ticks and keys in any order, is a source of interrupts the reader can wait on.
\<close>

section \<open>Interrupts after booting\<close>

text \<open>With the handlers that booting installs, vector 32 counts a tick and is
  acknowledged, vector 33 runs the keyboard handler and, when that leaves the saved registers alone, is
  acknowledged, each at the master alone.\<close>

theorem boot_handlers:
  assumes "f_timer_handler L \<noteq> 0" and "f_keyboard_handler L \<noteq> 0" and "f_timer_handler L \<noteq> f_keyboard_handler L"
  shows "\<exists>s'. boot_devices L s = Some s' \<and> uptime s' = 0 \<and> t_hz s' = 100
    \<and> (regs_int_no (ram s') r = 32 \<longrightarrow>
        kernel_interrupt dev L r s' = ret (outb 0x20 0x20 (s'\<lparr>uptime := uptime s' + 1\<rparr>)))
    \<and> (regs_int_no (ram s') r = 33 \<and> regs_int_no (ram (keyboard_handler dev L s')) r = 33 \<longrightarrow>
        kernel_interrupt dev L r s' = ret (outb 0x20 0x20 (keyboard_handler dev L s')))"
proof -
  obtain t where t: "timer_phase 100 ((init_keybd L s)\<lparr>uptime := 0\<rparr>) = Some t" "uptime t = 0" "t_hz t = 100"
    "ram t = ram (init_keybd L s)"
    by (simp add: timer_phase_def Let_def outbs_eq)
  define s' where "s' = with_ram (irq_install_handler L 0 (f_timer_handler L)) t"
  have b: "boot_devices L s = Some s'" by (simp add: boot_devices_def init_timer_def t(1) s'_def)
  have h: "load32 (ram s') (s_irq_routines L) = f_timer_handler L"
    "load32 (ram s') (s_irq_routines L + 4) = f_keyboard_handler L"
    by (simp_all add: s'_def irq_install_handler_def t(4) init_keybd_def mem_simps sep_simps)
  have u: "uptime s' = 0" "t_hz s' = 100" using t by (simp_all add: s'_def)
  then have "timer_handler s' = Some (s'\<lparr>uptime := uptime s' + 1\<rparr>)" by (simp add: timer_handler_def Let_def)
  then have "regs_int_no (ram s') r = 32 \<longrightarrow>
      kernel_interrupt dev L r s' = ret (outb 0x20 0x20 (s'\<lparr>uptime := uptime s' + 1\<rparr>))"
    using h(1) assms by (simp add: kernel_interrupt_def irq_handler_def Let_def kernel_call_def)
  moreover have "regs_int_no (ram s') r = 33 \<and> regs_int_no (ram (keyboard_handler dev L s')) r = 33 \<longrightarrow>
      kernel_interrupt dev L r s' = ret (outb 0x20 0x20 (keyboard_handler dev L s'))"
    using h(2) assms by (simp add: kernel_interrupt_def irq_handler_def Let_def kernel_call_def)
  ultimately show ?thesis using b u by blast
qed

text \<open>The registers of a tick are saved at 0x7000.\<close>

lemma boot_handlers_witness:
  "\<exists>s'. boot_devices sample_syms (sample_state\<lparr>ram := store32 (\<lambda>_. 0) 0x7030 32\<rparr>) = Some s'
    \<and> kernel_interrupt (\<lambda>_ _. 0) sample_syms 0x7000 s' = ret (outb 0x20 0x20 (s'\<lparr>uptime := uptime s' + 1\<rparr>))"
proof -
  let ?s = "sample_state\<lparr>ram := store32 (\<lambda>_. 0) 0x7030 32\<rparr>"
  have "f_timer_handler sample_syms \<noteq> 0" "f_keyboard_handler sample_syms \<noteq> 0"
    "f_timer_handler sample_syms \<noteq> f_keyboard_handler sample_syms" by simp_all
  note b = boot_handlers [OF this, of ?s "0x7000" "\<lambda>_ _. 0"]
  obtain s' where s': "boot_devices sample_syms ?s = Some s'" "regs_int_no (ram s') 0x7000 = 32"
    by (simp add: boot_devices_def init_timer_def timer_phase_def init_keybd_def irq_install_handler_def Let_def outbs_eq
        regs_int_no_def mem_simps sep_simps)
  with b show ?thesis by auto
qed

section \<open>The shell never returns\<close>

lemma shell_no_return: "shell irq L buffer s \<noteq> ret r"
proof
  assume a: "shell irq L buffer s = ret r"
  have "(\<forall>r'. r \<noteq> Inr r')" if "shell irq L buffer s = Some r" for irq L buffer s r
  proof (rule shell.raw_induct [OF _ that])
    fix sh irq L buffer s r
    assume IH: "\<And>irq L buffer s r. sh irq L buffer s = Some r \<Longrightarrow> \<forall>r'. r \<noteq> Inr r'"
      and step: "bindc (shell_turn irq L buffer s) (\<lambda>s. sh irq L buffer s) = Some r"
    show "\<forall>r'. r \<noteq> Inr r'"
      using step IH by (auto simp: bindc_def split: option.splits sum.splits)
  qed
  from this [OF a] show False by simp
qed

lemma cmain_no_return: "cmain dev irq L buffer mbd s \<noteq> ret r"
  using shell_no_return
  by (auto simp: cmain_def bindc_def split: option.splits sum.splits)

section \<open>A turn of the shell\<close>

text \<open>The literal of the comparison is in place and nothing the turn writes overlaps it.\<close>

definition literal_safe :: "syms \<Rightarrow> kstate \<Rightarrow> addr \<Rightarrow> string \<Rightarrow> bool" where
  "literal_safe L s buffer cs \<longleftrightarrow> cstr_at (ram s) (s_literal L cs) (bytes_of cs)
     \<and> off_screen s (s_literal L cs) (Suc (length cs)) \<and> sep (s_kb_buffer L) 256 (s_literal L cs) (Suc (length cs))
     \<and> sep buffer 257 (s_literal L cs) (Suc (length cs))"

context typist
begin

text \<open>
  A turn with any source of interrupts: after the prompt a line is typed into a cleared buffer, and
  what is scratch to the interrupts overlaps neither the buffer nor the literal.
\<close>

lemma answers:
  assumes p: "p = term_writelit ''\<newline>>>>'' s" and line: "line_typed ks cs sh p"
    and chars: "0 \<notin> set cs" and cleared: "ram p (buffer + of_nat (length cs)) = 0"
    and ranges: "unat buffer + 257 \<le> 4294967296" "unat (s_kb_buffer L) + 256 \<le> 4294967296"
    and apart: "sep (s_kb_buffer L) 256 buffer 257" "off_screen p buffer 257" and lit: "literal_safe L p buffer ''test''"
    and scratch: "\<And>x. scratch x \<Longrightarrow> \<not> inreg buffer 257 x \<and> \<not> inreg (s_literal L ''test'') 5 x"
  shows "\<exists>q. shell_turn irq L buffer s =
    ret (with_ram (mem_set buffer 0 256)
      (if cs = bytes_of ''test'' then term_writelit ''AYYYYYY\<newline>'' q else fold term_putchar cs q))
    \<and> kb_view_of L q = \<lparr>kv_line = [], kv_shift = sh, kv_enter = False\<rparr>
    \<and> geometry_ok (tty0 q) \<and> cursor_ok (tty0 q) \<and> q = kb_take L buffer (after (length ks) p)"
proof -
  have n: "length cs < 256" and ok: "kb_ok L p" using line by (simp_all add: line_typed_def)
  obtain q where q: "get_kbd irq L buffer p = ret q"
    "\<forall>i < length cs. ram q (buffer + of_nat i) = cs ! i"
    "ram q (buffer + of_nat (length cs)) = ram (after (length ks) p) (buffer + of_nat (length cs))"
    "kb_view_of L q = \<lparr>kv_line = [], kv_shift = sh, kv_enter = False\<rparr>"
    "same_geometry (tty0 p) (tty0 q)" "cursor_ok (tty0 q)"
    "\<forall>x. in_frame (tty0 p) x \<or> inreg (s_kb_buffer L) 256 x \<or> inreg buffer 257 x \<or> scratch x \<or> ram q x = ram p x"
    "q = kb_take L buffer (after (length ks) p)"
    using line_read [OF line ranges apart(1)] by blast
  have b: "inreg buffer 257 (buffer + of_nat (length cs))"
    using n by (simp add: inreg_def unat_of_nat take_bit_nat_eq_self)
  note off = off_screenD [OF apart(2) b] sep_notin [OF apart(1) b]
  have "ram (after (length ks) p) (buffer + of_nat (length cs)) = 0"
    using line_after [OF line, of "buffer + of_nat (length cs)"] off cleared scratch b by auto
  then have buf: "cstr_at (ram q) buffer cs" using q(2,3) chars by (simp add: cstr_at_nth)
  let ?t = "s_literal L ''test''" and ?n = "Suc (length ''test'')"
  have l: "cstr_at (ram p) ?t (bytes_of ''test'')" "off_screen p ?t ?n" "sep (s_kb_buffer L) 256 ?t ?n" "sep buffer 257 ?t ?n"
    using lit unfolding literal_safe_def by blast+
  have keep: "ram q x = ram p x" if "inreg ?t ?n x" for x
  proof -
    have "\<not> scratch x" using that scratch [of x] by (auto simp: numeral_eq_Suc)
    then show ?thesis
      using q(7) off_screenD [OF l(2) that] sep_notin [OF l(3) that] sep_notin [OF l(4) that] by metis
  qed
  have "cstr_at (ram q) ?t (bytes_of ''test'')"
    by (rule cstr_at_frame [OF l(1)], rule keep) (simp only: length_map)
  from strcmp_cstr [OF buf this]
  have cmp: "strcmp (ram q) buffer (s_literal L ''test'') = Some (if cs = bytes_of ''test'' then 1 else 0)" .
  have geo: "geometry_ok (tty0 q)" using same_geometry_ok [OF q(5)] ok by (simp add: kb_ok_def)
  have "\<not> in_frame (tty0 q) x" if "inreg buffer (Suc (length cs)) x" for x
    using off_screenD [OF apart(2) inreg_mono [OF that]] n same_geometry_frame [OF q(5)] by simp
  then have "term_writestring buffer q = Some (fold term_putchar cs q)"
    using buf n q(6) geo by (intro term_writestring_fold) simp_all
  then show ?thesis
    using q(1,4,6,8) cmp p geo by (intro exI [of _ q]) (simp add: shell_turn_def)
qed

end

text \<open>C16. When, after the prompt, a line is typed into a cleared buffer, the shell answers
  AYYYYYY to the line ''test'' and prints any other line back, then clears the buffer.\<close>

theorem shell_answers:
  assumes p: "p = term_writelit ''\<newline>>>>'' s" and ok: "kb_ok L p" and room: "length cs < 256"
    and keys: "\<forall>k < length ks. dev (io (typed dev L k p)) 0x60 = ks ! k"
    and ends: "fold kb_step ks (kb_view_of L p) = \<lparr>kv_line = cs @ [c], kv_shift = sh, kv_enter = True\<rparr>"
    and first: "\<forall>k < length ks. \<not> kv_enter (fold kb_step (take k ks) (kb_view_of L p))"
    and chars: "0 \<notin> set cs" and cleared: "ram p (buffer + of_nat (length cs)) = 0"
    and ranges: "unat buffer + 257 \<le> 4294967296" "unat (s_kb_buffer L) + 256 \<le> 4294967296"
    and apart: "sep (s_kb_buffer L) 256 buffer 257" "off_screen p buffer 257" and lit: "literal_safe L p buffer ''test''"
  shows "\<exists>q. shell_turn (\<lambda>s. ret (keyboard_handler dev L s)) L buffer s =
    ret (with_ram (mem_set buffer 0 256)
      (if cs = bytes_of ''test'' then term_writelit ''AYYYYYY\<newline>'' q else fold term_putchar cs q))
    \<and> kb_view_of L q = \<lparr>kv_line = [], kv_shift = sh, kv_enter = False\<rparr>"
proof -
  have "kb.line_typed L dev ks cs sh p" using ok room keys ends first by (auto simp: kb.line_typed_def)
  from kb.answers [OF p this chars cleared ranges apart lit] show ?thesis by blast
qed

section \<open>The dispatch as a source of interrupts\<close>

text \<open>
  What happens before \<open>irq_handler\<close> gets control: the processor and the stub leave the registers at \<open>r\<close>,
  the number of the vector among them. \<open>save s\<close> is the memory then; which vector comes next is up to
  the machine, as long as it is the clock's or the keyboard's.
\<close>

definition saves_regs :: "addr \<Rightarrow> (kstate \<Rightarrow> mem) \<Rightarrow> bool" where
  "saves_regs r save \<longleftrightarrow> (\<forall>s. (regs_int_no (save s) r = 32 \<or> regs_int_no (save s) r = 33)
     \<and> (\<forall>x. inreg r 76 x \<or> save s x = ram s x))"

definition hw_irq :: "device \<Rightarrow> syms \<Rightarrow> addr \<Rightarrow> (kstate \<Rightarrow> mem) \<Rightarrow> kstate \<Rightarrow> kstate comp" where
  "hw_irq dev L r save s = kernel_interrupt dev L r (s\<lparr>ram := save s\<rparr>)"

text \<open>Its effect, and the scan code it delivers.\<close>

definition hw_step :: "device \<Rightarrow> syms \<Rightarrow> addr \<Rightarrow> (kstate \<Rightarrow> mem) \<Rightarrow> kstate \<Rightarrow> kstate" where
  "hw_step dev L r save s = outb 0x20 0x20
     (if regs_int_no (save s) r = 32 then s\<lparr>ram := save s\<rparr>\<lparr>uptime := uptime s + 1\<rparr>
      else keyboard_handler dev L (s\<lparr>ram := save s\<rparr>))"

definition hw_code :: "device \<Rightarrow> addr \<Rightarrow> (kstate \<Rightarrow> mem) \<Rightarrow> kstate \<Rightarrow> byte" where
  "hw_code dev r save s = (if regs_int_no (save s) r = 32 then 0 else dev (io s) 0x60)"

text \<open>The handlers are installed, and the registers are saved off the screen, the table and the line.\<close>

definition handlers_in :: "syms \<Rightarrow> kstate \<Rightarrow> bool" where
  "handlers_in L s \<longleftrightarrow> load32 (ram s) (s_irq_routines L) = f_timer_handler L
     \<and> load32 (ram s) (s_irq_routines L + 4) = f_keyboard_handler L \<and> t_hz s = 100
     \<and> f_timer_handler L \<noteq> 0 \<and> f_keyboard_handler L \<noteq> 0 \<and> f_timer_handler L \<noteq> f_keyboard_handler L"

definition hw_ready :: "syms \<Rightarrow> addr \<Rightarrow> (kstate \<Rightarrow> mem) \<Rightarrow> kstate \<Rightarrow> bool" where
  "hw_ready L r save s \<longleftrightarrow> saves_regs r save \<and> handlers_in L s
     \<and> off_screen s r 76 \<and> off_screen s (s_irq_routines L) 8 \<and> sep (s_kb_buffer L) 256 r 76
     \<and> sep (s_kb_buffer L) 256 (s_irq_routines L) 8 \<and> sep r 76 (s_irq_routines L) 8"

lemma handlers_local:
  assumes "handlers_in L s" and "\<And>x. inreg (s_irq_routines L) 8 x \<Longrightarrow> ram s' x = ram s x" and "t_hz s' = t_hz s"
  shows "handlers_in L s'"
proof -
  have "load32 (ram s') (s_irq_routines L) = load32 (ram s) (s_irq_routines L)"
    by (rule c32.ld_local, rule assms(2), erule inreg_mono) simp
  moreover have "load32 (ram s') (s_irq_routines L + 4) = load32 (ram s) (s_irq_routines L + 4)"
    by (rule c32.ld_local, rule assms(2), erule inreg_sub) simp
  ultimately show ?thesis using assms(1,3) by (simp add: handlers_in_def)
qed

lemma handler_t_hz:
  assumes "kb_ok L s"
  shows "t_hz (keyboard_handler dev L s) = t_hz s"
proof -
  have "t_hz (term_putchar c (s\<lparr>io := l\<rparr>)) = t_hz s" for c l
    using tp.put_frame [of "s\<lparr>io := l\<rparr>" c] assms by (simp add: kb_ok_def term_frame_def rest_def)
  then show ?thesis by (auto simp: handler_cases kb_add_def Let_def)
qed

lemma hw_saved:
  fixes save
  assumes "kb_ok L s" and "hw_ready L r save s"
  defines "s1 \<equiv> s\<lparr>ram := save s\<rparr>"
  shows "kb_ok L s1" "kb_view_of L s1 = kb_view_of L s" "handlers_in L s1"
    and "\<And>x. inreg r 76 x \<or> ram s1 x = ram s x"
proof -
  show o: "inreg r 76 x \<or> ram s1 x = ram s x" for x
    using assms(2) by (auto simp: hw_ready_def saves_regs_def s1_def)
  show "kb_ok L s1" using assms(1) by (simp add: kb_ok_def s1_def)
  have "ram s1 (s_kb_buffer L + of_nat i) = ram s (s_kb_buffer L + of_nat i)" if "i < unat (kb_i s)" for i
  proof -
    have "inreg (s_kb_buffer L) 256 (s_kb_buffer L + of_nat i)"
      using that assms(1) by (intro in_buffer) (simp add: kb_ok_def)
    moreover have "sep (s_kb_buffer L) 256 r 76" using assms(2) by (simp add: hw_ready_def)
    ultimately show ?thesis using o sep_notin by metis
  qed
  then show "kb_view_of L s1 = kb_view_of L s" by (simp add: kb_view_of_def s1_def)
  show "handlers_in L s1"
  proof (rule handlers_local)
    show "handlers_in L s" using assms(2) by (simp add: hw_ready_def)
    have "sep r 76 (s_irq_routines L) 8" using assms(2) by (simp add: hw_ready_def)
    then show "ram s1 x = ram s x" if "inreg (s_irq_routines L) 8 x" for x using o that sep_notin by metis
  qed (simp add: s1_def)
qed

text \<open>The handler runs with the saved registers out of its reach.\<close>

lemma hw_kept:
  assumes "kb_ok L s" and "hw_ready L r save s"
  shows "\<And>x. inreg r 76 x \<or> inreg (s_irq_routines L) 8 x \<Longrightarrow>
      ram (keyboard_handler dev L (s\<lparr>ram := save s\<rparr>)) x = save s x"
proof -
  note sv = hw_saved [OF assms]
  fix x
  assume x: "inreg r 76 x \<or> inreg (s_irq_routines L) 8 x"
  have "\<not> in_frame (tty0 s) x" "\<not> inreg (s_kb_buffer L) 256 x"
    using assms(2) x off_screenD sep_notin by (auto simp: hw_ready_def)
  then show "ram (keyboard_handler dev L (s\<lparr>ram := save s\<rparr>)) x = save s x"
    using handler_frame(2) [OF sv(1), of x dev] by simp
qed

lemma hw_runs:
  assumes "kb_ok L s" and "hw_ready L r save s"
  shows "hw_irq dev L r save s = ret (hw_step dev L r save s)"
proof -
  note sv = hw_saved [OF assms]
  let ?s1 = "s\<lparr>ram := save s\<rparr>"
  have h: "load32 (save s) (s_irq_routines L) = f_timer_handler L" "load32 (save s) (s_irq_routines L + 4) = f_keyboard_handler L"
    "t_hz s = 100" "f_timer_handler L \<noteq> 0" "f_keyboard_handler L \<noteq> 0" "f_timer_handler L \<noteq> f_keyboard_handler L"
    using sv(3) by (simp_all add: handlers_in_def)
  have tick: "timer_handler ?s1 = Some (?s1\<lparr>uptime := uptime s + 1\<rparr>)"
    using h(3) by (simp add: timer_handler_def Let_def)
  have "regs_int_no (save s) r = 32 \<or> regs_int_no (save s) r = 33"
    using assms(2) by (simp add: hw_ready_def saves_regs_def)
  then show ?thesis
  proof
    assume "regs_int_no (save s) r = 32"
    then show ?thesis
      using h tick by (simp add: hw_irq_def hw_step_def kernel_interrupt_def irq_handler_def Let_def kernel_call_def)
  next
    assume v: "regs_int_no (save s) r = 33"
    have "regs_int_no (ram (keyboard_handler dev L ?s1)) r = regs_int_no (save s) r"
      unfolding regs_int_no_def
      by (rule c32.ld_local, rule hw_kept [OF assms], rule disjI1, erule inreg_sub) simp
    then show ?thesis
      using h v by (simp add: hw_irq_def hw_step_def kernel_interrupt_def irq_handler_def Let_def kernel_call_def)
  qed
qed

interpretation hw: typist L "hw_irq dev L r save" "hw_step dev L r save" "hw_code dev r save"
    "hw_ready L r save" "inreg r 76" for L dev r save
proof
  fix s
  assume ok: "kb_ok L s" and ready: "hw_ready L r save s"
  note sv = hw_saved [OF ok ready]
  let ?s1 = "s\<lparr>ram := save s\<rparr>" and ?t = "hw_step dev L r save s"
  let ?k = "keyboard_handler dev L ?s1"
  have z: "kb_step 0 v = v" for v by (simp add: kb_step_def kb_printable_def kbdus_def)
  have views: "kb_view_of L (outb p v s) = kb_view_of L s" "kb_view_of L (s\<lparr>uptime := n\<rparr>) = kb_view_of L s" for p v n s
    by (simp_all add: kb_view_of_def outb_def)
  have same: "same_geometry u u" for u by (simp add: same_geometry_def)
  show "hw_irq dev L r save s = ret ?t" by (rule hw_runs [OF ok ready])
  show "kb_view_of L ?t = kb_step (hw_code dev r save s) (kb_view_of L s)"
    using handler_view [OF sv(1), of dev] sv(2) by (simp add: hw_step_def hw_code_def z views)
  show "cursor_ok (tty0 ?t) \<and> unat (kb_i ?t) \<le> Suc (unat (kb_i s))"
    using handler_ok [OF sv(1), of dev] ok by (simp add: hw_step_def outb_def kb_ok_def)
  show geo: "same_geometry (tty0 s) (tty0 ?t)"
    using handler_frame(1) [OF sv(1), of dev] same by (simp add: hw_step_def outb_def)
  show fr: "ram ?t x = ram s x" if "\<not> in_frame (tty0 s) x" "\<not> inreg (s_kb_buffer L) 256 x" "\<not> inreg r 76 x" for x
    using handler_frame(2) [OF sv(1), of x dev] sv(4) [of x] that by (auto simp: hw_step_def outb_def)
  have irq: "ram ?t x = ram s x" if x: "inreg (s_irq_routines L) 8 x" for x
  proof -
    have "\<not> in_frame (tty0 s) x" "\<not> inreg (s_kb_buffer L) 256 x" "\<not> inreg r 76 x"
      using ready x off_screenD sep_notin by (auto simp: hw_ready_def)
    then show ?thesis by (rule fr)
  qed
  have "t_hz ?t = t_hz s" using handler_t_hz [OF sv(1), of dev] by (simp add: hw_step_def outb_def)
  then have "handlers_in L ?t" using handlers_local [OF _ irq] ready by (simp add: hw_ready_def)
  moreover have "off_screen ?t a n = off_screen s a n" for a n
    using geo by (simp add: off_screen_def same_geometry_def frame_bytes_def)
  ultimately show "hw_ready L r save ?t" using ready by (simp add: hw_ready_def)
qed

text \<open>Somebody types ''test'' and Enter at a kernel whose literals are in memory.\<close>

definition test_keys :: "byte list" where
  "test_keys = [0x14, 0x12, 0x1F, 0x14, 0x1C]"

definition test_device :: device where
  "test_device es p = test_keys ! reads es"

lemma fold_putchar_reads: "reads (io (fold term_putchar cs s)) = reads (io s)"
  by (induction cs arbitrary: s) simp_all

lemma reads_writelit [simp]: "reads (io (term_writelit cs s)) = reads (io s)"
  unfolding term_writelit_def by (rule fold_putchar_reads)

lemma shell_answers_witness:
  "\<exists>q. shell_turn (\<lambda>s. ret (keyboard_handler test_device sample_syms s)) sample_syms 0x200000
      (sample_state\<lparr>ram := sample_rodata\<rparr>) =
    ret (with_ram (mem_set 0x200000 0 256) (term_writelit ''AYYYYYY\<newline>'' q))"
proof -
  let ?s = "sample_state\<lparr>ram := sample_rodata\<rparr>"
  define p where "p = term_writelit ''\<newline>>>>'' ?s"
  have g: "geometry_ok (tty0 ?s)" "cursor_ok (tty0 ?s)" using sample_screen by simp_all
  have f: "term_frame ?s p" "cursor_ok (tty0 p)" using writelit_frame [OF g] by (simp_all add: p_def)
  then have t: "t_buffer (tty0 p) = 0xB8000" "frame_bytes (tty0 p) = 4000" "geometry_ok (tty0 p)"
    using term_frame_geometry [OF f(1) g(1)] by (simp_all add: term_frame_def same_geometry_def frame_bytes_def)
  have k: "kb_i p = 0" "kb_shifted p = 0" "kb_buffer_pending p = 0"
    using f(1) by (simp_all add: term_frame_def rest_def sample_state_def)
  have view: "kb_view_of sample_syms p = \<lparr>kv_line = [], kv_shift = False, kv_enter = False\<rparr>"
    by (simp add: kb_view_of_def k)
  have ok: "kb_ok sample_syms p" using t f(2) k by (simp add: kb_ok_def sep_simps)
  have keep: "ram p x = sample_rodata x" if "sep 0xB8000 4000 x 1" for x
    using f(1) inreg_sep [of 4000 "0xB8000" x] that by (simp add: term_frame_def in_frame_def frame_bytes_def)
  have r: "reads (io p) = 0" by (simp add: p_def)
  have keys: "\<forall>k < length test_keys. test_device (io (typed test_device sample_syms k p)) 0x60 = test_keys ! k"
    by (simp add: test_device_def reads_typed r)
  have st: "kb_step 0x14 v = v\<lparr>kv_line := kv_line v @ [if kv_shift v then 84 else 116]\<rparr>"
    "kb_step 0x12 v = v\<lparr>kv_line := kv_line v @ [if kv_shift v then 69 else 101]\<rparr>"
    "kb_step 0x1F v = v\<lparr>kv_line := kv_line v @ [if kv_shift v then 83 else 115]\<rparr>"
    "kb_step 0x1C v = v\<lparr>kv_line := kv_line v @ [10], kv_enter := True\<rparr>" for v
    by (simp_all add: kb_step_def kb_printable_def kb_char_def kbdus_def kbdus_shifted_def)
  let ?cs = "[116, 101, 115, 116] :: byte list"
  have ends: "fold kb_step test_keys (kb_view_of sample_syms p) = \<lparr>kv_line = ?cs @ [10], kv_shift = False, kv_enter = True\<rparr>"
    by (simp add: view test_keys_def st)
  have first: "\<forall>k < length test_keys. \<not> kv_enter (fold kb_step (take k test_keys) (kb_view_of sample_syms p))"
    by (simp add: view test_keys_def st All_less_Suc numeral_eq_Suc)
  have lit: "sample_literal ''test'' = 0x107380" by (simp add: sample_literal_def sample_literals_def)
  have "cstr_at sample_rodata 0x107380 (bytes_of ''test'')"
    by (simp add: sample_rodata_def sample_literals_def Let_def)
  then have "cstr_at (ram p) 0x107380 (bytes_of ''test'')"
    by (simp add: keep sep_simps)
  then have safe: "literal_safe sample_syms p 0x200000 ''test''"
    by (simp add: literal_safe_def lit off_screen_def t sep_simps)
  have "ram p 0x200004 = 0"
    using keep [of "0x200004"] by (simp add: sep_simps sample_rodata_def sample_literals_def Let_def)
  then have z: "ram p (0x200000 + of_nat (length ?cs)) = 0" by simp
  have "?cs = bytes_of ''test''" by simp
  moreover have "\<exists>q. shell_turn (\<lambda>s. ret (keyboard_handler test_device sample_syms s)) sample_syms 0x200000 ?s =
    ret (with_ram (mem_set 0x200000 0 256)
      (if ?cs = bytes_of ''test'' then term_writelit ''AYYYYYY\<newline>'' q else fold term_putchar ?cs q))
    \<and> kb_view_of sample_syms q = \<lparr>kv_line = [], kv_shift = False, kv_enter = False\<rparr>"
    by (rule shell_answers [OF p_def ok _ keys ends first _ z _ _ _ _ safe])
      (simp_all add: k test_keys_def sep_simps off_screen_def t)
  ultimately show ?thesis by auto
qed

end
