(* ===== verification/Boot_Spec.thy ===== *)
theory Boot_Spec
  imports Mem_History Kernel_Spec
begin

text \<open>
  The boot sequence as a whole: from a memory map and a layout without overlaps \<open>cmain\<close> gets to the
  shell, with the tables, the handlers and the block lists in place, and the allocator works from there on.
\<close>

section \<open>Regions\<close>

type_synonym region = "addr \<times> nat"

definition within :: "region \<Rightarrow> addr \<Rightarrow> bool" where
  "within r x \<longleftrightarrow> inreg (fst r) (snd r) x"

fun apart_list :: "region list \<Rightarrow> bool" where
  "apart_list [] = True"
| "apart_list (r # rs) \<longleftrightarrow> (\<forall>q \<in> set rs. sep (fst r) (snd r) (fst q) (snd q)) \<and> apart_list rs"

lemma apart_sep: "apart_list rs \<Longrightarrow> i < j \<Longrightarrow> j < length rs \<Longrightarrow> sep (fst (rs ! i)) (snd (rs ! i)) (fst (rs ! j)) (snd (rs ! j))"
proof (induction rs arbitrary: i j)
  case (Cons r rs)
  then obtain k where k: "j = Suc k" "k < length rs" by (cases j) auto
  show ?case using Cons k by (cases i) auto
qed simp

lemma apart_within:
  assumes "apart_list rs" and "i < length rs" and "j < length rs" and "i \<noteq> j" and "within (rs ! i) x"
  shows "\<not> within (rs ! j) x"
proof (cases "i < j")
  case True
  from apart_sep [OF assms(1) True assms(3)] show ?thesis
    using assms(5) sep_sym sep_notin unfolding within_def by blast
next
  case False
  then have "j < i" using assms(4) by simp
  from apart_sep [OF assms(1) this assms(2)] show ?thesis
    using assms(5) sep_notin unfolding within_def by blast
qed

text \<open>Between the memories only the regions with these numbers have changed.\<close>

definition writes :: "region list \<Rightarrow> nat set \<Rightarrow> mem \<Rightarrow> mem \<Rightarrow> bool" where
  "writes rs I m m' \<longleftrightarrow> (\<forall>x. (\<forall>i \<in> I. \<not> within (rs ! i) x) \<longrightarrow> m' x = m x)"

lemma writes_trans: "writes rs I m m' \<Longrightarrow> writes rs J m' m'' \<Longrightarrow> I \<subseteq> K \<Longrightarrow> J \<subseteq> K \<Longrightarrow> writes rs K m m''"
  unfolding writes_def by (metis subsetD)

lemma writes_kept:
  "writes rs I m m' \<Longrightarrow> apart_list rs \<Longrightarrow> I \<subseteq> {..<length rs} \<Longrightarrow> j < length rs \<Longrightarrow> j \<notin> I \<Longrightarrow> within (rs ! j) x \<Longrightarrow> m' x = m x"
  unfolding writes_def using apart_within by blast

lemma writes_read:
  "writes rs I m m' \<Longrightarrow> I \<subseteq> {..<length rs} \<Longrightarrow> \<forall>r \<in> set rs. sep (fst r) (snd r) a n \<Longrightarrow> inreg a n x \<Longrightarrow> m' x = m x"
  unfolding writes_def within_def using sep_notin nth_mem by blast

text \<open>What booting writes; \<open>t\<close> is the node of the test block of \<open>init_mm\<close>.\<close>

definition boot_writes :: "syms \<Rightarrow> addr \<Rightarrow> region list" where
  "boot_writes L t =
     [(0xB8000, 4000), (s_gp L, 6), (s_gdt L, 24), (s_idtp L, 6), (s_idt L, 2048),
      (s_mb_free L, 132), (s_used L, 132), (s_mm_free L, 16), (s_mm_used L, 16), (t, 16), (0, 16),
      (s_irq_routines L, 64), (s_itoa_buf L + 1, 65), (s_zero L, 2)]"

lemma boot_writes_length [simp]: "length (boot_writes L t) = 14"
  by (simp add: boot_writes_def)

lemma boot_writes_nth:
  "boot_writes L t ! 0 = (0xB8000, 4000)" "boot_writes L t ! Suc 0 = (s_gp L, 6)" "boot_writes L t ! 2 = (s_gdt L, 24)"
  "boot_writes L t ! 3 = (s_idtp L, 6)" "boot_writes L t ! 4 = (s_idt L, 2048)" "boot_writes L t ! 5 = (s_mb_free L, 132)"
  "boot_writes L t ! 6 = (s_used L, 132)" "boot_writes L t ! 7 = (s_mm_free L, 16)" "boot_writes L t ! 8 = (s_mm_used L, 16)"
  "boot_writes L t ! 9 = (t, 16)" "boot_writes L t ! 10 = (0, 16)" "boot_writes L t ! 11 = (s_irq_routines L, 64)"
  "boot_writes L t ! 12 = (s_itoa_buf L + 1, 65)" "boot_writes L t ! 13 = (s_zero L, 2)"
  by (simp_all add: boot_writes_def)

section \<open>The tables of the processor\<close>

definition flat_tables :: "syms \<Rightarrow> mem \<Rightarrow> bool" where
  "flat_tables L m \<longleftrightarrow> desc_access m (s_gdt L) = 0
     \<and> desc_base m (s_gdt L + 8) = 0 \<and> desc_last m (s_gdt L + 8) = 0xFFFFFFFF \<and> desc_access m (s_gdt L + 8) = 0x9A
     \<and> desc_base m (s_gdt L + 16) = 0 \<and> desc_last m (s_gdt L + 16) = 0xFFFFFFFF \<and> desc_access m (s_gdt L + 16) = 0x92"

definition gates_ok :: "syms \<Rightarrow> mem \<Rightarrow> bool" where
  "gates_ok L m \<longleftrightarrow> (\<forall>k < 32. gate_is m L k (f_isr L k)) \<and> (\<forall>k < 16. gate_is m L (32 + k) (f_irq L k))
     \<and> (\<forall>k < 208. \<not> gate_present m (s_idt L + of_nat (8 * (48 + k))))"

lemma flat_local:
  assumes "\<And>x. inreg (s_gdt L) 24 x \<Longrightarrow> m' x = m x" and "flat_tables L m"
  shows "flat_tables L m'"
proof -
  have d: "desc_base m' (s_gdt L + k) = desc_base m (s_gdt L + k)" "desc_limit m' (s_gdt L + k) = desc_limit m (s_gdt L + k)"
    "desc_flags m' (s_gdt L + k) = desc_flags m (s_gdt L + k)" "desc_access m' (s_gdt L + k) = desc_access m (s_gdt L + k)"
    if "unat k + 8 \<le> 24" for k
    by (rule desc_local, rule assms(1), erule inreg_sub, rule that)+
  have "desc_last m' (s_gdt L + k) = desc_last m (s_gdt L + k)" if "unat k + 8 \<le> 24" for k
    using d [OF that] by (simp add: desc_last_def)
  from this [of 8] this [of 16] d [of 0] d [of 8] d [of 16] assms(2) show ?thesis by (simp add: flat_tables_def)
qed

lemma gates_local:
  assumes "\<And>x. inreg (s_idt L) 2048 x \<Longrightarrow> m' x = m x" and "gates_ok L m"
  shows "gates_ok L m'"
proof -
  have g: "gate_offset m' p = gate_offset m p" "gate_selector m' p = gate_selector m p"
    "gate_flags m' p = gate_flags m p" "load8 m' (p + 4) = load8 m (p + 4)"
    if "k < 256" "p = s_idt L + of_nat (8 * k)" for k p
    by (rule gate_local, rule assms(1), use entry_in_table that in blast)+
  have "gate_is m' L k f = gate_is m L k f" if "k < 256" for k f
    using g [OF that refl] by (simp add: gate_is_def Let_def)
  moreover have "gate_present m' (s_idt L + of_nat (8 * (48 + k))) = gate_present m (s_idt L + of_nat (8 * (48 + k)))" if "k < 208" for k
    using g(3) [of "48 + k"] that by (simp add: gate_present_def)
  ultimately show ?thesis using assms(2) by (simp add: gates_ok_def)
qed

section \<open>The first part: screen and tables\<close>

definition screen_up :: "kstate \<Rightarrow> bool" where
  "screen_up s \<longleftrightarrow> geometry_ok (tty0 s) \<and> cursor_ok (tty0 s) \<and> t_buffer (tty0 s) = 0xB8000 \<and> frame_bytes (tty0 s) = 4000
     \<and> t_width (tty0 s) = 80 \<and> t_height (tty0 s) = 25 \<and> t_color (tty0 s) = 7"

text \<open>What the keyboard driver keeps in globals; booting leaves it alone.\<close>

definition keys_of :: "kstate \<Rightarrow> cint \<times> cint \<times> cint" where
  "keys_of s = (kb_i s, kb_shifted s, kb_buffer_pending s)"

lemma keys_rest: "rest s' = rest s \<Longrightarrow> keys_of s' = keys_of s"
  by (simp add: rest_def keys_of_def)

text \<open>A step that prints: only the screen changes.\<close>

definition screen_step :: "syms \<Rightarrow> addr \<Rightarrow> kstate \<Rightarrow> kstate \<Rightarrow> bool" where
  "screen_step L t s s' \<longleftrightarrow> screen_up s' \<and> rest s' = rest s \<and> writes (boot_writes L t) {0} (ram s) (ram s')"

lemma frame_screen_step:
  assumes "term_frame s s'" and "cursor_ok (tty0 s')" and "geometry_ok (tty0 s)" "t_buffer (tty0 s) = 0xB8000" "frame_bytes (tty0 s) = 4000"
    and "t_width (tty0 s) = 80" "t_height (tty0 s) = 25" "t_color (tty0 s) = 7"
  shows "screen_step L t s s'"
proof -
  have "frame_bytes (tty0 s') = frame_bytes (tty0 s)" "t_buffer (tty0 s') = t_buffer (tty0 s)"
    using assms(1) by (simp_all add: term_frame_def same_geometry_def frame_bytes_def)
  moreover have "t_width (tty0 s') = 80" "t_height (tty0 s') = 25" "t_color (tty0 s') = 7"
    using assms(1,6-8) by (simp_all add: term_frame_def same_geometry_def)
  moreover have "ram s' x = ram s x" if "\<not> inreg 0xB8000 4000 x" for x
    using assms(1,4,5) that by (simp add: term_frame_def in_frame_def)
  ultimately show ?thesis
    using assms term_frame_geometry [OF assms(1)]
    by (simp add: screen_step_def screen_up_def term_frame_def writes_def within_def boot_writes_nth)
qed

lemma lit_step: "screen_up s \<Longrightarrow> screen_step L t s (term_writelit cs s)"
  using writelit_frame [of s cs] by (intro frame_screen_step) (auto simp: screen_up_def)

lemma init_step:
  "screen_up (term_init 80 25 COLOR_LIGHT_GREY COLOR_BLACK 0xB8000 s)
    \<and> rest (term_init 80 25 COLOR_LIGHT_GREY COLOR_BLACK 0xB8000 s) = rest s
    \<and> writes (boot_writes L t) {0} (ram s) (ram (term_init 80 25 COLOR_LIGHT_GREY COLOR_BLACK 0xB8000 s))"
proof -
  let ?s = "s\<lparr>tty0 := \<lparr>t_width = 80, t_height = 25, t_color = make_color COLOR_LIGHT_GREY COLOR_BLACK, xpos = 0, ypos = 0, t_buffer = 0xB8000\<rparr>\<rparr>"
  have g: "geometry_ok (tty0 ?s)" "cursor_ok (tty0 ?s)" "frame_bytes (tty0 ?s) = 4000"
    by (simp_all add: geometry_ok_def cursor_ok_def frame_bytes_def)
  have "screen_step L t ?s (term_init 80 25 COLOR_LIGHT_GREY COLOR_BLACK 0xB8000 s)"
    using frame_clear_from [OF g(1), of 32 0] g by (intro frame_screen_step) (simp_all add: term_init_def term_clear_def make_color_def)
  then show ?thesis by (simp add: screen_step_def)
qed

text \<open>The layout: nothing that booting writes overlaps, and all of it is apart from the boot information.\<close>

definition boot_layout :: "syms \<Rightarrow> addr \<Rightarrow> addr list \<Rightarrow> addr \<Rightarrow> bool" where
  "boot_layout L mbd as t \<longleftrightarrow> apart_list (boot_writes L t)
     \<and> (\<forall>r \<in> set (boot_writes L t). sep (fst r) (snd r) mbd 52)
     \<and> (\<forall>e \<in> set as. \<forall>r \<in> set (boot_writes L t). sep (fst r) (snd r) e 24)"

definition tables_loaded :: "syms \<Rightarrow> kstate \<Rightarrow> bool" where
  "tables_loaded L s \<longleftrightarrow> gdtr s = (23, s_gdt L) \<and> code_seg s = 8 \<and> data_seg s = 16 \<and> flat_tables L (ram s)
     \<and> idtr s = (2047, s_idt L) \<and> gates_ok L (ram s)"

lemma writes_flat:
  assumes "writes (boot_writes L t) I (ram s) (ram s')" and "apart_list (boot_writes L t)" and "I \<subseteq> {..<14}" and "2 \<notin> I"
    and "flat_tables L (ram s)"
  shows "flat_tables L (ram s')"
  by (rule flat_local [OF _ assms(5)])
    (rule writes_kept [OF assms(1,2), of 2], use assms(3,4) in \<open>simp_all add: within_def boot_writes_nth\<close>)

lemma writes_gates:
  assumes "writes (boot_writes L t) I (ram s) (ram s')" and "apart_list (boot_writes L t)" and "I \<subseteq> {..<14}" and "4 \<notin> I"
    and "gates_ok L (ram s)"
  shows "gates_ok L (ram s')"
  by (rule gates_local [OF _ assms(5)])
    (rule writes_kept [OF assms(1,2), of 4], use assms(3,4) in \<open>simp_all add: within_def boot_writes_nth\<close>)

lemma rest_fields:
  "rest s' = rest s \<Longrightarrow> gdtr s' = gdtr s \<and> idtr s' = idtr s \<and> code_seg s' = code_seg s \<and> data_seg s' = data_seg s
    \<and> uptime s' = uptime s \<and> t_hz s' = t_hz s"
  by (simp add: rest_def)

lemma tables_kept:
  assumes "tables_loaded L s" and "rest s' = rest s"
    and "writes (boot_writes L t) I (ram s) (ram s')" and "apart_list (boot_writes L t)" and "I \<subseteq> {..<14}" and "2 \<notin> I" "4 \<notin> I"
  shows "tables_loaded L s'"
  using assms(1) rest_fields [OF assms(2)] writes_flat [OF assms(3-5,6)] writes_gates [OF assms(3-5,7)]
  by (simp add: tables_loaded_def)

lemma init_gdt_segments: "tty0 (init_gdt L s) = tty0 s" "code_seg (init_gdt L s) = 8" "data_seg (init_gdt L s) = 16"
  by (subst init_gdt_state, simp)+

lemma gdt_step:
  assumes "apart_list (boot_writes L t)"
  shows "flat_tables L (ram (init_gdt L s)) \<and> gdtr (init_gdt L s) = (23, s_gdt L)
    \<and> writes (boot_writes L t) {1, 2} (ram s) (ram (init_gdt L s))"
proof -
  have "sep (s_gp L) 6 (s_gdt L) 24" using apart_sep [OF assms, of 1 2] by (simp add: boot_writes_nth)
  from gdt_installed [OF this, of s] show ?thesis
    using init_gdt_segments [of L s] init_gdt_outside [of L _ s]
    by (simp add: flat_tables_def writes_def within_def boot_writes_nth)
qed

lemma idt_step:
  assumes "apart_list (boot_writes L t)"
  shows "gates_ok L (ram (init_idt L s)) \<and> idtr (init_idt L s) = (2047, s_idt L)
    \<and> writes (boot_writes L t) {3, 4} (ram s) (ram (init_idt L s))"
proof -
  have "sep (s_idtp L) 6 (s_idt L) 2048" using apart_sep [OF assms, of 3 4] by (simp add: boot_writes_nth)
  from idt_installed [OF this, of s] show ?thesis
    using init_idt_outside [of L _ s]
    by (simp add: gates_ok_def writes_def within_def boot_writes_nth)
qed

lemma boot_tables_done:
  assumes "apart_list (boot_writes L t)"
  shows "screen_up (boot_tables L s) \<and> tables_loaded L (boot_tables L s)
    \<and> writes (boot_writes L t) {0, 1, 2, 3, 4} (ram s) (ram (boot_tables L s)) \<and> keys_of (boot_tables L s) = keys_of s"
proof -
  let ?W = "writes (boot_writes L t)"
  define a where "a = term_init 80 25 COLOR_LIGHT_GREY COLOR_BLACK 0xB8000 s"
  define b where "b = term_writelit ''Initializing GDT...'' (term_writelit ''d3 Kernel Booting...\<newline>\<newline>'' a)"
  define c where "c = init_gdt L b"
  define d where "d = term_writelit ''Initializing IDT/ISRs...'' (term_writelit ''[OK]\<newline>'' c)"
  define e where "e = init_idt L d"
  have bt: "boot_tables L s = term_writelit ''[OK]\<newline>'' e"
    by (simp add: boot_tables_def Let_def a_def b_def c_def d_def e_def)
  have two: "screen_step L t x (term_writelit v (term_writelit u x))" if "screen_up x" for x u v
    using lit_step [OF that, of L t u] lit_step [of "term_writelit u x" L t v] writes_trans [of _ "{0}" _ _ "{0}"]
    unfolding screen_step_def by (metis subset_refl)
  have wa: "screen_up a" "rest a = rest s" "?W {0} (ram s) (ram a)" using init_step unfolding a_def by blast+
  have wb: "screen_up b" "rest b = rest a" "?W {0} (ram a) (ram b)" using two [OF wa(1)] unfolding b_def screen_step_def by blast+
  have wc: "flat_tables L (ram c)" "gdtr c = (23, s_gdt L)" "?W {1, 2} (ram b) (ram c)"
    using gdt_step [OF assms] unfolding c_def by blast+
  have fc: "tty0 c = tty0 b" "code_seg c = 8" "data_seg c = 16"
    unfolding c_def by (rule init_gdt_segments)+
  have kc: "keys_of c = keys_of b" unfolding c_def by (subst init_gdt_state) (simp add: keys_of_def)
  have sc: "screen_up c" using wb(1) fc by (simp add: screen_up_def)
  have wd: "screen_up d" "rest d = rest c" "?W {0} (ram c) (ram d)"
    using two [OF sc] unfolding d_def screen_step_def by blast+
  have we: "gates_ok L (ram e)" "idtr e = (2047, s_idt L)" "?W {3, 4} (ram d) (ram e)"
    using idt_step [OF assms] unfolding e_def by blast+
  have fe: "tty0 e = tty0 d" "gdtr e = gdtr d" "code_seg e = code_seg d" "data_seg e = data_seg d"
    unfolding e_def by (subst init_idt_state, simp)+
  have ke: "keys_of e = keys_of d" unfolding e_def by (subst init_idt_state) (simp add: keys_of_def)
  have se: "screen_up e" using wd(1) fe by (simp add: screen_up_def)
  have "?W {0, 3, 4} (ram c) (ram e)" by (rule writes_trans [OF wd(3) we(3)]) simp_all
  then have "flat_tables L (ram e)" by (rule writes_flat [OF _ assms _ _ wc(1)]) simp_all
  then have te: "tables_loaded L e"
    using we(1,2) wc(2) fc fe rest_fields [OF wd(2)] by (simp add: tables_loaded_def)
  have f: "screen_step L t e (boot_tables L s)" unfolding bt by (rule lit_step [OF se])
  then have "tables_loaded L (boot_tables L s)"
    unfolding screen_step_def by (intro tables_kept [OF te _ _ assms, of _ "{0}"]) simp_all
  moreover have "?W {0, 1, 2, 3, 4} (ram s) (ram (boot_tables L s))"
  proof -
    have "?W {0} (ram s) (ram b)" by (rule writes_trans [OF wa(3) wb(3)]) simp_all
    then have "?W {0, 1, 2} (ram s) (ram c)" by (rule writes_trans [OF _ wc(3)]) simp_all
    then have "?W {0, 1, 2} (ram s) (ram d)" by (rule writes_trans [OF _ wd(3)]) simp_all
    then have "?W {0, 1, 2, 3, 4} (ram s) (ram e)" by (rule writes_trans [OF _ we(3)]) auto
    then show ?thesis by (rule writes_trans [of _ _ _ _ "{0}"]) (use f in \<open>auto simp: screen_step_def\<close>)
  qed
  moreover have "keys_of (boot_tables L s) = keys_of s"
    using keys_rest [OF wa(2)] keys_rest [OF wb(2)] kc keys_rest [OF wd(2)] ke f keys_rest [of "boot_tables L s" e]
    by (simp add: screen_step_def)
  ultimately show ?thesis using f by (simp add: screen_step_def)
qed

section \<open>The second part: memory, devices and the time\<close>

text \<open>The heap that \<open>init_mm\<close> leaves: one free block at \<open>t\<close>, nothing in use, the rest not yet carved.\<close>

definition heap_ready :: "syms \<Rightarrow> addr \<Rightarrow> addr \<Rightarrow> 32 word \<Rightarrow> mem \<Rightarrow> bool" where
  "heap_ready L t start left m \<longleftrightarrow> chain (mp_next m) (s_mm_free L) [t] \<and> chain (mp_next m) (s_mm_used L) []
     \<and> mp_address m (s_mm_free L) = start \<and> mp_size m (s_mm_free L) = left
     \<and> mp_size m t = 1024 \<and> mp_address m t = t + 256 \<and> mp_prev m t = s_mm_free L"

lemma heap_survives:
  assumes "heap_ready L t start left m" and "writes (boot_writes L t) I m m'" and "apart_list (boot_writes L t)"
    and "I \<subseteq> {..<14}" and "7 \<notin> I" "8 \<notin> I" "9 \<notin> I"
  shows "heap_ready L t start left m'"
proof -
  have same: "m' x = m x" if "j < 14" "j \<notin> I" "inreg (fst (boot_writes L t ! j)) (snd (boot_writes L t ! j)) x" for j x
    using writes_kept [OF assms(2,3), of j x] assms(4) that by (simp add: within_def)
  have "m' x = m x" if "inreg (s_mm_free L) 16 x" for x using same [of 7 x] that assms(5) by (simp add: boot_writes_nth)
  note f = mp_local [of "s_mm_free L" m' m, OF this]
  have "m' x = m x" if "inreg (s_mm_used L) 16 x" for x using same [of 8 x] that assms(6) by (simp add: boot_writes_nth)
  note u = mp_local [of "s_mm_used L" m' m, OF this]
  have "m' x = m x" if "inreg t 16 x" for x using same [of 9 x] that assms(7) by (simp add: boot_writes_nth)
  note t = mp_local [of t m' m, OF this]
  show ?thesis using assms(1) by (simp add: heap_ready_def f u t)
qed

lemma layout_apart: "boot_layout L mbd as t \<Longrightarrow> apart_list (boot_writes L t)"
  by (simp add: boot_layout_def)

lemma layout_clear:
  assumes "boot_layout L mbd as t" and "e \<in> set as"
  shows "boot_clear L mbd as e t"
proof -
  have m: "r \<in> set (boot_writes L t) \<Longrightarrow> sep (fst r) (snd r) mbd 52" for r
    using assms(1) by (simp add: boot_layout_def)
  have n: "b \<in> set as \<Longrightarrow> r \<in> set (boot_writes L t) \<Longrightarrow> sep (fst r) (snd r) b 24" for b r
    using assms(1) by (simp add: boot_layout_def)
  note a = apart_sep [OF layout_apart [OF assms(1)]]
  show ?thesis
    unfolding boot_clear_def map_clear_def
    using a [of 5 6] a [of 7 8] a [of 7 9] a [of 8 9] a [of 7 10] a [of 8 10] a [of 9 10]
      m [of "(s_mb_free L, 132)"] m [of "(s_used L, 132)"] n [of _ "(s_mb_free L, 132)"] n [of _ "(s_used L, 132)"]
      n [OF assms(2), of "(s_mm_free L, 16)"]
    by (simp add: boot_writes_nth sep_sym) (simp add: boot_writes_def)
qed

text \<open>What the scan finds depends on the record of the boot loader and the entries alone.\<close>

lemma map_same:
  assumes mbd: "\<And>x. inreg mbd 52 x \<Longrightarrow> m' x = m x" and e: "\<And>b x. b \<in> set as \<Longrightarrow> inreg b 24 x \<Longrightarrow> m' x = m x"
  shows "limit_of m' mbd = limit_of m mbd" "mbd_mmap_addr m' mbd = mbd_mmap_addr m mbd"
    "map_entries m' b l as = map_entries m b l as" "available m' as = available m as" "reserved m' as = reserved m as"
    "b \<in> set as \<Longrightarrow> mmap_len m' b = mmap_len m b" "b \<in> set as \<Longrightarrow> mmap_addr m' b = mmap_addr m b"
proof -
  show "limit_of m' mbd = limit_of m mbd" "mbd_mmap_addr m' mbd = mbd_mmap_addr m mbd"
    by (rule limit_local, erule mbd)+
  show "map_entries m' b l as = map_entries m b l as" "available m' as = available m as" "reserved m' as = reserved m as"
    by (rule map_entries_local, erule (1) e)+
  show "b \<in> set as \<Longrightarrow> mmap_len m' b = mmap_len m b" "b \<in> set as \<Longrightarrow> mmap_addr m' b = mmap_addr m b"
    by (rule mmap_local, erule (1) e)+
qed

text \<open>What the boot loader left is still there when the map is scanned.\<close>

lemma map_untouched:
  assumes "boot_layout L mbd as t" and "writes (boot_writes L t) I m m'" and "I \<subseteq> {..<14}"
  shows "inreg mbd 52 x \<Longrightarrow> m' x = m x" "b \<in> set as \<Longrightarrow> inreg b 24 x \<Longrightarrow> m' x = m x"
proof -
  have I: "I \<subseteq> {..<length (boot_writes L t)}" using assms(3) by simp
  show "inreg mbd 52 x \<Longrightarrow> m' x = m x"
    by (rule writes_read [OF assms(2) I]) (use assms(1) in \<open>simp_all add: boot_layout_def\<close>)
  show "b \<in> set as \<Longrightarrow> inreg b 24 x \<Longrightarrow> m' x = m x"
    by (rule writes_read [OF assms(2) I]) (use assms(1) in \<open>simp_all add: boot_layout_def\<close>)
qed

text \<open>A memory map the scan can hold, whose last available region is large enough.\<close>

definition usable_map :: "mem \<Rightarrow> addr \<Rightarrow> addr list \<Rightarrow> bool" where
  "usable_map m mbd as \<longleftrightarrow> map_entries m (mbd_mmap_addr m mbd) (limit_of m mbd) as
     \<and> available m as \<noteq> [] \<and> length (available m as) \<le> 32 \<and> length (reserved m as) \<le> 32
     \<and> 4096 < unat (mmap_len m (last (available m as)))
     \<and> 1040 \<le> unat (ucast (mmap_len m (last (available m as)) - 4096) :: 32 word)"

definition heap_start :: "mem \<Rightarrow> addr list \<Rightarrow> addr" where
  "heap_start m as = ucast (mmap_addr m (last (available m as)) + 4096)"

definition heap_left :: "mem \<Rightarrow> addr list \<Rightarrow> 32 word" where
  "heap_left m as = ucast (mmap_len m (last (available m as)) - 4096) - 1040"

lemma usable_same:
  assumes mbd: "\<And>x. inreg mbd 52 x \<Longrightarrow> m' x = m x" and e: "\<And>b x. b \<in> set as \<Longrightarrow> inreg b 24 x \<Longrightarrow> m' x = m x"
    and map: "usable_map m mbd as"
  shows "usable_map m' mbd as" "heap_start m' as = heap_start m as" "heap_left m' as = heap_left m as"
proof -
  have k: "limit_of m' mbd = limit_of m mbd" "mbd_mmap_addr m' mbd = mbd_mmap_addr m mbd"
    "map_entries m' b l as = map_entries m b l as" "available m' as = available m as" "reserved m' as = reserved m as"
    "b \<in> set as \<Longrightarrow> mmap_len m' b = mmap_len m b" "b \<in> set as \<Longrightarrow> mmap_addr m' b = mmap_addr m b" for b l
    by (rule map_same, erule mbd, erule (1) e, assumption?)+
  have "available m as \<noteq> []" using map by (simp add: usable_map_def)
  from last_in_set [OF this] have "last (available m as) \<in> set as" by simp
  note e = k(6,7) [OF this]
  show "usable_map m' mbd as" using map by (simp add: usable_map_def k(1-5) e)
  show "heap_start m' as = heap_start m as" "heap_left m' as = heap_left m as"
    by (simp_all add: heap_start_def heap_left_def k(4) e)
qed

lemma usable_kept:
  assumes "boot_layout L mbd as t" and "writes (boot_writes L t) I m m'" and "I \<subseteq> {..<14}" and "usable_map m mbd as"
  shows "usable_map m' mbd as" "heap_start m' as = heap_start m as" "heap_left m' as = heap_left m as"
  by (rule usable_same [OF _ _ assms(4)], erule map_untouched [OF assms(1-3)], erule (1) map_untouched(2) [OF assms(1-3)])+

lemma init_mm_step:
  assumes "boot_layout L mbd as t" and "usable_map (ram s) mbd as" and "t = heap_start (ram s) as + heap_left (ram s) as"
  shows "\<exists>s'. init_mm L mbd s = ret s' \<and> heap_ready L t (heap_start (ram s) as) (heap_left (ram s) as) (ram s')
    \<and> writes (boot_writes L t) {5, 6, 7, 8, 9, 10} (ram s) (ram s')
    \<and> tty0 s' = tty0 s \<and> gdtr s' = gdtr s \<and> idtr s' = idtr s \<and> code_seg s' = code_seg s \<and> data_seg s' = data_seg s
    \<and> keys_of s' = keys_of s"
proof -
  let ?e = "last (available (ram s) as)"
  have u: "map_entries (ram s) (mbd_mmap_addr (ram s) mbd) (limit_of (ram s) mbd) as" "available (ram s) as \<noteq> []"
    "length (available (ram s) as) \<le> 32" "length (reserved (ram s) as) \<le> 32" "4096 < unat (mmap_len (ram s) ?e)"
    "1040 \<le> unat (ucast (mmap_len (ram s) ?e - 4096) :: 32 word)"
    using assms(2) by (simp_all add: usable_map_def)
  from last_in_set [OF u(2)] have e: "?e \<in> set as" by simp
  note clear = layout_clear [OF assms(1) e, unfolded assms(3) heap_start_def heap_left_def]
  from init_mm_ready [OF u(1-4) clear u(5,6), folded heap_start_def heap_left_def, folded assms(3)]
  obtain s' where s': "init_mm L mbd s = ret s'" "heap_ready L t (heap_start (ram s) as) (heap_left (ram s) as) (ram s')"
    "\<exists>m sz bottom top. s' = s\<lparr>ram := m, mem_size := sz, mm_heap_bottom := bottom, mm_heap_top := top\<rparr>"
    "\<forall>x. inreg (s_mb_free L) 132 x \<or> inreg (s_used L) 132 x \<or> inreg (s_mm_free L) 16 x \<or> inreg (s_mm_used L) 16 x
       \<or> inreg t 16 x \<or> inreg 0 16 x \<or> ram s' x = ram s x"
    unfolding heap_ready_def by blast
  have "writes (boot_writes L t) {5, 6, 7, 8, 9, 10} (ram s) (ram s')"
    using s'(4) by (auto simp: writes_def within_def boot_writes_nth)
  moreover have "tty0 s' = tty0 s \<and> gdtr s' = gdtr s \<and> idtr s' = idtr s \<and> code_seg s' = code_seg s \<and> data_seg s' = data_seg s
      \<and> keys_of s' = keys_of s"
    using s'(3) by (auto simp: keys_of_def)
  ultimately show ?thesis using s'(1,2) by blast
qed

lemma boot_memory_done:
  assumes "boot_layout L mbd as t" and "usable_map (ram s) mbd as" and "t = heap_start (ram s) as + heap_left (ram s) as"
    and "screen_up s" and "tables_loaded L s"
  shows "\<exists>s'. boot_memory L mbd s = ret s' \<and> screen_up s' \<and> tables_loaded L s'
    \<and> heap_ready L t (heap_start (ram s) as) (heap_left (ram s) as) (ram s')
    \<and> writes (boot_writes L t) {0, 5, 6, 7, 8, 9, 10} (ram s) (ram s') \<and> keys_of s' = keys_of s"
proof -
  let ?W = "writes (boot_writes L t)"
  note ap = layout_apart [OF assms(1)]
  define a where "a = term_writelit ''Initializing memory manager...'' s"
  have a: "screen_up a" "rest a = rest s" "?W {0} (ram s) (ram a)"
    using lit_step [OF assms(4)] unfolding a_def screen_step_def by blast+
  note ua = usable_kept [OF assms(1) a(3) _ assms(2), simplified]
  have ta: "tables_loaded L a" by (rule tables_kept [OF assms(5) a(2,3) ap]) simp_all
  obtain b where b: "init_mm L mbd a = ret b" "heap_ready L t (heap_start (ram s) as) (heap_left (ram s) as) (ram b)"
    "?W {5, 6, 7, 8, 9, 10} (ram a) (ram b)" "tty0 b = tty0 a" "gdtr b = gdtr a" "idtr b = idtr a"
    "code_seg b = code_seg a" "data_seg b = data_seg a" "keys_of b = keys_of a"
    using init_mm_step [OF assms(1) ua(1), unfolded ua(2,3), OF assms(3)] by blast
  have sb: "screen_up b" using a(1) b(4) by (simp add: screen_up_def)
  have "flat_tables L (ram b)" by (rule writes_flat [OF b(3) ap]) (use ta in \<open>simp_all add: tables_loaded_def\<close>)
  moreover have "gates_ok L (ram b)" by (rule writes_gates [OF b(3) ap]) (use ta in \<open>simp_all add: tables_loaded_def\<close>)
  ultimately have tb: "tables_loaded L b" using ta b(5-8) by (simp add: tables_loaded_def)
  define c where "c = term_writelit ''[OK]\<newline>'' b"
  have c: "screen_up c" "rest c = rest b" "?W {0} (ram b) (ram c)"
    using lit_step [OF sb] unfolding c_def screen_step_def by blast+
  have "tables_loaded L c" by (rule tables_kept [OF tb c(2,3) ap]) simp_all
  moreover have "heap_ready L t (heap_start (ram s) as) (heap_left (ram s) as) (ram c)"
    by (rule heap_survives [OF b(2) c(3) ap]) simp_all
  moreover have "?W {0, 5, 6, 7, 8, 9, 10} (ram s) (ram c)"
  proof -
    have "?W {0, 5, 6, 7, 8, 9, 10} (ram s) (ram b)" by (rule writes_trans [OF a(3) b(3)]) auto
    then show ?thesis by (rule writes_trans [OF _ c(3)]) auto
  qed
  moreover have "boot_memory L mbd s = ret c" unfolding boot_memory_def a_def [symmetric] b(1) by (simp add: c_def)
  moreover have "keys_of c = keys_of s" using keys_rest [OF a(2)] b(9) keys_rest [OF c(2)] by simp
  ultimately show ?thesis using c(1) by blast
qed

lemma get_time_io: "\<exists>l. snd (get_time dev L s) = s\<lparr>io := l\<rparr>"
proof -
  have d: "\<exists>l. snd (cmos_dump dev (s\<lparr>io := k\<rparr>)) = s\<lparr>io := l\<rparr>" for k
    using cmos_dump_io [of dev "s\<lparr>io := k\<rparr>"] by simp
  obtain l1 where 1: "snd (cmos_dump dev s) = s\<lparr>io := l1\<rparr>" using cmos_dump_io by blast
  obtain l2 where 2: "snd (cmos_dump dev (s\<lparr>io := l1\<rparr>)) = s\<lparr>io := l2\<rparr>" using d by blast
  obtain l3 where 3: "snd (cmos_dump dev (s\<lparr>io := l2\<rparr>)) = s\<lparr>io := l3\<rparr>" using d by blast
  obtain l4 where 4: "snd (cmos_dump dev (s\<lparr>io := l3\<rparr>)) = s\<lparr>io := l4\<rparr>" using d by blast
  obtain l5 where 5: "snd (cmos_dump dev (s\<lparr>io := l4\<rparr>)) = s\<lparr>io := l5\<rparr>" using d by blast
  obtain l6 where 6: "snd (cmos_dump dev (s\<lparr>io := l5\<rparr>)) = s\<lparr>io := l6\<rparr>" using d by blast
  show ?thesis
    by (intro exI [of _ l6])
      (simp add: get_time_def get_hours_def get_mins_def get_secs_def get_month_def get_day_of_month_def get_year_def
        Let_def case_prod_beta 1 2 3 4 5 6)
qed

text \<open>The handlers of the two devices are in place and the clock is at zero.\<close>

definition devices_ready :: "syms \<Rightarrow> kstate \<Rightarrow> bool" where
  "devices_ready L s \<longleftrightarrow> load32 (ram s) (s_irq_routines L) = f_timer_handler L
     \<and> load32 (ram s) (s_irq_routines L + 4) = f_keyboard_handler L \<and> uptime s = 0 \<and> t_hz s = 100"

lemma devices_kept:
  assumes "devices_ready L s" and "rest s' = rest s" and "writes (boot_writes L t) I (ram s) (ram s')"
    and "apart_list (boot_writes L t)" and "I \<subseteq> {..<14}" and "11 \<notin> I"
  shows "devices_ready L s'"
proof -
  have m: "ram s' x = ram s x" if "inreg (s_irq_routines L) 64 x" for x
    using writes_kept [OF assms(3,4), of 11 x] assms(5,6) that by (simp add: boot_writes_nth within_def)
  have "load32 (ram s') (s_irq_routines L) = load32 (ram s) (s_irq_routines L)"
    by (rule c32.ld_local, rule m, erule inreg_mono) simp
  moreover have "load32 (ram s') (s_irq_routines L + 4) = load32 (ram s) (s_irq_routines L + 4)"
    by (rule c32.ld_local, rule m, erule inreg_sub) simp
  ultimately show ?thesis using assms(1) rest_fields [OF assms(2)] by (simp add: devices_ready_def)
qed

lemma boot_devices_done:
  "\<exists>s'. boot_devices L s = Some s' \<and> devices_ready L s' \<and> writes (boot_writes L t) {11} (ram s) (ram s')
    \<and> tty0 s' = tty0 s \<and> gdtr s' = gdtr s \<and> idtr s' = idtr s \<and> code_seg s' = code_seg s \<and> data_seg s' = data_seg s
    \<and> keys_of s' = keys_of s"
proof -
  let ?r = "s_irq_routines L"
  let ?m = "store32 (store32 (ram s) (?r + 4) (f_keyboard_handler L)) ?r (f_timer_handler L)"
  obtain l where l: "boot_devices L s = Some (s\<lparr>uptime := 0, t_hz := 100, io := l, ram := ?m\<rparr>)"
    by (simp add: boot_devices_def init_keybd_def init_timer_def timer_phase_def irq_install_handler_def Let_def outbs_eq)
  have "?m x = ram s x" if "\<not> inreg ?r 64 x" for x
  proof -
    have "\<not> inreg (?r + 4) 4 x" "\<not> inreg ?r 4 x" using inreg_fields(1) [OF that, of 4 4] that inreg_mono [of ?r 4 x 64] by auto
    then show ?thesis by (simp add: c32.st_outside)
  qed
  then have "writes (boot_writes L t) {11} (ram s) ?m" by (simp add: writes_def within_def boot_writes_nth)
  moreover have "devices_ready L (s\<lparr>uptime := 0, t_hz := 100, io := l, ram := ?m\<rparr>)"
    by (simp add: devices_ready_def mem_simps sep_simps)
  ultimately show ?thesis using l by (intro exI [of _ "s\<lparr>uptime := 0, t_hz := 100, io := l, ram := ?m\<rparr>"]) (simp add: keys_of_def)
qed

text \<open>What printing a number needs from the data section: the end of the digit buffer and the literal 0.\<close>

definition digits_ready :: "syms \<Rightarrow> mem \<Rightarrow> bool" where
  "digits_ready L m \<longleftrightarrow> m (s_itoa_buf L + 65) = 0 \<and> cstr_at m (s_zero L) [48]"

lemma digits_same:
  assumes "digits_ready L m" and "m' (s_itoa_buf L + 65) = m (s_itoa_buf L + 65)" and z: "\<And>x. inreg (s_zero L) 2 x \<Longrightarrow> m' x = m x"
  shows "digits_ready L m'"
proof -
  have "cstr_at m' (s_zero L) [48]"
    by (rule cstr_at_frame [of m]) (use assms(1) z in \<open>simp_all only: digits_ready_def length_Cons list.size(3) numeral_2_eq_2\<close>)
  then show ?thesis using assms(1,2) by (simp add: digits_ready_def)
qed

lemma digits_kept:
  assumes "digits_ready L m" and "writes (boot_writes L t) I m m'" and "apart_list (boot_writes L t)"
    and "I \<subseteq> {..<14}" and "12 \<notin> I" "13 \<notin> I"
  shows "digits_ready L m'"
proof (rule digits_same [OF assms(1)])
  show "m' (s_itoa_buf L + 65) = m (s_itoa_buf L + 65)"
    using writes_kept [OF assms(2,3), of 12 "s_itoa_buf L + 65"] assms(4,5) by (simp add: within_def boot_writes_nth inreg_def)
  show "m' x = m x" if "inreg (s_zero L) 2 x" for x
    using writes_kept [OF assms(2,3), of 13 x] assms(4,6) that by (simp add: within_def boot_writes_nth)
qed

lemma print_time_done:
  assumes "apart_list (boot_writes L t)" and "screen_up s" and "digits_ready L (ram s)"
  shows "\<exists>s'. print_time dev L s = Some s' \<and> screen_up s' \<and> rest s' = rest s
    \<and> writes (boot_writes L t) {0, 12} (ram s) (ram s')"
proof -
  obtain l where l: "snd (get_time dev L s) = s\<lparr>io := l\<rparr>" using get_time_io by blast
  let ?s = "s\<lparr>io := l\<rparr>"
  have "sep 0xB8000 4000 (s_itoa_buf L + 1) 65" "sep 0xB8000 4000 (s_zero L) 2" "sep (s_itoa_buf L + 1) 65 (s_zero L) 2"
    using apart_sep [OF assms(1), of 0 12] apart_sep [OF assms(1), of 0 13] apart_sep [OF assms(1), of 12 13]
    by (simp_all add: boot_writes_nth)
  then have "print_ok L ?s"
    using assms(2,3) sep_shrink [of "s_itoa_buf L + 1" 65 "s_zero L" 2 64 2] by (simp add: print_ok_def screen_up_def digits_ready_def)
  then obtain s' where s': "term_writenum L (fst (get_time dev L s)) 10 ?s = Some s'" "quiet L ?s s'"
    using printsD [OF prints_num [where v = "\<lambda>_. fst (get_time dev L s)" and base = 10]] by fastforce
  have "screen_up s'"
    using s'(2) assms(2) same_geometry_ok [of "tty0 s" "tty0 s'"]
    by (simp add: quiet_def screen_up_def same_geometry_def frame_bytes_def)
  moreover have "writes (boot_writes L t) {0, 12} (ram s) (ram s')"
    using s'(2) assms(2) inreg_mono [of "s_itoa_buf L + 1" 64 _ 65]
    by (auto simp: quiet_def screen_up_def in_frame_def writes_def within_def boot_writes_nth)
  ultimately show ?thesis
    using s' l by (intro exI [of _ s']) (auto simp: print_time_def case_prod_beta quiet_def)
qed

section \<open>The whole sequence\<close>

lemma writes_usable_digits:
  assumes "boot_layout L mbd as t" and "usable_map (ram s) mbd as" and "digits_ready L (ram s)"
  shows "usable_map (ram (boot_tables L s)) mbd as" "heap_start (ram (boot_tables L s)) as = heap_start (ram s) as"
    "heap_left (ram (boot_tables L s)) as = heap_left (ram s) as" "digits_ready L (ram (boot_tables L s))"
proof -
  note ap = layout_apart [OF assms(1)]
  have w: "writes (boot_writes L t) {0, 1, 2, 3, 4} (ram s) (ram (boot_tables L s))" using boot_tables_done [OF ap] by blast
  show "usable_map (ram (boot_tables L s)) mbd as" "heap_start (ram (boot_tables L s)) as = heap_start (ram s) as"
    "heap_left (ram (boot_tables L s)) as = heap_left (ram s) as"
    by (rule usable_kept [OF assms(1) w _ assms(2)], simp)+
  show "digits_ready L (ram (boot_tables L s))" by (rule digits_kept [OF assms(3) w ap]) simp_all
qed

lemma boot_done:
  assumes layout: "boot_layout L mbd as t" and map: "usable_map (ram s) mbd as"
    and block: "t = heap_start (ram s) as + heap_left (ram s) as" and digits: "digits_ready L (ram s)"
  shows "\<exists>s'. boot dev L mbd s = ret s' \<and> cmain dev irq L buffer mbd s = shell irq L buffer s'
    \<and> screen_up s' \<and> tables_loaded L s' \<and> heap_ready L t (heap_start (ram s) as) (heap_left (ram s) as) (ram s')
    \<and> devices_ready L s' \<and> keys_of s' = keys_of s \<and> writes (boot_writes L t) {..<14} (ram s) (ram s')"
proof -
  let ?W = "writes (boot_writes L t)"
  note ap = layout_apart [OF layout]
  note one = boot_tables_done [OF ap, of s] and k = writes_usable_digits [OF layout map digits]
  obtain b where b: "boot_memory L mbd (boot_tables L s) = ret b" "screen_up b" "tables_loaded L b"
    "heap_ready L t (heap_start (ram s) as) (heap_left (ram s) as) (ram b)"
    "?W {0, 5, 6, 7, 8, 9, 10} (ram (boot_tables L s)) (ram b)" "keys_of b = keys_of (boot_tables L s)"
    using boot_memory_done [OF layout k(1), unfolded k(2,3), OF block] one by blast
  have db: "digits_ready L (ram b)" by (rule digits_kept [OF k(4) b(5) ap]) simp_all
  obtain c where c: "boot_devices L b = Some c" "devices_ready L c" "?W {11} (ram b) (ram c)" "tty0 c = tty0 b"
    "gdtr c = gdtr b" "idtr c = idtr b" "code_seg c = code_seg b" "data_seg c = data_seg b" "keys_of c = keys_of b"
    using boot_devices_done by blast
  have "flat_tables L (ram c)" by (rule writes_flat [OF c(3) ap]) (use b(3) in \<open>simp_all add: tables_loaded_def\<close>)
  moreover have "gates_ok L (ram c)" by (rule writes_gates [OF c(3) ap]) (use b(3) in \<open>simp_all add: tables_loaded_def\<close>)
  ultimately have tc: "tables_loaded L c" using b(3) c(5-8) by (simp add: tables_loaded_def)
  have hc: "heap_ready L t (heap_start (ram s) as) (heap_left (ram s) as) (ram c)" by (rule heap_survives [OF b(4) c(3) ap]) simp_all
  have dc: "digits_ready L (ram c)" by (rule digits_kept [OF db c(3) ap]) simp_all
  have sc: "screen_up c" using b(2) c(4) by (simp add: screen_up_def)
  obtain d where d: "print_time dev L c = Some d" "screen_up d" "rest d = rest c" "?W {0, 12} (ram c) (ram d)"
    using print_time_done [OF ap sc dc] by blast
  have "tables_loaded L d" by (rule tables_kept [OF tc d(3,4) ap]) simp_all
  moreover have "heap_ready L t (heap_start (ram s) as) (heap_left (ram s) as) (ram d)" by (rule heap_survives [OF hc d(4) ap]) simp_all
  moreover have "devices_ready L d" by (rule devices_kept [OF c(2) d(3,4) ap]) simp_all
  moreover have "boot dev L mbd s = ret d" by (simp add: boot_def b(1) c(1) d(1))
  moreover have "keys_of d = keys_of s" using one b(6) c(9) keys_rest [OF d(3)] by simp
  moreover have "?W {..<14} (ram s) (ram d)"
  proof -
    have "?W {..<14} (ram s) (ram b)" by (rule writes_trans [OF _ b(5)]) (use one in auto)
    then have "?W {..<14} (ram s) (ram c)" by (rule writes_trans [OF _ c(3)]) auto
    then show ?thesis by (rule writes_trans [OF _ d(4)]) auto
  qed
  ultimately show ?thesis using d(2) by (intro exI [of _ d]) (simp add: cmain_def)
qed

text \<open>C6. From a memory map with a region that is large enough, and with nothing that booting writes
  overlapping anything else it needs, the kernel gets to its shell: the screen is in order, the flat
  segments and the gates are loaded and intact, one free block and the remaining heap are in the lists, the
  two device handlers are installed, and the clock stands at zero.\<close>

theorem kernel_boots:
  assumes layout: "boot_layout L mbd as t" and map: "usable_map (ram s) mbd as"
    and block: "t = heap_start (ram s) as + heap_left (ram s) as" and digits: "digits_ready L (ram s)"
  shows "\<exists>s'. boot dev L mbd s = ret s' \<and> cmain dev irq L buffer mbd s = shell irq L buffer s'
    \<and> screen_up s' \<and> tables_loaded L s' \<and> heap_ready L t (heap_start (ram s) as) (heap_left (ram s) as) (ram s')
    \<and> devices_ready L s'"
  using boot_done [OF assms] by blast

text \<open>C4. The allocator of the booted kernel keeps its promise over any history: blocks
  requested and released and bytes stored outside the nodes, in any order the abstract heap allows.
  Every \<open>malloc\<close> returns the block the abstract heap hands out, and in the end the two lists in memory
  are those of the abstract heap, with separate nodes and every back link to the header.\<close>

theorem booted_heap:
  assumes layout: "boot_layout L mbd as t" and map: "usable_map (ram s) mbd as"
    and block: "t = heap_start (ram s) as + heap_left (ram s) as" and digits: "digits_ready L (ram s)"
    and arena: "arena_ok L (heap_start (ram s) as) low (heap_left (ram s) as)"
    and run: "a_run L (heap_start (ram s) as) low es (first_heap (heap_start (ram s) as) (heap_left (ram s) as)) = Some (ps, H)"
  shows "\<exists>s' m. boot dev L mbd s = ret s' \<and> heap_run L es s' = ret (ps, s'\<lparr>ram := m\<rparr>)
    \<and> heap_of L (heap_start (ram s) as) low (unat (heap_left (ram s) as) + 1040) H m"
proof -
  obtain s' where s': "boot dev L mbd s = ret s'" "heap_ready L t (heap_start (ram s) as) (heap_left (ram s) as) (ram s')"
    using boot_done [OF layout map block digits] by blast
  have "sep 0 16 (s_mm_free L) 16" "sep 0 16 (s_mm_used L) 16" "sep (s_mm_free L) 16 (s_mm_used L) 16"
    using layout_apart [OF layout] by (simp_all add: boot_writes_def sep_sym)
  note first_heap_of [OF _ _ _ _ _ _ _ block arena this, of "ram s'"]
  then have "heap_of L (heap_start (ram s) as) low (unat (heap_left (ram s) as) + 1040)
      (first_heap (heap_start (ram s) as) (heap_left (ram s) as)) (ram s')"
    using s'(2) by (simp add: heap_ready_def)
  then show ?thesis using run_implements [OF _ run] s'(1) by blast
qed

section \<open>From power-on to the first answer\<close>

text \<open>What the first turn of the shell needs beside what booting writes: the line of the keyboard, the buffer
  of the shell, the place of the saved registers and the literal.\<close>

definition shell_regions :: "syms \<Rightarrow> addr \<Rightarrow> addr \<Rightarrow> region list" where
  "shell_regions L r buffer = [(s_kb_buffer L, 256), (buffer, 257), (r, 76), (s_literal L ''test'', 5)]"

definition shell_layout :: "syms \<Rightarrow> addr \<Rightarrow> addr \<Rightarrow> addr \<Rightarrow> bool" where
  "shell_layout L t r buffer \<longleftrightarrow> apart_list (boot_writes L t @ shell_regions L r buffer)
     \<and> unat buffer + 257 \<le> 4294967296 \<and> unat (s_kb_buffer L) + 256 \<le> 4294967296"

lemma apart_append: "apart_list (rs @ qs) \<longleftrightarrow> apart_list rs \<and> apart_list qs
    \<and> (\<forall>r \<in> set rs. \<forall>q \<in> set qs. sep (fst r) (snd r) (fst q) (snd q))"
  by (induction rs) auto

lemma shell_apart:
  assumes "shell_layout L t r buffer"
  shows "sep (s_kb_buffer L) 256 buffer 257" "sep (s_kb_buffer L) 256 r 76" "sep buffer 257 r 76"
    "sep (s_kb_buffer L) 256 (s_literal L ''test'') 5" "sep buffer 257 (s_literal L ''test'') 5" "sep r 76 (s_literal L ''test'') 5"
    and "sep 0xB8000 4000 (s_kb_buffer L) 256" "sep 0xB8000 4000 buffer 257" "sep 0xB8000 4000 r 76"
    "sep 0xB8000 4000 (s_literal L ''test'') 5" "sep 0xB8000 4000 (s_irq_routines L) 64"
    "sep (s_irq_routines L) 64 (s_kb_buffer L) 256" "sep (s_irq_routines L) 64 r 76"
  using assms by (simp_all add: shell_layout_def apart_append shell_regions_def) (simp_all add: boot_writes_def)

text \<open>The machine of the sample map, with the literal 0 in its place.\<close>

definition sample_boot :: mem where
  "sample_boot = store32 sample_map 0x101420 48"

lemma sample_boot_fields:
  "mbd_mmap_length sample_boot 0x8000 = 24" "mbd_mmap_addr sample_boot 0x8000 = 0x9000"
  "mmap_size sample_boot 0x9000 = 20" "mmap_addr sample_boot 0x9000 = 0x100000"
  "mmap_len sample_boot 0x9000 = 0x800000" "mmap_type sample_boot 0x9000 = 1"
  by (simp_all add: sample_boot_def sample_map_def mbd_fields mmap_fields mem_simps sep_simps)

lemma sample_boot_usable: "usable_map sample_boot 0x8000 [0x9000]" "heap_start sample_boot [0x9000] = 0x101000"
  "heap_left sample_boot [0x9000] = 0x7FEBF0"
  by (simp_all add: usable_map_def limit_of_def heap_start_def heap_left_def sample_boot_fields)

lemma sample_boot_digits: "digits_ready sample_syms sample_boot"
proof -
  have z: "sample_map 0x101341 = 0" "sample_map 0x101420 = 0" "sample_map 0x101421 = 0"
    by (simp_all add: sample_map_def c32.st_outside c64.st_outside inreg_def)
  have "sample_boot 0x101341 = 0" by (simp add: sample_boot_def c32.st_outside inreg_def z(1))
  moreover have "sample_boot 0x101420 = 48" "sample_boot 0x101421 = 0"
    by (simp_all add: sample_boot_def store32_def store16_def store8_def)
  ultimately show ?thesis by (simp add: digits_ready_def)
qed

lemma sample_boot_layout: "boot_layout sample_syms 0x8000 [0x9000] 0x8FFBF0"
  by (simp add: boot_layout_def boot_writes_def sep_simps)

lemma kernel_boots_witness:
  "\<exists>s'. boot (\<lambda>_ _. 0) sample_syms 0x8000 (sample_state\<lparr>ram := sample_boot\<rparr>) = ret s'
    \<and> screen_up s' \<and> tables_loaded sample_syms s' \<and> devices_ready sample_syms s'
    \<and> heap_ready sample_syms 0x8FFBF0 0x101000 0x7FEBF0 (ram s')"
proof -
  let ?s = "sample_state\<lparr>ram := sample_boot\<rparr>"
  have u: "usable_map (ram ?s) 0x8000 [0x9000]" "0x8FFBF0 = heap_start (ram ?s) [0x9000] + heap_left (ram ?s) [0x9000]"
    "digits_ready sample_syms (ram ?s)"
    by (simp_all add: sample_boot_usable sample_boot_digits)
  have h: "heap_start (ram ?s) [0x9000] = 0x101000" "heap_left (ram ?s) [0x9000] = 0x7FEBF0"
    by (simp_all add: sample_boot_usable)
  show ?thesis using kernel_boots [OF sample_boot_layout u] unfolding h by blast
qed

text \<open>
  Two blocks, the older one released, a byte stored, and the block reused: 90 bytes fit in the 100 released.
  The release has dropped the newer block from the used list.
\<close>

lemma booted_heap_witness:
  "\<exists>s' m. boot (\<lambda>_ _. 0) sample_syms 0x8000 (sample_state\<lparr>ram := sample_boot\<rparr>) = ret s'
    \<and> heap_run sample_syms [Alloc 100, Alloc 200, Release 0x8FFB7C, Store 0x200000 7, Alloc 90] s'
        = ret ([0x8FFB7C, 0x8FFAA4, 0x8FFB7C], s'\<lparr>ram := m\<rparr>)
    \<and> chain (mp_next m) 0x101200 [0x8FFBF0] \<and> chain (mp_next m) 0x101210 [0x8FFB7C]"
proof -
  let ?s = "sample_state\<lparr>ram := sample_boot\<rparr>"
  let ?es = "[Alloc 100, Alloc 200, Release 0x8FFB7C, Store 0x200000 7, Alloc 90]"
  let ?H = "\<lparr>room = 0x7FEAA4, fblocks = [(0x8FFBF0, 1024)], ublocks = [(0x8FFB7C, 100)]\<rparr>"
  have h: "heap_start (ram ?s) [0x9000] = 0x101000" "heap_left (ram ?s) [0x9000] = 0x7FEBF0"
    by (simp_all add: sample_boot_usable)
  have u: "usable_map (ram ?s) 0x8000 [0x9000]" "0x8FFBF0 = heap_start (ram ?s) [0x9000] + heap_left (ram ?s) [0x9000]"
    "digits_ready sample_syms (ram ?s)"
    by (simp_all add: sample_boot_usable sample_boot_digits)
  have "arena_ok sample_syms (heap_start (ram ?s) [0x9000]) 0x1000 (heap_left (ram ?s) [0x9000])"
    unfolding h by (simp add: arena_ok_def sep_simps)
  moreover have "a_run sample_syms (heap_start (ram ?s) [0x9000]) 0x1000 ?es
      (first_heap (heap_start (ram ?s) [0x9000]) (heap_left (ram ?s) [0x9000])) = Some ([0x8FFB7C, 0x8FFAA4, 0x8FFB7C], ?H)"
    unfolding h
    by (simp add: first_heap_def a_malloc_def a_free_def a_store_def a_nodes_def good_buddy_def Let_def inreg_def)
  ultimately show ?thesis
    using booted_heap [OF sample_boot_layout u, of "0x1000" ?es _ ?H "\<lambda>_ _. 0"]
    by (fastforce simp: heap_of_def listed_def)
qed

text \<open>
  The same machine with the literal of the shell in place. The first interrupt is a tick, every later one a
  key.
\<close>

definition sample_shell :: mem where
  "sample_shell = store32 sample_boot 0x107380 0x74736574"

lemma sample_shell_fields:
  "mbd_mmap_length sample_shell 0x8000 = 24" "mbd_mmap_addr sample_shell 0x8000 = 0x9000"
  "mmap_size sample_shell 0x9000 = 20" "mmap_addr sample_shell 0x9000 = 0x100000"
  "mmap_len sample_shell 0x9000 = 0x800000" "mmap_type sample_shell 0x9000 = 1"
  by (simp_all add: sample_shell_def sample_boot_def sample_map_def mbd_fields mmap_fields mem_simps sep_simps)

lemma sample_shell_usable: "usable_map sample_shell 0x8000 [0x9000]" "heap_start sample_shell [0x9000] = 0x101000"
  "heap_left sample_shell [0x9000] = 0x7FEBF0"
  by (simp_all add: usable_map_def limit_of_def heap_start_def heap_left_def sample_shell_fields)

lemma sample_shell_bytes:
  "sample_shell 0x107380 = 116" "sample_shell 0x107381 = 101" "sample_shell 0x107382 = 115" "sample_shell 0x107383 = 116"
  "sample_shell 0x107384 = 0" "sample_shell 0x200000 = 0" "digits_ready sample_syms sample_shell"
proof -
  have o: "sample_shell x = sample_boot x" if "\<not> inreg 0x107380 4 x" for x
    using that by (simp add: sample_shell_def c32.st_outside)
  have z: "sample_boot 0x107384 = 0" "sample_boot 0x200000 = 0"
    by (simp_all add: sample_boot_def sample_map_def c32.st_outside c64.st_outside inreg_def)
  show "sample_shell 0x107380 = 116" "sample_shell 0x107381 = 101" "sample_shell 0x107382 = 115" "sample_shell 0x107383 = 116"
    by (simp_all add: sample_shell_def store32_def store16_def store8_def)
  show "sample_shell 0x107384 = 0" "sample_shell 0x200000 = 0" using o z by (simp_all add: inreg_def)
  show "digits_ready sample_syms sample_shell"
    using sample_boot_digits o by (simp add: digits_ready_def inreg_def)
qed

definition sample_save :: "kstate \<Rightarrow> mem" where
  "sample_save s = store32 (ram s) 0x7030 (if uptime s = 0 then 32 else 33)"

lemma sample_saves: "saves_regs 0x7000 sample_save" "regs_int_no (sample_save s) 0x7000 = (if uptime s = 0 then 32 else 33)"
proof -
  show v: "regs_int_no (sample_save s) 0x7000 = (if uptime s = 0 then 32 else 33)" for s
    by (simp add: sample_save_def regs_int_no_def mem_simps)
  have "inreg 0x7000 76 x \<or> sample_save s x = ram s x" for s x
    using inreg_sub [of "0x7000" "0x30" 4 x 76] c32.st_outside [of "0x7030" x "ram s"]
    unfolding sample_save_def by fastforce
  then show "saves_regs 0x7000 sample_save" by (simp add: saves_regs_def v)
qed

lemma sample_shell_layout: "shell_layout sample_syms 0x8FFBF0 0x7000 0x200000"
  by (simp add: shell_layout_def shell_regions_def boot_writes_def sample_literal_def sample_literals_def sep_simps)

end
