(* ===== verification/Session.thy ===== *)
theory Session
  imports Boot_Spec
begin

text \<open>
  A session at the shell, from power-on: any number of lines, typed with the clock ticking in between.
  What the screen shows is the abstract screen after the prompts, the echo of the keys and the answers,
  in that order.
\<close>

section \<open>The screen and what leaves it alone\<close>

definition v_puts :: "term_t \<Rightarrow> byte list \<Rightarrow> view \<Rightarrow> view" where
  "v_puts t cs v = fold (v_putchar (unat (t_width t)) (unat (t_height t)) (t_color t)) cs v"

lemma v_puts_simps [simp]: "v_puts t [] v = v" "v_puts t (cs @ ds) v = v_puts t ds (v_puts t cs v)"
  by (simp_all add: v_puts_def)

lemma v_puts_geometry: "same_geometry t u \<Longrightarrow> v_puts u = v_puts t"
  by (simp add: v_puts_def same_geometry_def fun_eq_iff)

lemma geometry_trans: "same_geometry t u \<Longrightarrow> same_geometry u v \<Longrightarrow> same_geometry t v"
  by (simp add: same_geometry_def)

text \<open>The bytes of the screen, with the row below it that a scroll brings in.\<close>

definition off_view :: "kstate \<Rightarrow> addr \<Rightarrow> nat \<Rightarrow> bool" where
  "off_view s a n \<longleftrightarrow> sep (t_buffer (tty0 s)) (frame_bytes (tty0 s) + 2 * unat (t_width (tty0 s))) a n"

lemma off_view_screen: "off_view s a n \<Longrightarrow> off_screen s a n"
  unfolding off_view_def off_screen_def by (erule sep_shrink) simp_all

lemma off_view_geometry: "same_geometry (tty0 s) (tty0 s') \<Longrightarrow> off_view s' a n = off_view s a n"
  by (simp add: off_view_def same_geometry_def frame_bytes_def)

lemma view_kept:
  assumes g: "geometry_ok (tty0 s)" and t: "tty0 s' = tty0 s"
    and same: "\<And>x. inreg (t_buffer (tty0 s)) (frame_bytes (tty0 s) + 2 * unat (t_width (tty0 s))) x \<Longrightarrow> ram s' x = ram s x"
  shows "view_of s' = view_of s"
proof -
  let ?t = "tty0 s"
  have "load16 (ram s') (t_buffer ?t + grid_off ?t y x) = load16 (ram s) (t_buffer ?t + grid_off ?t y x)"
    if "y \<le> unat (t_height ?t)" "x < unat (t_width ?t)" for y x
  proof (rule c16.ld_local, rule same)
    fix z
    assume z: "inreg (t_buffer ?t + grid_off ?t y x) 2 z"
    have "unat (grid_off ?t y x) + 2 \<le> frame_bytes ?t + 2 * unat (t_width ?t)"
      using grid_bounds(1) [OF g that(2,1)] unat_grid_off [OF g that(2,1)] by simp
    then show "inreg (t_buffer ?t) (frame_bytes ?t + 2 * unat (t_width ?t)) z" by (rule inreg_sub [OF z])
  qed
  then show ?thesis by (simp add: view_of_def t Let_def fun_eq_iff)
qed

lemma view_off:
  assumes "geometry_ok (tty0 s)" and "tty0 s' = tty0 s" and "off_view s a n"
    and "\<And>x. \<not> inreg a n x \<Longrightarrow> ram s' x = ram s x"
  shows "view_of s' = view_of s"
  by (rule view_kept [OF assms(1,2)]) (use assms(3,4) sep_notin sep_sym in \<open>metis off_view_def\<close>)

text \<open>Printing on a screen that is in order.\<close>

lemma puts_view:
  assumes "screen_ok s" and "cursor_ok (tty0 s)"
  shows "view_of (fold term_putchar cs s) = v_puts (tty0 s) cs (view_of s)"
    and "screen_ok (fold term_putchar cs s)" "cursor_ok (tty0 (fold term_putchar cs s))"
    and "term_frame s (fold term_putchar cs s)"
proof -
  have g: "geometry_ok (tty0 s)" using assms(1) by (simp add: screen_ok_def)
  show "view_of (fold term_putchar cs s) = v_puts (tty0 s) cs (view_of s)"
    using fold_view [OF assms] by (simp add: v_puts_def)
  show f: "term_frame s (fold term_putchar cs s)" and "cursor_ok (tty0 (fold term_putchar cs s))"
    using tp.fold_put [OF g assms(2)] by simp_all
  show "screen_ok (fold term_putchar cs s)" by (rule frame_screen_ok [OF f assms(1)])
qed

text \<open>The keyboard handler shows exactly the characters it adds to the line.\<close>

lemma handler_echo:
  assumes ok: "kb_ok L s" and screen: "screen_ok s" and off: "off_view s (s_kb_buffer L) 256"
  shows "\<exists>es. kv_line (kb_view_of L (keyboard_handler dev L s)) = kv_line (kb_view_of L s) @ es
    \<and> view_of (keyboard_handler dev L s) = v_puts (tty0 s) es (view_of s)"
proof -
  let ?sc = "dev (io s) 0x60" and ?s1 = "s\<lparr>io := io s @ [In 0x60 (dev (io s) 0x60)]\<rparr>"
  let ?c = "kb_char (kb_shifted s \<noteq> 0) ?sc" and ?k = "keyboard_handler dev L s"
  have g: "geometry_ok (tty0 s)" "cursor_ok (tty0 s)" using ok by (simp_all add: kb_ok_def)
  have v1: "view_of (x\<lparr>io := l\<rparr>) = view_of x" "view_of (x\<lparr>kb_shifted := n\<rparr>) = view_of x"
    "view_of (x\<lparr>kb_buffer_pending := n\<rparr>) = view_of x" for x l n
    by (simp_all add: view_of_def Let_def fun_eq_iff)
  show ?thesis
  proof (cases "kb_printable ?sc")
    case True
    define s2 where "s2 = term_putchar ?c ?s1"
    define s3 where "s3 = (if ?sc = 0x1C then s2\<lparr>kb_buffer_pending := 1\<rparr> else s2)"
    have p: "view_of s2 = v_puts (tty0 s) [?c] (view_of s)" "term_frame ?s1 s2"
      using puts_view(1,4) [of ?s1 "[?c]"] screen g by (simp_all add: s2_def v1 screen_ok_def)
    have t3: "tty0 s3 = tty0 s2" "view_of s3 = view_of s2" "kb_i s3 = kb_i s2" by (simp_all add: s3_def v1)
    have geo: "same_geometry (tty0 s) (tty0 s3)" using p(2) t3 by (simp add: term_frame_def)
    have k: "?k = kb_add L ?c s3" using True by (simp add: handler_cases s2_def s3_def Let_def)
    have "kb_i s3 = kb_i s" using p(2) t3 by (simp add: term_frame_def rest_def)
    then have i: "inreg (s_kb_buffer L) 256 (s_kb_buffer L + kb_i s3)" using ok by (simp add: inreg_def kb_ok_def)
    have "view_of (kb_add L ?c s3) = view_of s3"
    proof (rule view_off)
      show "geometry_ok (tty0 s3)" using same_geometry_ok [OF geo] g by simp
      show "off_view s3 (s_kb_buffer L) 256" using off off_view_geometry [OF geo] by simp
      show "ram (kb_add L ?c s3) x = ram s3 x" if "\<not> inreg (s_kb_buffer L) 256 x" for x
        using that i by (auto simp: kb_add_def store8_def)
    qed (simp add: kb_add_def)
    then have "view_of ?k = v_puts (tty0 s) [?c] (view_of s)" using k t3(2) p(1) by simp
    moreover have "kv_line (kb_view_of L ?k) = kv_line (kb_view_of L s) @ [?c]"
      using handler_view [OF ok, of dev] True by (simp add: kb_step_def) (simp add: kb_view_of_def)
    ultimately show ?thesis by blast
  next
    case False
    then have "kv_line (kb_view_of L ?k) = kv_line (kb_view_of L s)"
      using handler_view [OF ok, of dev] by (simp add: kb_step_def)
    moreover have "view_of ?k = view_of s" using False by (simp add: handler_cases v1)
    ultimately show ?thesis by (intro exI [of _ "[]"]) simp
  qed
qed

section \<open>Interrupts that echo\<close>

text \<open>A source of interrupts that shows what it adds to the line, and nothing else.\<close>

locale echoing = typist +
  assumes step_echo: "kb_ok L s \<Longrightarrow> inv s \<Longrightarrow>
      \<exists>es. kv_line (kb_view_of L (step s)) = kv_line (kb_view_of L s) @ es
        \<and> view_of (step s) = v_puts (tty0 s) es (view_of s)"
begin

lemma after_echo:
  assumes "types ks s" and "n \<le> length ks"
  shows "\<exists>es. kv_line (kb_view_of L (after n s)) = kv_line (kb_view_of L s) @ es
    \<and> view_of (after n s) = v_puts (tty0 s) es (view_of s)"
  using assms(2)
proof (induction n)
  case 0
  show ?case by (intro exI [of _ "[]"]) simp
next
  case (Suc n)
  then obtain es where es: "kv_line (kb_view_of L (after n s)) = kv_line (kb_view_of L s) @ es"
    "view_of (after n s) = v_puts (tty0 s) es (view_of s)" by auto
  have ok: "kb_ok L (after n s)" "inv (after n s)" "same_geometry (tty0 s) (tty0 (after n s))"
    using after_view [OF assms(1), of n] Suc.prems by auto
  obtain ds where ds: "kv_line (kb_view_of L (step (after n s))) = kv_line (kb_view_of L (after n s)) @ ds"
    "view_of (step (after n s)) = v_puts (tty0 (after n s)) ds (view_of (after n s))"
    using step_echo [OF ok(1,2)] by blast
  then show ?case
    using es v_puts_geometry [OF ok(3)] by (intro exI [of _ "es @ ds"]) simp
qed

text \<open>A line that starts empty is on the screen when it ends, its line feed included.\<close>

lemma line_echo:
  assumes line: "line_typed ks cs sh s" and empty: "kv_line (kb_view_of L s) = []" "\<not> kv_enter (kb_view_of L s)"
  shows "view_of (after (length ks) s) = v_puts (tty0 s) (cs @ [10]) (view_of s)"
proof -
  obtain c where ends: "fold kb_step ks (kb_view_of L s) = \<lparr>kv_line = cs @ [c], kv_shift = sh, kv_enter = True\<rparr>"
    using line by (auto simp: line_typed_def)
  have first: "\<forall>k < length ks. \<not> kv_enter (fold kb_step (take k ks) (kb_view_of L s))"
    using line by (simp add: line_typed_def)
  have "kb_view_of L (after (length ks) s) = \<lparr>kv_line = cs @ [c], kv_shift = sh, kv_enter = True\<rparr>"
    using after_view [OF line_types [OF line], of "length ks"] ends by simp
  then show ?thesis
    using after_echo [OF line_types [OF line], of "length ks"] empty line_end [OF ends first empty(2)] by auto
qed

end

section \<open>A turn of the shell\<close>

text \<open>What a turn shows, and where things must lie for it.\<close>

definition answer_text :: "byte list \<Rightarrow> byte list" where
  "answer_text cs = (if cs = bytes_of ''test'' then bytes_of ''AYYYYYY\<newline>'' else cs)"

definition turn_text :: "byte list \<Rightarrow> byte list" where
  "turn_text cs = bytes_of ''\<newline>>>>'' @ cs @ [10] @ answer_text cs"

definition console_apart :: "syms \<Rightarrow> addr \<Rightarrow> kstate \<Rightarrow> bool" where
  "console_apart L buffer s \<longleftrightarrow> screen_ok s
     \<and> off_view s buffer 257 \<and> off_view s (s_kb_buffer L) 256 \<and> off_view s (s_literal L ''test'') 5
     \<and> sep (s_kb_buffer L) 256 buffer 257 \<and> sep (s_kb_buffer L) 256 (s_literal L ''test'') 5
     \<and> sep buffer 257 (s_literal L ''test'') 5
     \<and> unat buffer + 257 \<le> 4294967296 \<and> unat (s_kb_buffer L) + 256 \<le> 4294967296"

text \<open>Between two turns: the keyboard is empty and so is the buffer of the shell.\<close>

definition console_ready :: "syms \<Rightarrow> addr \<Rightarrow> kstate \<Rightarrow> bool" where
  "console_ready L buffer s \<longleftrightarrow> cursor_ok (tty0 s) \<and> kb_i s = 0 \<and> kb_buffer_pending s = 0
     \<and> cstr_at (ram s) (s_literal L ''test'') (bytes_of ''test'') \<and> (\<forall>i < 256. ram s (buffer + of_nat i) = 0)"

lemma console_kb_ok:
  "console_apart L buffer s \<Longrightarrow> console_ready L buffer s \<Longrightarrow> kb_ok L s"
  using off_view_screen [of s "s_kb_buffer L" 256]
  by (simp add: console_apart_def console_ready_def kb_ok_def screen_ok_def off_screen_def)

lemma console_apart_geometry:
  assumes "same_geometry (tty0 s) (tty0 s')"
  shows "console_apart L buffer s' = console_apart L buffer s"
proof -
  have "screen_ok s' = screen_ok s" using assms
    by (simp add: screen_ok_def same_geometry_def geometry_ok_def buffer_ok_def frame_bytes_def)
  then show ?thesis by (simp add: console_apart_def off_view_geometry [OF assms])
qed

text \<open>Readiness survives writes elsewhere.\<close>

lemma console_ready_kept:
  assumes "console_ready L buffer s" and "console_apart L buffer s" and "cursor_ok (tty0 s')"
    and "kb_i s' = 0" "kb_buffer_pending s' = 0"
    and "\<And>x. inreg buffer 257 x \<or> inreg (s_literal L ''test'') 5 x \<Longrightarrow> ram s' x = ram s x"
  shows "console_ready L buffer s'"
proof -
  have "cstr_at (ram s') (s_literal L ''test'') (bytes_of ''test'')"
    by (rule cstr_at_frame [of "ram s"]) (use assms(1,6) in \<open>simp_all add: console_ready_def numeral_eq_Suc\<close>)
  moreover have "ram s' (buffer + of_nat i) = 0" if "i < 256" for i
    using assms(1,6) that by (simp add: console_ready_def inreg_def unat_nth)
  ultimately show ?thesis using assms(3-5) by (simp add: console_ready_def)
qed

text \<open>
  After the prompt, the keys among the interrupts type the line \<open>cs\<close>, and the one that ends it is the last.
  A session is a list of lines typed one after the other, each when the shell is back at its prompt.
\<close>

definition line_keys :: "(kstate \<Rightarrow> kstate) \<Rightarrow> (kstate \<Rightarrow> byte) \<Rightarrow> syms \<Rightarrow> byte list \<Rightarrow> kstate \<Rightarrow> bool" where
  "line_keys step code L cs p \<longleftrightarrow> length cs < 256 \<and> 0 \<notin> set cs
     \<and> (\<exists>ks sh. (\<forall>k < length ks. code ((step ^^ k) p) = ks ! k)
        \<and> fold kb_step ks (kb_view_of L p) = \<lparr>kv_line = cs @ [10], kv_shift = sh, kv_enter = True\<rparr>
        \<and> (\<forall>k < length ks. \<not> kv_enter (fold kb_step (take k ks) (kb_view_of L p))))"

fun types_session :: "(kstate \<Rightarrow> kstate comp) \<Rightarrow> (kstate \<Rightarrow> kstate) \<Rightarrow> (kstate \<Rightarrow> byte) \<Rightarrow> syms \<Rightarrow> addr \<Rightarrow>
    byte list list \<Rightarrow> kstate \<Rightarrow> bool" where
  "types_session irq step code L buffer [] s \<longleftrightarrow> True"
| "types_session irq step code L buffer (cs # css) s \<longleftrightarrow> line_keys step code L cs (term_writelit ''\<newline>>>>'' s)
     \<and> (\<forall>s'. shell_turn irq L buffer s = ret s' \<longrightarrow> types_session irq step code L buffer css s')"

text \<open>A number of turns of the shell's loop; whatever the number, the loop goes on behind them.\<close>

primrec shell_turns :: "(kstate \<Rightarrow> kstate comp) \<Rightarrow> syms \<Rightarrow> addr \<Rightarrow> nat \<Rightarrow> kstate \<Rightarrow> kstate comp" where
  "shell_turns irq L buffer 0 s = ret s"
| "shell_turns irq L buffer (Suc n) s = bindc (shell_turn irq L buffer s) (shell_turns irq L buffer n)"

lemma shell_turns_shell: "shell irq L buffer s = bindc (shell_turns irq L buffer n s) (shell irq L buffer)"
proof (induction n arbitrary: s)
  case (Suc n)
  show ?case
    by (subst shell.simps) (simp add: bindc_assoc flip: Suc)
qed simp

locale console = echoing +
  fixes buffer :: addr
  assumes apart: "inv s \<Longrightarrow> console_apart L buffer s"
    and scratch_apart: "inv s \<Longrightarrow> scratch x \<Longrightarrow> \<not> inreg buffer 257 x \<and> \<not> inreg (s_literal L ''test'') 5 x"
    and inv_kept: "inv s \<Longrightarrow> same_geometry (tty0 s) (tty0 s') \<Longrightarrow> t_hz s' = t_hz s \<Longrightarrow>
      (\<And>x. \<not> in_frame (tty0 s) x \<Longrightarrow> \<not> inreg (s_kb_buffer L) 256 x \<Longrightarrow> \<not> inreg buffer 257 x \<Longrightarrow> ram s' x = ram s x) \<Longrightarrow>
      inv s'"
begin

lemma puts_ready:
  fixes cs
  assumes "inv s" and "console_ready L buffer s"
  defines "p \<equiv> fold term_putchar cs s"
  shows "inv p" "console_ready L buffer p" "view_of p = v_puts (tty0 s) cs (view_of s)"
    and "same_geometry (tty0 s) (tty0 p)"
proof -
  note ap = apart [OF assms(1)]
  have sc: "screen_ok s" "cursor_ok (tty0 s)" using ap assms(2) by (simp_all add: console_apart_def console_ready_def)
  note pv = puts_view [OF sc, of cs, folded p_def]
  show "view_of p = v_puts (tty0 s) cs (view_of s)" by (rule pv(1))
  show g: "same_geometry (tty0 s) (tty0 p)" using pv(4) by (simp add: term_frame_def)
  have r: "t_hz p = t_hz s" "kb_i p = kb_i s" "kb_buffer_pending p = kb_buffer_pending s"
    using pv(4) by (simp_all add: term_frame_def rest_def)
  show "inv p" by (rule inv_kept [OF assms(1) g r(1)]) (use pv(4) in \<open>simp add: term_frame_def\<close>)
  have "\<not> in_frame (tty0 s) x" if "inreg buffer 257 x \<or> inreg (s_literal L ''test'') 5 x" for x
    using that ap off_view_screen off_screenD unfolding console_apart_def by blast
  then show "console_ready L buffer p"
    using pv(3,4) assms(2) r by (intro console_ready_kept [OF assms(2) ap]) (auto simp: console_ready_def term_frame_def)
qed

text \<open>Taking the line and clearing the buffer, from the state in which the line has ended.\<close>

lemma take_ready:
  assumes line: "line_typed ks cs sh p" and p: "inv p" "console_ready L buffer p"
  defines "q \<equiv> kb_take L buffer (after (length ks) p)"
  shows "inv q" "screen_ok q" "cursor_ok (tty0 q)" "kb_i q = 0" "kb_buffer_pending q = 0"
    and "view_of q = v_puts (tty0 p) (cs @ [10]) (view_of p)" "same_geometry (tty0 p) (tty0 q)"
    and "cstr_at (ram q) (s_literal L ''test'') (bytes_of ''test'')"
proof -
  let ?t = "after (length ks) p"
  note av = after_view [OF line_types [OF line], of "length ks"]
  have t: "same_geometry (tty0 p) (tty0 ?t)" "cursor_ok (tty0 ?t)" "inv ?t" using av by simp_all
  have ap: "console_apart L buffer p" "console_apart L buffer ?t" using apart p(1) t(3) by blast+
  have q: "tty0 q = tty0 ?t" "t_hz q = t_hz ?t" "kb_i q = 0" "kb_buffer_pending q = 0"
    by (simp_all add: q_def kb_take_def clear_kb_buffer_def)
  then show "kb_i q = 0" "kb_buffer_pending q = 0" by simp_all
  have out: "ram q x = ram ?t x" if "\<not> inreg (s_kb_buffer L) 256 x" "\<not> inreg buffer 257 x" for x
    unfolding q_def by (rule line_taken [OF line that])
  show "same_geometry (tty0 p) (tty0 q)" using t(1) q(1) by simp
  show "screen_ok q" "cursor_ok (tty0 q)"
    using ap(2) t(2) q(1) by (simp_all add: console_apart_def screen_ok_def)
  show "inv q" by (rule inv_kept [OF t(3)]) (use q out in \<open>simp_all add: same_geometry_def\<close>)
  have "view_of q = view_of ?t"
  proof (rule view_kept)
    show "geometry_ok (tty0 ?t)" using ap(2) by (simp add: console_apart_def screen_ok_def)
    fix x
    assume "inreg (t_buffer (tty0 ?t)) (frame_bytes (tty0 ?t) + 2 * unat (t_width (tty0 ?t))) x"
    then show "ram q x = ram ?t x"
      using out ap(2) sep_notin sep_sym unfolding console_apart_def off_view_def by metis
  qed (rule q(1))
  also have "\<dots> = v_puts (tty0 p) (cs @ [10]) (view_of p)"
    using p(2) by (intro line_echo [OF line]) (simp_all add: console_ready_def kb_view_of_def)
  finally show "view_of q = v_puts (tty0 p) (cs @ [10]) (view_of p)" .
  have lit: "cstr_at (ram p) (s_literal L ''test'') (bytes_of ''test'')" using p(2) by (simp add: console_ready_def)
  have keep: "ram q x = ram p x" if x: "inreg (s_literal L ''test'') 5 x" for x
  proof -
    have "\<not> in_frame (tty0 p) x" "\<not> inreg (s_kb_buffer L) 256 x" "\<not> inreg buffer 257 x"
      using x ap(1) off_view_screen off_screenD sep_notin unfolding console_apart_def by blast+
    moreover have "\<not> scratch x" using scratch_apart [OF p(1)] x by blast
    ultimately show ?thesis using out [of x] line_after [OF line, of x] by auto
  qed
  show "cstr_at (ram q) (s_literal L ''test'') (bytes_of ''test'')"
    by (rule cstr_at_frame [OF lit], rule keep) (simp add: numeral_eq_Suc)
qed

lemma turn:
  assumes s: "inv s" "console_ready L buffer s" and p: "p = term_writelit ''\<newline>>>>'' s"
    and line: "line_typed ks cs sh p" and chars: "0 \<notin> set cs"
  shows "\<exists>s'. shell_turn irq L buffer s = ret s' \<and> inv s' \<and> console_ready L buffer s'
    \<and> view_of s' = v_puts (tty0 s) (turn_text cs) (view_of s) \<and> same_geometry (tty0 s) (tty0 s')"
proof -
  let ?q = "kb_take L buffer (after (length ks) p)"
  let ?a = "fold term_putchar (answer_text cs) ?q" and ?m = "mem_set buffer 0 256"
  have five: "Suc (length ''test'') = 5" by simp
  note pr = puts_ready [OF s, of "bytes_of ''\<newline>>>>''", folded term_writelit_def, folded p]
  note ap = apart [OF pr(1)]
  note tk = take_ready [OF line pr(1,2)]
  have n: "length cs < 256" by (rule line_length [OF line])
  have "ram p (buffer + of_nat (length cs)) = 0" using pr(2) n by (simp add: console_ready_def)
  moreover have "literal_safe L p buffer ''test''"
    using ap pr(2) off_view_screen unfolding literal_safe_def console_apart_def console_ready_def five by blast
  moreover have "off_screen p buffer 257" using ap off_view_screen unfolding console_apart_def by blast
  ultimately have "shell_turn irq L buffer s = ret (with_ram ?m (if cs = bytes_of ''test''
      then term_writelit ''AYYYYYY\<newline>'' ?q else fold term_putchar cs ?q))"
    using answers [OF p line chars, of buffer] ap scratch_apart [OF pr(1)] unfolding console_apart_def by blast
  then have run: "shell_turn irq L buffer s = ret (with_ram ?m ?a)"
    by (simp add: answer_text_def term_writelit_def)
  note a = puts_view [OF tk(2,3), of "answer_text cs"]
  have aq: "console_apart L buffer ?q" using console_apart_geometry [OF tk(7)] ap by simp
  have ga: "same_geometry (tty0 ?q) (tty0 ?a)" using a(4) by (simp add: term_frame_def)
  then have aa: "console_apart L buffer ?a" using console_apart_geometry [OF ga] aq by simp
  have ra: "t_hz ?a = t_hz ?q" "kb_i ?a = 0" "kb_buffer_pending ?a = 0"
    using a(4) tk(4,5) by (simp_all add: term_frame_def rest_def)
  have ms: "?m m x = m x" if "\<not> inreg buffer 257 x" for m x
    using that inreg_mono [of buffer 256 x 257] by (auto simp: mem_set_filled filled_def)
  have "inv (with_ram ?m ?a)"
    by (rule inv_kept [OF tk(1)]) (use ga ra ms a(4) in \<open>simp_all add: term_frame_def\<close>)
  moreover have "console_ready L buffer (with_ram ?m ?a)"
  proof -
    have "ram (with_ram ?m ?a) x = ram ?q x" if x: "inreg (s_literal L ''test'') 5 x" for x
    proof -
      have "\<not> inreg buffer 257 x" "\<not> in_frame (tty0 ?q) x"
        using aq off_view_screen off_screenD x sep_notin unfolding console_apart_def by blast+
      then show ?thesis using ms a(4) by (simp add: term_frame_def)
    qed
    then have "cstr_at (ram (with_ram ?m ?a)) (s_literal L ''test'') (bytes_of ''test'')"
      by (intro cstr_at_frame [OF tk(8)]) (simp add: numeral_eq_Suc)
    moreover have "ram (with_ram ?m ?a) (buffer + of_nat i) = 0" if "i < 256" for i
      using that by (simp add: mem_set_filled filled_def inreg_def unat_nth)
    ultimately show ?thesis using a(3) ra by (simp add: console_ready_def)
  qed
  moreover have "view_of (with_ram ?m ?a) = v_puts (tty0 s) (turn_text cs) (view_of s)"
  proof -
    have "view_of (with_ram ?m ?a) = view_of ?a"
      by (rule view_off [of _ _ buffer 257]) (use aa ms in \<open>simp_all add: console_apart_def screen_ok_def\<close>)
    also have "\<dots> = v_puts (tty0 s) (answer_text cs)
        (v_puts (tty0 s) (cs @ [10]) (v_puts (tty0 s) (bytes_of ''\<newline>>>>'') (view_of s)))"
      unfolding a(1) tk(6) pr(3) v_puts_geometry [OF tk(7)] v_puts_geometry [OF pr(4)] ..
    finally show ?thesis by (simp add: turn_text_def v_puts_def)
  qed
  moreover have "same_geometry (tty0 s) (tty0 (with_ram ?m ?a))"
    using geometry_trans [OF pr(4) geometry_trans [OF tk(7) ga]] by simp
  ultimately show ?thesis using run by blast
qed

lemma session:
  "inv s \<Longrightarrow> console_ready L buffer s \<Longrightarrow> types_session irq step code L buffer css s \<Longrightarrow>
     \<exists>s'. shell_turns irq L buffer (length css) s = ret s' \<and> inv s' \<and> console_ready L buffer s'
       \<and> view_of s' = v_puts (tty0 s) (concat (map turn_text css)) (view_of s) \<and> same_geometry (tty0 s) (tty0 s')"
proof (induction css arbitrary: s)
  case Nil
  then show ?case by (intro exI [of _ s]) (simp add: same_geometry_def)
next
  case (Cons cs css)
  let ?p = "term_writelit ''\<newline>>>>'' s"
  have lk: "line_keys step code L cs ?p" using Cons.prems(3) by simp
  note pr = puts_ready [OF Cons.prems(1,2), of "bytes_of ''\<newline>>>>''", folded term_writelit_def]
  have "kb_ok L ?p" by (rule console_kb_ok [OF apart [OF pr(1)] pr(2)])
  then obtain ks sh where line: "line_typed ks cs sh ?p" "0 \<notin> set cs"
    using lk pr(1) by (auto simp: line_keys_def line_typed_def)
  obtain s1 where s1: "shell_turn irq L buffer s = ret s1" "inv s1" "console_ready L buffer s1"
    "view_of s1 = v_puts (tty0 s) (turn_text cs) (view_of s)" "same_geometry (tty0 s) (tty0 s1)"
    using turn [OF Cons.prems(1,2) refl line] by blast
  have "types_session irq step code L buffer css s1" using Cons.prems(3) s1(1) by simp
  from Cons.IH [OF s1(2,3) this] obtain s' where s': "shell_turns irq L buffer (length css) s1 = ret s'" "inv s'"
    "console_ready L buffer s'" "view_of s' = v_puts (tty0 s1) (concat (map turn_text css)) (view_of s1)"
    "same_geometry (tty0 s1) (tty0 s')" by blast
  have "shell_turns irq L buffer (length (cs # css)) s = ret s'" using s1(1) s'(1) by simp
  moreover have "view_of s' = v_puts (tty0 s) (concat (map turn_text (cs # css))) (view_of s)"
    unfolding s'(4) s1(4) v_puts_geometry [OF s1(5)] by simp
  ultimately show ?case using s' geometry_trans [OF s1(5) s'(5)] by metis
qed

end

section \<open>The dispatch of the kernel\<close>

definition desk_ready :: "syms \<Rightarrow> addr \<Rightarrow> (kstate \<Rightarrow> mem) \<Rightarrow> addr \<Rightarrow> kstate \<Rightarrow> bool" where
  "desk_ready L r save buffer s \<longleftrightarrow> hw_ready L r save s \<and> console_apart L buffer s \<and> off_view s r 76
     \<and> sep buffer 257 r 76 \<and> sep (s_literal L ''test'') 5 r 76 \<and> sep buffer 257 (s_irq_routines L) 8"

lemma hw_echo:
  assumes ok: "kb_ok L s" and desk: "desk_ready L r save buffer s"
  shows "\<exists>es. kv_line (kb_view_of L (hw_step dev L r save s)) = kv_line (kb_view_of L s) @ es
    \<and> view_of (hw_step dev L r save s) = v_puts (tty0 s) es (view_of s)"
proof -
  let ?s1 = "s\<lparr>ram := save s\<rparr>"
  have ready: "hw_ready L r save s" and ap: "console_apart L buffer s" and r: "off_view s r 76"
    using desk by (simp_all add: desk_ready_def)
  note sv = hw_saved [OF ok ready]
  have v1: "view_of ?s1 = view_of s"
    by (rule view_off [OF _ _ r]) (use ap sv(4) in \<open>auto simp: console_apart_def screen_ok_def\<close>)
  have same: "view_of (outb p v x) = view_of x" "view_of (x\<lparr>uptime := n\<rparr>) = view_of x"
    "kb_view_of L (outb p v x) = kb_view_of L x" "kb_view_of L (x\<lparr>uptime := n\<rparr>) = kb_view_of L x" for p v n x
    by (simp_all add: outb_def view_of_def Let_def kb_view_of_def fun_eq_iff)
  have "screen_ok ?s1" "off_view ?s1 (s_kb_buffer L) 256" using ap by (simp_all add: console_apart_def screen_ok_def off_view_def)
  from handler_echo [OF sv(1) this, of dev] obtain es where
    "kv_line (kb_view_of L (keyboard_handler dev L ?s1)) = kv_line (kb_view_of L ?s1) @ es"
    "view_of (keyboard_handler dev L ?s1) = v_puts (tty0 ?s1) es (view_of ?s1)" by blast
  then show ?thesis
    using v1 sv(2) by (intro exI [of _ "if regs_int_no (save s) r = 32 then [] else es"]) (simp add: hw_step_def same)
qed

interpretation desk: console L "hw_irq dev L r save" "hw_step dev L r save" "hw_code dev r save"
    "desk_ready L r save buffer" "inreg r 76" buffer for L dev r save buffer
proof
  fix s x
  assume ok: "kb_ok L s" and desk: "desk_ready L r save buffer s"
  then have ready: "hw_ready L r save s" by (simp add: desk_ready_def)
  show "hw_irq dev L r save s = ret (hw_step dev L r save s)"
    "kb_view_of L (hw_step dev L r save s) = kb_step (hw_code dev r save s) (kb_view_of L s)"
    "cursor_ok (tty0 (hw_step dev L r save s)) \<and> unat (kb_i (hw_step dev L r save s)) \<le> Suc (unat (kb_i s))"
    by (rule hw.irq_step hw.step_view hw.step_ok, rule ok, rule ready)+
  show geo: "same_geometry (tty0 s) (tty0 (hw_step dev L r save s))" by (rule hw.step_geometry [OF ok ready])
  show "\<not> in_frame (tty0 s) x \<Longrightarrow> \<not> inreg (s_kb_buffer L) 256 x \<Longrightarrow> \<not> inreg r 76 x \<Longrightarrow>
      ram (hw_step dev L r save s) x = ram s x"
    by (rule hw.step_frame [OF ok ready])
  show "desk_ready L r save buffer (hw_step dev L r save s)"
    using desk hw.step_inv [OF ok ready]
    by (simp add: desk_ready_def console_apart_geometry [OF geo] off_view_geometry [OF geo])
  show "\<exists>es. kv_line (kb_view_of L (hw_step dev L r save s)) = kv_line (kb_view_of L s) @ es
    \<and> view_of (hw_step dev L r save s) = v_puts (tty0 s) es (view_of s)"
    by (rule hw_echo [OF ok desk])
next
  fix s s' :: kstate and x
  assume desk: "desk_ready L r save buffer s"
  then show "console_apart L buffer s" by (simp add: desk_ready_def)
  show "inreg r 76 x \<Longrightarrow> \<not> inreg buffer 257 x \<and> \<not> inreg (s_literal L ''test'') 5 x"
    using desk sep_notin unfolding desk_ready_def by blast
  assume geo: "same_geometry (tty0 s) (tty0 s')" and hz: "t_hz s' = t_hz s"
    and same: "\<And>x. \<not> in_frame (tty0 s) x \<Longrightarrow> \<not> inreg (s_kb_buffer L) 256 x \<Longrightarrow> \<not> inreg buffer 257 x \<Longrightarrow> ram s' x = ram s x"
  have ready: "hw_ready L r save s" using desk by (simp add: desk_ready_def)
  have "ram s' x = ram s x" if "inreg (s_irq_routines L) 8 x" for x
    using that desk same [of x] off_screenD sep_notin unfolding desk_ready_def hw_ready_def by blast
  then have "handlers_in L s'" using handlers_local [of L s s'] ready hz by (simp add: hw_ready_def)
  moreover have "off_screen s' a n = off_screen s a n" for a n
    using geo by (simp add: off_screen_def same_geometry_def frame_bytes_def)
  ultimately show "desk_ready L r save buffer s'"
    using desk by (simp add: desk_ready_def hw_ready_def console_apart_geometry [OF geo] off_view_geometry [OF geo])
qed

section \<open>From power-on\<close>

text \<open>Nothing the session touches lies in the row below the screen either, and nothing in the table of handlers.\<close>

definition session_layout :: "syms \<Rightarrow> addr \<Rightarrow> addr \<Rightarrow> addr \<Rightarrow> bool" where
  "session_layout L t r buffer \<longleftrightarrow> shell_layout L t r buffer
     \<and> list_all (\<lambda>q. sep 0xB8000 4160 (fst q) (snd q)) (shell_regions L r buffer)"

lemma desk_booted:
  assumes lay: "session_layout L t r buffer" and w: "writes (boot_writes L t) {..<14} (ram s) (ram s')" and up: "screen_up s'"
    and dev: "devices_ready L s'" and keys: "keys_of s' = (0, 0, 0)" and save: "saves_regs r save"
    and fs: "f_timer_handler L \<noteq> 0" "f_keyboard_handler L \<noteq> 0" "f_timer_handler L \<noteq> f_keyboard_handler L"
    and lit: "cstr_at (ram s) (s_literal L ''test'') (bytes_of ''test'')"
    and cleared: "\<forall>i < 256. ram s (buffer + of_nat i) = 0"
  shows "desk_ready L r save buffer s'" "console_ready L buffer s'"
proof -
  have shell: "shell_layout L t r buffer" and row: "sep 0xB8000 4160 (s_kb_buffer L) 256" "sep 0xB8000 4160 buffer 257"
    "sep 0xB8000 4160 r 76" "sep 0xB8000 4160 (s_literal L ''test'') 5"
    using lay by (simp_all add: session_layout_def shell_regions_def)
  note ap = shell_apart [OF shell]
  have scr: "t_buffer (tty0 s') = 0xB8000" "frame_bytes (tty0 s') = 4000" "t_width (tty0 s') = 80" "geometry_ok (tty0 s')"
    "cursor_ok (tty0 s')"
    using up by (simp_all add: screen_up_def)
  have ov: "off_view s' a n = sep 0xB8000 4160 a n" "off_screen s' a n = sep 0xB8000 4000 a n" for a n
    by (simp_all add: off_view_def off_screen_def scr)
  have irq: "sep buffer 257 (s_irq_routines L) 64"
    using shell by (simp add: shell_layout_def apart_append shell_regions_def boot_writes_def sep_sym)
  have "screen_ok s'" using scr by (simp add: screen_ok_def buffer_ok_def)
  then have ca: "console_apart L buffer s'"
    using row ap shell by (simp add: console_apart_def ov shell_layout_def)
  have "handlers_in L s'" using dev fs by (simp add: handlers_in_def devices_ready_def)
  then have "hw_ready L r save s'"
    using save ap sep_shrink [OF ap(11), of 4000 8] sep_shrink [OF ap(12), of 8 256] sep_shrink [OF ap(13), of 8 76]
    by (simp add: hw_ready_def ov sep_sym)
  then show "desk_ready L r save buffer s'"
    using ca row ap sep_shrink [OF irq, of 257 8] by (simp add: desk_ready_def ov sep_sym)
  have keep: "ram s' x = ram s x" if "q \<in> set (shell_regions L r buffer)" "within q x" for q x
    using writes_read [OF w, of "fst q" "snd q" x] shell that by (auto simp: shell_layout_def apart_append within_def)
  have "ram s' x = ram s x" if "inreg (s_literal L ''test'') 5 x" for x
    using keep [of "(s_literal L ''test'', 5)" x] that by (simp add: shell_regions_def within_def)
  then have "cstr_at (ram s') (s_literal L ''test'') (bytes_of ''test'')"
    by (intro cstr_at_frame [OF lit]) (simp add: numeral_eq_Suc)
  moreover have "ram s' (buffer + of_nat i) = 0" if "i < 256" for i
    using keep [of "(buffer, 257)" "buffer + of_nat i"] cleared that
    by (simp add: shell_regions_def within_def inreg_def unat_nth)
  ultimately show "console_ready L buffer s'"
    using scr(5) keys by (simp add: console_ready_def keys_of_def)
qed

text \<open>
  A whole session from the entry of \<open>cmain\<close>: the kernel boots, and then, with ticks and keys arriving in any
  order through the dispatch of the kernel, every line that is typed is served by a turn of the shell.
\<close>

lemma booted_session:
  assumes layout: "boot_layout L mbd as t" and map: "usable_map (ram s) mbd as"
    and block: "t = heap_start (ram s) as + heap_left (ram s) as" and digits: "digits_ready L (ram s)"
    and lay: "session_layout L t r buffer" and save: "saves_regs r save" and cold: "keys_of s = (0, 0, 0)"
    and fs: "f_timer_handler L \<noteq> 0" "f_keyboard_handler L \<noteq> 0" "f_timer_handler L \<noteq> f_keyboard_handler L"
    and lit: "cstr_at (ram s) (s_literal L ''test'') (bytes_of ''test'')"
    and cleared: "\<forall>i < 256. ram s (buffer + of_nat i) = 0"
    and booted: "boot dev L mbd s = ret s0"
    and typed: "types_session (hw_irq dev L r save) (hw_step dev L r save) (hw_code dev r save) L buffer css s0"
  shows "\<exists>s'. shell_turns (hw_irq dev L r save) L buffer (length css) s0 = ret s'
    \<and> console_ready L buffer s' \<and> hw_ready L r save s'
    \<and> view_of s' = fold (v_putchar 80 25 7) (concat (map turn_text css)) (view_of s0)"
proof -
  have b: "screen_up s0" "devices_ready L s0" "keys_of s0 = (0, 0, 0)" "writes (boot_writes L t) {..<14} (ram s) (ram s0)"
    using boot_done [OF layout map block digits, of dev] booted cold by auto
  from desk.session [OF desk_booted [OF lay b(4,1,2,3) save fs lit cleared] typed]
  obtain s' where s': "shell_turns (hw_irq dev L r save) L buffer (length css) s0 = ret s'"
    "desk_ready L r save buffer s'" "console_ready L buffer s'"
    "view_of s' = v_puts (tty0 s0) (concat (map turn_text css)) (view_of s0)" by blast
  then show ?thesis
    using b(1) by (intro exI [of _ s']) (simp add: desk_ready_def v_puts_def screen_up_def)
qed

text \<open>
  On the sample machine: a tick, then Enter, and Enter again at the second prompt.
\<close>

lemma sample_session_layout: "session_layout sample_syms 0x8FFBF0 0x7000 0x200000"
  using sample_shell_layout
  by (simp add: session_layout_def shell_regions_def sample_literal_def sample_literals_def sep_simps)

lemma sample_shell_cleared: "\<forall>i < 256. sample_shell (0x200000 + of_nat i) = 0"
proof (intro allI impI)
  fix i :: nat
  assume i: "i < 256"
  have s: "sep a n 0x200000 256 \<Longrightarrow> \<not> inreg a n (0x200000 + of_nat i)" for a n
    using sep_notin in_buffer [OF i] by blast
  show "sample_shell (0x200000 + of_nat i) = 0"
    by (simp add: sample_shell_def sample_boot_def sample_map_def c32.st_outside c64.st_outside s sep_simps)
qed

lemma sample_keys:
  fixes p :: kstate
  assumes "kb_i p = 0" and "kb_buffer_pending p = 0"
  defines "dev \<equiv> (\<lambda>_ _. 0x1C) :: device"
  shows "line_keys (hw_step dev sample_syms 0x7000 sample_save) (hw_code dev 0x7000 sample_save) sample_syms [] p"
proof -
  have v: "kb_view_of sample_syms p = \<lparr>kv_line = [], kv_shift = kb_shifted p \<noteq> 0, kv_enter = False\<rparr>"
    using assms(1,2) by (simp add: kb_view_of_def)
  have st: "kb_step 0 v = v" "kb_step 0x1C v = v\<lparr>kv_line := kv_line v @ [10], kv_enter := True\<rparr>" for v
    by (simp_all add: kb_step_def kb_printable_def kb_char_def kbdus_def kbdus_shifted_def)
  show ?thesis
  proof (cases "uptime p = 0")
    case True
    then show ?thesis unfolding line_keys_def v
      by (intro conjI exI [of _ "[0, 0x1C]"] exI [of _ "kb_shifted p \<noteq> 0"])
        (simp_all add: All_less_Suc hw_code_def hw_step_def sample_saves outb_def st dev_def)
  next
    case False
    then show ?thesis unfolding line_keys_def v
      by (intro conjI exI [of _ "[0x1C]"] exI [of _ "kb_shifted p \<noteq> 0"])
        (simp_all add: hw_code_def sample_saves st dev_def)
  qed
qed

lemma sample_session:
  fixes s :: kstate
  defines "dev \<equiv> (\<lambda>_ _. 0x1C) :: device"
  assumes "desk_ready sample_syms 0x7000 sample_save 0x200000 s" and "console_ready sample_syms 0x200000 s"
  shows "types_session (hw_irq dev sample_syms 0x7000 sample_save) (hw_step dev sample_syms 0x7000 sample_save)
    (hw_code dev 0x7000 sample_save) sample_syms 0x200000 (replicate n []) s"
  using assms(2,3)
proof (induction n arbitrary: s)
  case (Suc n)
  let ?p = "term_writelit ''\<newline>>>>'' s"
  note pr = desk.puts_ready [OF Suc.prems, of "bytes_of ''\<newline>>>>''", folded term_writelit_def]
  have k: "kb_i ?p = 0" "kb_buffer_pending ?p = 0" using pr(2) by (simp_all add: console_ready_def)
  note keys = sample_keys [OF k, folded dev_def]
  have "console_apart sample_syms 0x200000 ?p" using pr(1) by (simp add: desk_ready_def)
  from console_kb_ok [OF this pr(2)] obtain ks sh where
    line: "desk.line_typed sample_syms dev 0x7000 sample_save 0x200000 ks [] sh ?p"
    using keys pr(1) by (auto simp: line_keys_def desk.line_typed_def)
  show ?case
    using desk.turn [OF Suc.prems refl line] keys Suc.IH by auto
qed simp

end
