(* ===== verification/Start.thy ===== *)
theory Start
  imports Session Task
begin

text \<open>
  Before \<^verbatim>\<open>cmain\<close>: the header by which a boot loader knows the image, and the entry point \<^verbatim>\<open>_start\<close>, which
  makes the stack and passes on what the loader left in a register (\<^verbatim>\<open>boot.S\<close>).
\<close>

section \<open>The header\<close>

text \<open>\<open>MAGIC\<close>, \<open>FLAGS\<close> and \<open>CHECKSUM\<close> of \<^verbatim>\<open>boot.S\<close>, and the three words of its first section.\<close>

definition ALIGN :: "32 word" where "ALIGN = push_bit 0 1"
definition MEMINFO :: "32 word" where "MEMINFO = push_bit 1 1"
definition FLAGS :: "32 word" where "FLAGS = ALIGN OR MEMINFO"
definition MAGIC :: "32 word" where "MAGIC = 0x1BADB002"
definition CHECKSUM :: "32 word" where "CHECKSUM = - (MAGIC + FLAGS)"

definition boot_header :: "addr \<Rightarrow> mem \<Rightarrow> mem" where
  "boot_header p m =
     (let m = store32 m p MAGIC;
          m = store32 m (p + 4) FLAGS
      in store32 m (p + 8) CHECKSUM)"

lemmas header_consts = ALIGN_def MEMINFO_def FLAGS_def MAGIC_def CHECKSUM_def
  MULTIBOOT_HEADER_MAGIC_def MULTIBOOT_PAGE_ALIGN_def MULTIBOOT_MEMORY_INFO_def MULTIBOOT_VIDEO_MODE_def MULTIBOOT_AOUT_KLUDGE_def

text \<open>
  The image is recognised, asks for the memory map and for modules on page boundaries, and promises neither
  addresses nor a video mode.
\<close>

lemma boot_header_ok:
  fixes p m
  defines "h \<equiv> multiboot_header_at (boot_header p m) p"
  shows "header_valid h" "mh_flags h = MULTIBOOT_PAGE_ALIGN OR MULTIBOOT_MEMORY_INFO"
    "mh_flags h AND (MULTIBOOT_VIDEO_MODE OR MULTIBOOT_AOUT_KLUDGE) = 0"
  by (simp_all add: h_def header_valid_def multiboot_header_at_def boot_header_def header_consts mem_simps sep_simps)

section \<open>The entry point\<close>

text \<open>
  \<open>stack\<close> is the end of the 16 KiB of \<^verbatim>\<open>.bootstrap_stack\<close>, \<open>retn\<close> the address behind the call. \<^verbatim>\<open>cmain\<close> finds its
  argument above the return address. Should it return, the processor is halted for good.
\<close>

text \<open>The argument and the state with which \<^verbatim>\<open>cmain\<close> is called; then the whole of \<^verbatim>\<open>_start\<close>.\<close>

definition start_call :: "addr \<Rightarrow> addr \<Rightarrow> cpu \<Rightarrow> kstate \<Rightarrow> addr \<times> kstate" where
  "start_call stack retn c s =
     (let c = c\<lparr>esp := stack\<rparr>;
          c = c\<lparr>esp := esp c - 4\<rparr>;
          m = store32 (ram s) (esp c) (ebx c);
          c = c\<lparr>esp := esp c - 4\<rparr>;
          m = store32 m (esp c) retn
      in (load32 m (esp c + 4), s\<lparr>ram := m\<rparr>))"

definition start :: "device \<Rightarrow> (kstate \<Rightarrow> kstate comp) \<Rightarrow> syms \<Rightarrow> addr \<Rightarrow> addr \<Rightarrow> addr \<Rightarrow> cpu \<Rightarrow> kstate \<Rightarrow> kstate comp" where
  "start dev irq L buffer stack retn c s =
     (case start_call stack retn c s of (mbd, s) \<Rightarrow> bindc (cmain dev irq L buffer mbd s) (\<lambda>_. None))"

text \<open>
  The run of \<^verbatim>\<open>_start\<close> up to the end of the \<open>n\<close>th turn of the shell: whether it gets there, and in which
  state. All of \<open>start\<close> is this part and what the loop does behind it, whatever \<open>n\<close> is.
\<close>

definition start_turns ::
  "device \<Rightarrow> (kstate \<Rightarrow> kstate comp) \<Rightarrow> syms \<Rightarrow> addr \<Rightarrow> addr \<Rightarrow> addr \<Rightarrow> cpu \<Rightarrow> nat \<Rightarrow> kstate \<Rightarrow> kstate comp" where
  "start_turns dev irq L buffer stack retn c n s =
     (case start_call stack retn c s of (mbd, s) \<Rightarrow> bindc (boot dev L mbd s) (shell_turns irq L buffer n))"

lemma start_split:
  "start dev irq L buffer stack retn c s = bindc (start_turns dev irq L buffer stack retn c n s) (shell irq L buffer)"
proof -
  have "bindc (cmain dev irq L buffer b s') (\<lambda>_. None) = cmain dev irq L buffer b s'" for b s'
    using cmain_no_return [of dev irq L buffer b s'] by (auto simp: bindc_def split: option.splits sum.splits)
  moreover have "cmain dev irq L buffer b s' = bindc (bindc (boot dev L b s') (shell_turns irq L buffer n)) (shell irq L buffer)" for b s'
    unfolding cmain_def bindc_assoc using shell_turns_shell by (metis (no_types))
  ultimately show ?thesis by (simp add: start_def start_turns_def split: prod.split)
qed

text \<open>The state \<^verbatim>\<open>cmain\<close> is entered with.\<close>

definition entered :: "addr \<Rightarrow> addr \<Rightarrow> cpu \<Rightarrow> kstate \<Rightarrow> kstate" where
  "entered stack retn c s = s\<lparr>ram := store32 (store32 (ram s) (stack - 4) (ebx c)) (stack - 8) retn\<rparr>"

lemma entered_simps [simp]:
  "keys_of (entered stack retn c s) = keys_of s"
  by (simp add: entered_def keys_of_def)

lemma entered_frame: "\<not> inreg (stack - 8) 8 x \<Longrightarrow> ram (entered stack retn c s) x = ram s x"
proof -
  assume "\<not> inreg (stack - 8) 8 x"
  then have "\<not> inreg (stack - 8) 4 x" "\<not> inreg (stack - 4) 4 x"
    using inreg_mono [of "stack - 8" 4 x 8] inreg_sub [of "stack - 8" 4 4 x 8] by auto
  then show ?thesis by (simp add: entered_def c32.st_outside)
qed

lemma start_enters: "start_call stack retn c s = (ebx c, entered stack retn c s)"
proof -
  have "sep (stack - 8) 4 (stack - 4) 4" using sep_same_base_left [of "stack - 8" 4 4 4] by (simp add: sep_simps)
  then have "load32 (store32 (store32 (ram s) (stack - 4) (ebx c)) (stack - 8) retn) (stack - 4) = ebx c"
    by (simp add: mem_simps)
  then show ?thesis by (simp add: start_call_def entered_def)
qed

section \<open>From the entry point\<close>

text \<open>The two words pushed lie apart from what the boot sequence and the shell read.\<close>

definition stack_clear :: "syms \<Rightarrow> addr \<Rightarrow> addr list \<Rightarrow> addr \<Rightarrow> addr \<Rightarrow> bool" where
  "stack_clear L mbd as buffer stack \<longleftrightarrow> list_all (\<lambda>q. sep (stack - 8) 8 (fst q) (snd q))
     ((mbd, 52) # (s_itoa_buf L + 65, 1) # (s_zero L, 2) # (s_literal L ''test'', 5) # (buffer, 257) # map (\<lambda>e. (e, 24)) as)"

lemma entered_ready:
  fixes s :: kstate and stack retn c
  defines "p \<equiv> entered stack retn c s"
  assumes apart: "stack_clear L mbd as buffer stack"
  shows "usable_map (ram s) mbd as \<Longrightarrow> usable_map (ram p) mbd as"
    and "usable_map (ram s) mbd as \<Longrightarrow> heap_start (ram p) as = heap_start (ram s) as"
    and "usable_map (ram s) mbd as \<Longrightarrow> heap_left (ram p) as = heap_left (ram s) as"
    and "digits_ready L (ram s) \<Longrightarrow> digits_ready L (ram p)"
    and "cstr_at (ram s) (s_literal L ''test'') (bytes_of ''test'') \<Longrightarrow> cstr_at (ram p) (s_literal L ''test'') (bytes_of ''test'')"
    and "\<forall>i < 256. ram s (buffer + of_nat i) = 0 \<Longrightarrow> \<forall>i < 256. ram p (buffer + of_nat i) = 0"
proof -
  have same: "ram p x = ram s x" if "sep (stack - 8) 8 a n" "inreg a n x" for a n x
    unfolding p_def by (rule entered_frame) (rule sep_notin [OF that])
  have ap: "sep (stack - 8) 8 mbd 52" "sep (stack - 8) 8 (s_itoa_buf L + 65) 1" "sep (stack - 8) 8 (s_zero L) 2"
    "sep (stack - 8) 8 (s_literal L ''test'') 5" "sep (stack - 8) 8 buffer 257" "e \<in> set as \<Longrightarrow> sep (stack - 8) 8 e 24" for e
    using apart by (simp_all add: stack_clear_def list_all_iff)
  show "usable_map (ram p) mbd as" "heap_start (ram p) as = heap_start (ram s) as" "heap_left (ram p) as = heap_left (ram s) as"
    if "usable_map (ram s) mbd as"
    by (rule usable_same [OF _ _ that], erule same [OF ap(1)], rule same [OF ap(6)], assumption+)+
  show "digits_ready L (ram s) \<Longrightarrow> digits_ready L (ram p)"
    by (erule digits_same) (rule same [OF ap(2)], simp add: inreg_def, erule same [OF ap(3)])
  show "cstr_at (ram p) (s_literal L ''test'') (bytes_of ''test'')" if "cstr_at (ram s) (s_literal L ''test'') (bytes_of ''test'')"
    by (rule cstr_at_frame [OF that], rule same [OF ap(4)]) (simp add: numeral_eq_Suc)
  show "\<forall>i < 256. ram p (buffer + of_nat i) = 0" if "\<forall>i < 256. ram s (buffer + of_nat i) = 0"
    using that same [OF ap(5)] by (simp add: inreg_def unat_nth)
qed

text \<open>C3. A whole session from power-on. A boot loader jumps to \<open>_start\<close> with the address of its record
  in \<open>ebx\<close>; the kernel boots from it, and then, with ticks and keys arriving in any order through the
  dispatch of the kernel, every line that is typed is served by a turn of the shell. The run gets to the end of
  the turn that serves the last of them: there the keyboard and the buffer of the shell are empty, and the
  screen shows the prompts, the echo of the keys and the answers one after the other, wrapped and scrolled as
  the abstract screen does. From there \<open>_start\<close> goes on with the loop of the shell.\<close>

theorem started_session:
  assumes layout: "boot_layout L mbd as t" and map: "usable_map (ram s) mbd as"
    and block: "t = heap_start (ram s) as + heap_left (ram s) as" and digits: "digits_ready L (ram s)"
    and lay: "session_layout L t r buffer" and save: "saves_regs r save" and cold: "keys_of s = (0, 0, 0)"
    and fs: "f_timer_handler L \<noteq> 0" "f_keyboard_handler L \<noteq> 0" "f_timer_handler L \<noteq> f_keyboard_handler L"
    and lit: "cstr_at (ram s) (s_literal L ''test'') (bytes_of ''test'')"
    and cleared: "\<forall>i < 256. ram s (buffer + of_nat i) = 0"
    and stack: "stack_clear L mbd as buffer stack" and ebx: "ebx c = mbd"
    and booted: "boot dev L mbd (entered stack retn c s) = ret s0"
    and typed: "types_session (hw_irq dev L r save) (hw_step dev L r save) (hw_code dev r save) L buffer css s0"
  shows "\<exists>s'. start_turns dev (hw_irq dev L r save) L buffer stack retn c (length css) s = ret s'
    \<and> start dev (hw_irq dev L r save) L buffer stack retn c s = shell (hw_irq dev L r save) L buffer s'
    \<and> console_ready L buffer s' \<and> hw_ready L r save s'
    \<and> view_of s' = fold (v_putchar 80 25 7) (concat (map turn_text css)) (view_of s0)"
proof -
  note e = entered_ready [OF stack, where s = s and retn = retn and c = c]
  have b: "t = heap_start (ram (entered stack retn c s)) as + heap_left (ram (entered stack retn c s)) as"
    using block e(2,3) [OF map] by simp
  have k: "keys_of (entered stack retn c s) = (0, 0, 0)" using cold by simp
  from booted_session [OF layout e(1) [OF map] b e(4) [OF digits] lay save k fs e(5) [OF lit] e(6) [OF cleared] booted typed]
  obtain s' where s': "shell_turns (hw_irq dev L r save) L buffer (length css) s0 = ret s'"
    "console_ready L buffer s' \<and> hw_ready L r save s'
      \<and> view_of s' = fold (v_putchar 80 25 7) (concat (map turn_text css)) (view_of s0)" by blast
  then have "start_turns dev (hw_irq dev L r save) L buffer stack retn c (length css) s = ret s'"
    by (simp add: start_turns_def start_enters ebx booted)
  then show ?thesis using s'(2) start_split [of dev "hw_irq dev L r save" L buffer stack retn c s "length css"] by simp
qed

text \<open>On the sample machine, with its stack at \<open>0x120000\<close>.\<close>

definition loaded_cpu :: cpu where
  "loaded_cpu = \<lparr>eax = 0x2BADB002, ebx = 0x8000, ecx = 0, edx = 0, esi = 0, edi = 0, esp = 0, ebp = 0, eip = 0x100010, eflags = flags_of 2, cr3 = 0\<rparr>"

lemma sample_stack: "stack_clear sample_syms 0x8000 [0x9000] 0x200000 0x120000"
  by (simp add: stack_clear_def sample_literal_def sample_literals_def sep_simps)

lemma started_session_witness:
  "\<exists>s0 s'. boot (\<lambda>_ _. 0x1C) sample_syms 0x8000 (entered 0x120000 0x100020 loaded_cpu (sample_state\<lparr>ram := sample_shell\<rparr>)) = ret s0
    \<and> start_turns (\<lambda>_ _. 0x1C) (hw_irq (\<lambda>_ _. 0x1C) sample_syms 0x7000 sample_save) sample_syms 0x200000 0x120000 0x100020 loaded_cpu
        2 (sample_state\<lparr>ram := sample_shell\<rparr>) = ret s'
    \<and> view_of s' = fold (v_putchar 80 25 7) (bytes_of ''\<newline>>>>\<newline>\<newline>>>>\<newline>'') (view_of s0)"
proof -
  let ?s = "sample_state\<lparr>ram := sample_shell\<rparr>" and ?dev = "\<lambda>_ _. 0x1C :: byte"
  let ?p = "entered 0x120000 0x100020 loaded_cpu ?s"
  have u: "usable_map (ram ?s) 0x8000 [0x9000]" "0x8FFBF0 = heap_start (ram ?s) [0x9000] + heap_left (ram ?s) [0x9000]"
    "digits_ready sample_syms (ram ?s)"
    by (simp_all add: sample_shell_usable sample_shell_bytes)
  have cold: "keys_of ?s = (0, 0, 0)" by (simp add: keys_of_def sample_state_def)
  have lit: "cstr_at (ram ?s) (s_literal sample_syms ''test'') (bytes_of ''test'')"
    by (simp add: sample_shell_bytes sample_literal_def sample_literals_def)
  have z: "\<forall>i < 256. ram ?s (0x200000 + of_nat i) = 0" by (simp add: sample_shell_cleared)
  have f: "f_timer_handler sample_syms \<noteq> 0" "f_keyboard_handler sample_syms \<noteq> 0"
    "f_timer_handler sample_syms \<noteq> f_keyboard_handler sample_syms" by simp_all
  note e = entered_ready [OF sample_stack, where s = ?s and retn = "0x100020" and c = loaded_cpu]
  have b: "0x8FFBF0 = heap_start (ram ?p) [0x9000] + heap_left (ram ?p) [0x9000]" using u(2) e(2,3) [OF u(1)] by simp
  have k: "keys_of ?p = (0, 0, 0)" using cold by simp
  obtain s0 where s0: "boot ?dev sample_syms 0x8000 ?p = ret s0" "screen_up s0" "devices_ready sample_syms s0"
    "keys_of s0 = (0, 0, 0)" "writes (boot_writes sample_syms 0x8FFBF0) {..<14} (ram ?p) (ram s0)"
    using boot_done [OF sample_boot_layout e(1) [OF u(1)] b e(4) [OF u(3)], of ?dev] unfolding k by blast
  note desk = desk_booted [OF sample_session_layout s0(5,2-4) sample_saves(1) f e(5) [OF lit] e(6) [OF z]]
  have typed: "types_session (hw_irq ?dev sample_syms 0x7000 sample_save) (hw_step ?dev sample_syms 0x7000 sample_save)
      (hw_code ?dev 0x7000 sample_save) sample_syms 0x200000 [[], []] s0"
    using sample_session [OF desk, of 2] by (simp add: numeral_2_eq_2)
  have shown: "concat (map turn_text [[], []]) = bytes_of ''\<newline>>>>\<newline>\<newline>>>>\<newline>''"
    by (simp add: turn_text_def answer_text_def)
  have "ebx loaded_cpu = 0x8000" by (simp add: loaded_cpu_def)
  from started_session [OF sample_boot_layout u sample_session_layout sample_saves(1) cold f lit z sample_stack this s0(1) typed]
  show ?thesis using s0(1) unfolding shown by (auto simp: numeral_2_eq_2)
qed

end
