(* ===== verification/Spec2Isabelle.thy ===== *)
theory Spec2Isabelle
  imports Term_Spec Mem_Boot Compile_Spec Task_Run Start
begin

text \<open>
  \<^bold>\<open>A verification development for d3\<close>, a kernel in C for 32-bit x86 with a text terminal, a block
  allocator, descriptor tables, a keyboard, a clock, a floppy driver, a small virtual machine with an
  assembler, cooperative tasks and a shell; and for the stand-alone assembler of \<^verbatim>\<open>src/dasm\<close>.

  \<^bold>\<open>The program.\<close> \<^verbatim>\<open>cmain\<close> (\<^verbatim>\<open>src/kernel.c\<close>) initialises the terminal, the segment and interrupt tables, the
  allocator, the keyboard and the timer, enables interrupts, prints the time and serves a shell for
  ever. Interrupts enter through the gates of \<^verbatim>\<open>src/idt.c\<close> and reach the handlers of \<^verbatim>\<open>src/keybd.c\<close> and
  \<^verbatim>\<open>src/time.c\<close>; the shell waits until the keyboard handler has seen Enter. The virtual machine
  (\<^verbatim>\<open>src/vm.c\<close>, \<^verbatim>\<open>src/vm_ops.c\<close>), the assembler that feeds it (\<^verbatim>\<open>src/dasm.c\<close>), the tasks (\<^verbatim>\<open>src/task.c\<close>,
  \<^verbatim>\<open>src/switch.S\<close>) and the floppy driver (\<^verbatim>\<open>src/fat12.c\<close>) are linked in; their start in \<^verbatim>\<open>cmain\<close> is
  commented out. All of them use the allocator (\<^verbatim>\<open>src/mem.c\<close>), the strings (\<^verbatim>\<open>src/str.c\<close>) and the
  terminal (\<^verbatim>\<open>src/term.c\<close>).

  \<^bold>\<open>The state.\<close> Memory is one function from 32-bit addresses to bytes, the field \<open>ram\<close> of \<open>kstate\<close>
  (theory Machine). Everything a pointer of the program can reach lies there: list nodes, strings,
  the frame buffer, the tables the processor reads, tasks, machines, instructions, with the offsets
  the compiler gives the fields. Scalar globals no pointer reaches are fields of \<open>kstate\<close>. Where the
  linker puts the globals, the functions and the string literals is the record \<open>syms\<close>, an argument
  \<open>L\<close> of the definitions. A write to a port is an event of the log \<open>io\<close>; a read is answered by the
  parameter \<open>dev\<close>, a function of that log. \<open>None\<close> is a run that does not end. \<open>Some (Inl _)\<close> is one
  that leaves the program: a panic, or a call through a pointer to none of its functions.
  \<open>Some (Inr _)\<close> is a return.

  \<^bold>\<open>The theories.\<close>
  \<^item> Prelude: memory cells of one to eight bytes and the disjointness of ranges (\<open>sep\<close>, \<open>inreg\<close>). The
    locale \<open>mem_cell\<close> states what a load sees of a store, \<open>mem_double\<close> builds a cell from two, and
    \<open>mem_cells\<close> relates two widths; they are interpreted at the four widths and all pairs, and their
    facts are the rewrite rules \<open>mem_simps\<close>. Machine: \<^verbatim>\<open>io.c\<close>, \<open>mem_cpy\<close> and \<open>mem_set\<close>. Samples: the link map and
    the state at which properties are instantiated. Linked: the locale \<open>linked\<close> of a link field,
    with chains that end and rings; interpreted by the allocator and, twice, by the task queue.
  \<^item> Str: \<^verbatim>\<open>str.c\<close> and \<open>strlen\<close>. Term: \<^verbatim>\<open>term.c\<close>; its locale \<open>printer\<close> says what printing leaves alone.
    Term\_Spec: an abstract screen and the proof that the terminal implements it. Report: the
    routines that print numbers, and that they change nothing but the screen and the digit buffer.
  \<^item> Multiboot: what the boot loader hands over. Mem: the allocator as an operation on two lists in memory, each branch of \<open>malloc\<close> and \<open>free\<close>.
    Mem\_Boot: how \<open>init_mm\<close> makes the lists from the memory map of the boot loader. Mem\_History: an
    abstract heap of two lists of blocks, implemented by \<open>malloc\<close> and \<open>free\<close> over any history it allows;
    it stops above a bound \<open>low\<close> that keeps it off the headers, and where \<open>malloc\<close> would hand out the header
    of the free list or carve a recycled block that is larger than the room left.
  \<^item> Gdt and Idt: the descriptor tables as written and as the processor decodes them; the interrupt
    controllers as state machines fed by the port log; the dispatch of requests.
  \<^item> Keybd: the handler against an abstract line editor; the locale \<open>typist\<close>, a source of interrupts, and
    what \<open>get_kbd\<close> returns with any such source; interpreted by the handler alone and, in Kernel\_Spec, by
    the dispatch of the kernel with the clock ticking between the keys. Time: the
    timer and the clock. Fat12: the floppy controller's commands and waits.
  \<^item> Vm: the virtual machine. Vm\_Abs: an abstract machine with every operation and operand, a type
    checker for straight-line programs, and each typed instruction as a step of the abstract machine.
    Vm\_Spec: a typed program runs to its end, computes what the abstract machine computes and writes
    nowhere else. Dasm and Dasm\_Spec: the assembler of the kernel. Host\_Dasm and Host\_Spec: the assembler
    of the host, correct for every well-formed program, its file as the virtual machine reads it,
    and where the two assemblers differ. Compile\_Spec: from the text of a program through the host
    assembler and its file to the run of the virtual machine.
  \<^item> Task and Task\_Spec: tasks and the context switch; the ring they form under any history of
    scheduling tasks and of killing others than the first and the last. Task\_Run: the loop over that ring serves its tasks in turn; what it does when
    one of them ends, in each place of the ring, and how the end of the head stops it. Kernel and Kernel\_Spec: booting, interrupts and the shell.
    Boot\_Spec: the boot sequence from end to end, as a list of regions each step may write and the
    facts about the screen, the tables, the heap and the handlers that survive the later steps; the
    allocator after booting.
    Session: any number of lines from power-on, with what the screen shows of them. The locale \<open>echoing\<close> is
    a source of keys that shows what it adds to the line, \<open>console\<close> adds the buffer of the shell and has
    the turn and the session, each turn of which is shown to end; the dispatch of the kernel is an instance
    of it, \<open>desk\<close>.
    Start: the header of the image and the entry point of \<^verbatim>\<open>boot.S\<close>, and the session from there.

  \<^bold>\<open>Loops.\<close> A loop that counts is a function with a measure, or recursion on what is left. A loop
  whose end depends on memory or on devices (scans of strings and lists, the waits, \<open>vm_loop\<close>, \<open>run_que\<close>,
  the shell) is a \<open>partial_function\<close>: that it returns is proved as such, with the value, and so is
  that it does not (\<open>flpydsk_reset\<close>, \<open>run_que\<close> on a live ring). Of a loop without an end,
  the shell's, the number of turns that are reached is stated instead (\<open>shell_turns\<close>, \<open>start_turns\<close>). There is no fuel. The 500 polls of a
  floppy command are the bound the driver has itself.

  \<^bold>\<open>Interrupts\<close> happen where the code waits for them: the loop of \<open>get_kbd\<close> runs the parameter \<open>irq\<close> between two
  looks at the flag, the waits for the floppy controller likewise. \<open>hw_irq\<close> is one such interrupt, from the
  registers the stub has saved (the parameter \<open>save\<close>) through the table of handlers to the acknowledgement. A handler in the middle of another function is
  not modelled. Calls through pointers (handlers, hooks of tasks, operations of the virtual machine)
  go through the table in memory to the function at that address, the parameter \<open>call\<close> where the function is not
  fixed. \<open>sw\<close> is \<^verbatim>\<open>switchTask\<close> as its caller sees it, the function \<open>switchTask\<close> what it does to
  registers and stack; that loading a page table changes what addresses mean is left out. The flags are a type
  of their own, those \<^verbatim>\<open>popf\<close> can load in a kernel that is not traced; a word that would set the trap flag ends
  the switch in a debug exception (\<open>None\<close>).

  \<^bold>\<open>C.\<close> \<^verbatim>\<open>int\<close>, \<^verbatim>\<open>size_t\<close> and pointers are 32-bit words, \<^verbatim>\<open>short\<close> 16 and \<^verbatim>\<open>char\<close> 8, signed where the code
  compares, divides or extends them; arithmetic wraps. Double arithmetic occurs twice, in \<open>good_buddy\<close> and in the
  year of \<open>get_time\<close>, and is exact there. Padding bytes of structs keep their values, or are
  parameters (\<open>host_record\<close>). Printing a literal does not depend on memory (\<open>term_writelit\<close>);
  literals that are compared or copied are read from memory. The host assembler's heap is a
  function from natural numbers, its blocks above one another wherever the parameter \<open>gap\<close> puts them.

  \<^bold>\<open>Properties.\<close> Each carries its number in the text before it and stands with its component. Side
  conditions say that objects do not overlap, that pointers lead to well-formed lists and
  strings, and where devices must answer in a certain way; each has a concrete instance, named
  after it. Several state what the code does where it plainly means to do something else: blocks
  that run into one another, names looked up with the opposite convention, a queue that is never
  left, a context switched to at the wrong offset.

  \<^bold>\<open>Not modelled.\<close> \<^verbatim>\<open>startup.S\<close> is no part of the build, whose stubs come from a file that is not in the
  repository: what they save is a parameter of the interrupts, and their effect is that the handlers are
  called. The linker script gives addresses, also parameters. The remaining constants of \<^verbatim>\<open>multiboot.h\<close> and
  the prototypes of the other headers are code of no function. \<open>vm_parse_ins\<close> computes nothing. The build
  files, the images and the Perl prototype of the assembler are outside.
\<close>

end
